(* ===== verification/Prelude.thy ===== *)
theory Prelude
  imports Main "HOL-Library.Word" "HOL-Library.Monad_Syntax"
begin

text \<open>
  Shared vocabulary of the development: the machine integers of the Rust sources, panicking
  reads and writes of vectors, the byte encodings of \<^verbatim>\<open>to_le_bytes\<close> and
  \<^verbatim>\<open>to_be_bytes\<close>, and generic facts on lists, maps and words that several components use.

  Conventions. A Rust \<^verbatim>\<open>usize\<close> that counts or indexes elements held in memory is a
  \<open>nat\<close> (a \<^verbatim>\<open>Vec\<close> cannot hold \<open>2 ^ 63\<close> elements); integers whose width
  matters are words. A computation that may panic has an \<open>option\<close> result, \<open>None\<close> being
  the panic.
\<close>

unbundle bit_operations_syntax

section \<open>Machine integers\<close>

type_synonym u8 = "8 word"
type_synonym u16 = "16 word"
type_synonym u32 = "32 word"
type_synonym u64 = "64 word"
type_synonym i32 = int
type_synonym usize = nat
type_synonym bytes = "8 word list"

text \<open>Rust's \<^verbatim>\<open>cmp::Ordering\<close> and the total comparison of \<^verbatim>\<open>Ord::cmp\<close>.\<close>

datatype ordering = Less | Equal | Greater

definition cmp :: "'a::linorder \<Rightarrow> 'a \<Rightarrow> ordering" where
  "cmp a b = (if a < b then Less else if a = b then Equal else Greater)"

definition then_with :: "ordering \<Rightarrow> ordering \<Rightarrow> ordering" where
  "then_with a b = (if a = Equal then b else a)"

primrec reverse_ordering :: "ordering \<Rightarrow> ordering" where
  "reverse_ordering Less = Greater"
| "reverse_ordering Equal = Equal"
| "reverse_ordering Greater = Less"

section \<open>Panicking access to vectors\<close>

definition nth_opt :: "'a list \<Rightarrow> nat \<Rightarrow> 'a option" where
  "nth_opt xs i = (if i < length xs then Some (xs ! i) else None)"

definition upd_opt :: "'a list \<Rightarrow> nat \<Rightarrow> 'a \<Rightarrow> 'a list option" where
  "upd_opt xs i v = (if i < length xs then Some (xs[i := v]) else None)"

definition assert_opt :: "bool \<Rightarrow> unit option" where
  "assert_opt b = (if b then Some () else None)"

named_theorems panic_simps \<open>when a panicking primitive returns\<close>

lemma nth_opt_Some [panic_simps]: "nth_opt xs i = Some x \<longleftrightarrow> i < length xs \<and> xs ! i = x"
  by (auto simp: nth_opt_def)

lemma upd_opt_Some [panic_simps]: "upd_opt xs i v = Some ys \<longleftrightarrow> i < length xs \<and> ys = xs[i := v]"
  by (auto simp: upd_opt_def)

lemma assert_opt_Some [panic_simps]: "assert_opt b = Some u \<longleftrightarrow> b"
  by (auto simp: assert_opt_def)

lemma nth_opt_in [simp]: "i < length xs \<Longrightarrow> nth_opt xs i = Some (xs ! i)"
  by (simp add: nth_opt_def)

lemma nth_opt_out [simp]: "length xs \<le> i \<Longrightarrow> nth_opt xs i = None"
  by (simp add: nth_opt_def)

lemma upd_opt_in [simp]: "i < length xs \<Longrightarrow> upd_opt xs i v = Some (xs[i := v])"
  by (simp add: upd_opt_def)

lemma assert_opt_True [simp]: "assert_opt True = Some ()"
  by (simp add: assert_opt_def)

lemma assert_opt_False [simp]: "assert_opt False = None"
  by (simp add: assert_opt_def)

section \<open>Byte encodings\<close>

definition to_le_bytes :: "nat \<Rightarrow> 'a::len word \<Rightarrow> bytes" where
  "to_le_bytes n w = map (\<lambda>i. ucast (drop_bit (8 * i) w)) [0..<n]"

primrec from_le_bytes :: "bytes \<Rightarrow> 'a::len word" where
  "from_le_bytes [] = 0"
| "from_le_bytes (b # bs) = ucast b OR push_bit 8 (from_le_bytes bs)"

definition to_be_bytes :: "nat \<Rightarrow> 'a::len word \<Rightarrow> bytes" where
  "to_be_bytes n w = rev (to_le_bytes n w)"

definition from_be_bytes :: "bytes \<Rightarrow> 'a::len word" where
  "from_be_bytes bs = from_le_bytes (rev bs)"

lemma length_to_le_bytes [simp]: "length (to_le_bytes n w) = n"
  by (simp add: to_le_bytes_def)

lemma length_to_be_bytes [simp]: "length (to_be_bytes n w) = n"
  by (simp add: to_be_bytes_def)

lemma bit_u8_bound: "bit (b :: u8) k \<Longrightarrow> k < 8"
  using bit_imp_le_length [of b k] by simp

lemma bit_from_le_bytes:
  "bit (from_le_bytes bs :: 'a::len word) k \<longleftrightarrow>
     k < LENGTH('a) \<and> k div 8 < length bs \<and> bit (bs ! (k div 8)) (k mod 8)"
proof (induction bs arbitrary: k)
  case Nil
  then show ?case by simp
next
  case (Cons b bs)
  show ?case
  proof (cases "k < 8")
    case True
    then show ?thesis
      by (simp add: bit_or_iff bit_ucast_iff bit_push_bit_iff)
  next
    case False
    then have k: "k div 8 = Suc ((k - 8) div 8)" "k mod 8 = (k - 8) mod 8"
      by (simp_all add: le_div_geq le_mod_geq)
    have "\<not> bit b k" using False bit_u8_bound by blast
    with False k Cons.IH [of "k - 8"] show ?thesis
      by (auto simp: bit_or_iff bit_ucast_iff bit_push_bit_iff)
  qed
qed

lemma bit_to_le_bytes:
  "i < n \<Longrightarrow> bit (to_le_bytes n (w :: 'a::len word) ! i) k \<longleftrightarrow> k < 8 \<and> bit w (8 * i + k)"
  by (auto simp: to_le_bytes_def bit_ucast_iff bit_drop_bit_eq)

lemma from_to_le_bytes:
  assumes "LENGTH('a) = 8 * n"
  shows "from_le_bytes (to_le_bytes n w) = (w :: 'a::len word)"
proof (rule bit_word_eqI)
  fix k
  assume "k < LENGTH('a)"
  with assms have "k div 8 < n" by auto
  with \<open>k < LENGTH('a)\<close> show "bit (from_le_bytes (to_le_bytes n w) :: 'a word) k \<longleftrightarrow> bit w k"
    by (simp add: bit_from_le_bytes bit_to_le_bytes)
qed

lemma to_from_le_bytes:
  assumes "LENGTH('a) = 8 * length bs"
  shows "to_le_bytes (length bs) (from_le_bytes bs :: 'a::len word) = bs"
proof (rule nth_equalityI)
  show "length (to_le_bytes (length bs) (from_le_bytes bs :: 'a word)) = length bs" by simp
  fix i
  assume "i < length (to_le_bytes (length bs) (from_le_bytes bs :: 'a word))"
  then have i: "i < length bs" by simp
  show "to_le_bytes (length bs) (from_le_bytes bs :: 'a word) ! i = bs ! i"
  proof (rule bit_word_eqI)
    fix k
    assume "k < LENGTH(8)"
    then have "k < 8" by simp
    moreover from this i assms have "8 * i + k < LENGTH('a)" by simp
    ultimately show "bit (to_le_bytes (length bs) (from_le_bytes bs :: 'a word) ! i) k \<longleftrightarrow> bit (bs ! i) k"
      using i by (simp add: bit_from_le_bytes bit_to_le_bytes)
  qed
qed

lemma from_to_be_bytes:
  "LENGTH('a) = 8 * n \<Longrightarrow> from_be_bytes (to_be_bytes n w) = (w :: 'a::len word)"
  by (simp add: from_be_bytes_def to_be_bytes_def from_to_le_bytes)

lemma to_from_be_bytes:
  assumes "LENGTH('a) = 8 * length bs"
  shows "to_be_bytes (length bs) (from_be_bytes bs :: 'a::len word) = bs"
proof -
  from assms have "LENGTH('a) = 8 * length (rev bs)" by simp
  from to_from_le_bytes [OF this] show ?thesis
    by (simp add: from_be_bytes_def to_be_bytes_def)
qed

lemmas byte_roundtrips = from_to_le_bytes from_to_be_bytes

section \<open>Lists and words\<close>

lemma distinct_map_nth_neq:
  "distinct (map f xs) \<Longrightarrow> i < length xs \<Longrightarrow> j < length xs \<Longrightarrow> i \<noteq> j \<Longrightarrow> f (xs ! i) \<noteq> f (xs ! j)"
  by (metis length_map nth_eq_iff_index_eq nth_map)

lemma unat_plus_one: "(x :: 'a::len word) \<noteq> - 1 \<Longrightarrow> unat (x + 1) = Suc (unat x)"
  using unatSuc [of x] by (simp add: add.commute eq_neg_iff_add_eq_0)

lemma unat_max: "unat (- 1 :: 'a::len word) = 2 ^ LENGTH('a) - 1"
  by (simp add: unsigned_minus_1_eq_mask mask_eq_exp_minus_1)

lemma word_less_plus_one: "(x :: 'a::len word) \<noteq> - 1 \<Longrightarrow> x < x + 1"
  by (simp add: word_less_nat_alt unat_plus_one)

section \<open>Slices\<close>

text \<open>\<open>slice a b xs\<close> is \<^verbatim>\<open>xs[a..b]\<close> where the bounds are known to be in range; \<open>slice_opt\<close> panics out of
  range. \<open>copy_at\<close> is \<^verbatim>\<open>xs[i..i + ys.len()].copy_from_slice(ys)\<close>.\<close>

definition slice :: "nat \<Rightarrow> nat \<Rightarrow> 'a list \<Rightarrow> 'a list" where
  "slice a b xs = take (b - a) (drop a xs)"

definition slice_opt :: "nat \<Rightarrow> nat \<Rightarrow> 'a list \<Rightarrow> 'a list option" where
  "slice_opt a b xs = (if a \<le> b \<and> b \<le> length xs then Some (slice a b xs) else None)"

definition copy_at :: "nat \<Rightarrow> 'a list \<Rightarrow> 'a list \<Rightarrow> 'a list" where
  "copy_at i ys xs = take i xs @ ys @ drop (i + length ys) xs"

lemma length_slice [simp]: "length (slice a b xs) = min (b - a) (length xs - a)"
  by (simp add: slice_def min.commute)

lemma length_copy_at [simp]: "i + length ys \<le> length xs \<Longrightarrow> length (copy_at i ys xs) = length xs"
  by (simp add: copy_at_def)

lemma copy_at_append:
  "length xs = i \<Longrightarrow> length ys \<le> n \<Longrightarrow> copy_at i ys (xs @ replicate n z) = xs @ ys @ replicate (n - length ys) z"
  by (simp add: copy_at_def)

lemma slice_append_left: "b \<le> length xs \<Longrightarrow> slice a b (xs @ ys) = slice a b xs"
  by (simp add: slice_def)

lemma slice_append_right: "length xs \<le> a \<Longrightarrow> slice a b (xs @ ys) = slice (a - length xs) (b - length xs) ys"
  by (simp add: slice_def)

lemma slice_all: "length xs \<le> b \<Longrightarrow> slice 0 b xs = xs"
  by (simp add: slice_def)

lemmas slice_appends = slice_append_left slice_append_right slice_all


lemma slice_Cons: "0 < a \<Longrightarrow> slice a b (x # xs) = slice (a - 1) (b - 1) xs"
  by (cases a) (simp_all add: slice_def)

lemma slice_join: "a \<le> b \<Longrightarrow> b \<le> c \<Longrightarrow> slice a b xs @ slice b c xs = slice a c xs"
proof -
  assume "a \<le> b" "b \<le> c"
  then have "c - a = (b - a) + (c - b)" "b = (b - a) + a" by simp_all
  then show ?thesis unfolding slice_def by (metis drop_drop take_add)
qed

lemma slice_single: "a < length xs \<Longrightarrow> slice a (Suc a) xs = [xs ! a]"
  by (simp add: slice_def take_Suc_conv_app_nth)

lemma slice_rest: "slice 0 b xs @ drop b xs = xs"
  by (simp add: slice_def)

lemma to_from_le_slice:
  assumes "LENGTH('a) = 8 * n" "b = a + n" "b \<le> length bs"
  shows "to_le_bytes n (from_le_bytes (slice a b bs) :: 'a::len word) = slice a b bs"
  using assms to_from_le_bytes [of "slice a b bs", where 'a = 'a] by simp


section \<open>Checked arithmetic and searches\<close>

text \<open>A subtraction on \<^verbatim>\<open>usize\<close> that panics on underflow.\<close>

definition checked_sub :: "nat \<Rightarrow> nat \<Rightarrow> nat option" where
  "checked_sub a b = (if b \<le> a then Some (a - b) else None)"

lemma checked_sub_Some [panic_simps]: "checked_sub a b = Some c \<longleftrightarrow> b \<le> a \<and> c = a - b"
  by (auto simp: checked_sub_def)

lemma checked_sub_None: "checked_sub a b = None \<longleftrightarrow> a < b"
  by (simp add: checked_sub_def)

lemma checked_sub_ok [simp]: "b \<le> a \<Longrightarrow> checked_sub a b = Some (a - b)"
  by (simp add: checked_sub_def)

lemma find_upt_Some:
  "find P [a..<b] = Some c \<longleftrightarrow> a \<le> c \<and> c < b \<and> P c \<and> (\<forall>i. a \<le> i \<longrightarrow> i < c \<longrightarrow> \<not> P i)"
proof
  assume "find P [a..<b] = Some c"
  then obtain k where k: "k < b - a" "P (a + k)" "c = a + k" "\<forall>j<k. \<not> P (a + j)"
    by (auto simp: find_Some_iff)
  have "\<not> P i" if "a \<le> i" "i < c" for i
    using k(4) [rule_format, of "i - a"] that k(3) by simp
  with k show "a \<le> c \<and> c < b \<and> P c \<and> (\<forall>i. a \<le> i \<longrightarrow> i < c \<longrightarrow> \<not> P i)" by simp
next
  assume "a \<le> c \<and> c < b \<and> P c \<and> (\<forall>i. a \<le> i \<longrightarrow> i < c \<longrightarrow> \<not> P i)"
  then show "find P [a..<b] = Some c"
    by (auto simp: find_Some_iff intro!: exI [of _ "c - a"])
qed

lemma find_upt_None: "find P [a..<b] = None \<longleftrightarrow> (\<forall>i. a \<le> i \<longrightarrow> i < b \<longrightarrow> \<not> P i)"
  by (auto simp: find_None_iff)


section \<open>Reading what was copied\<close>

lemma slice_slice: "b \<le> d - c \<Longrightarrow> slice a b (slice c d xs) = slice (c + a) (c + b) xs"
  by (simp add: slice_def drop_take add.commute)

lemma slice_copy_at_same:
  "a \<le> length xs \<Longrightarrow> slice a (a + length ys) (copy_at a ys xs) = ys"
  by (simp add: slice_def copy_at_def)

lemma nth_copy_at:
  assumes "a \<le> length xs" "k < length (copy_at a ys xs)"
  shows "copy_at a ys xs ! k = (if a \<le> k \<and> k < a + length ys then ys ! (k - a) else xs ! k)"
  using assms by (auto simp: copy_at_def nth_append)

lemma nth_slice: "a + k < b \<Longrightarrow> a + k < length xs \<Longrightarrow> slice a b xs ! k = xs ! (a + k)"
  by (simp add: slice_def)

lemma slice_eqI:
  assumes "b \<le> length xs" "b \<le> length ys" "\<And>k. a \<le> k \<Longrightarrow> k < b \<Longrightarrow> xs ! k = ys ! k"
  shows "slice a b xs = slice a b ys"
proof (rule nth_equalityI)
  show "length (slice a b xs) = length (slice a b ys)" using assms(1,2) by simp
  fix k
  assume "k < length (slice a b xs)"
  then have k: "a + k < b" using assms(1) by simp
  with assms show "slice a b xs ! k = slice a b ys ! k" by (simp add: nth_slice)
qed

lemma slice_copy_at_disjoint:
  assumes "a + length ys \<le> length xs" "c \<le> length xs" "c \<le> a \<or> a + length ys \<le> b"
  shows "slice b c (copy_at a ys xs) = slice b c xs"
  using assms by (intro slice_eqI) (auto simp: nth_copy_at)


text \<open>Masks of 64-bit words.\<close>

lemma and_not_plus_and: "(w AND NOT m) + (w AND m) = (w :: u64)"
proof -
  have "(w AND NOT m) + (w AND m) = (w AND NOT m) OR (w AND m)"
    by (rule disjunctive_add_eq_or) (auto intro: bit_word_eqI simp: bit_and_iff bit_not_iff)
  also have "\<dots> = w" by (rule bit_word_eqI) (auto simp: bit_and_iff bit_or_iff bit_not_iff)
  finally show ?thesis .
qed

lemma bit_flag_test: "w AND 2 ^ r = (0::u64) \<longleftrightarrow> \<not> bit w r" if "r < 64"
  by (simp add: and_exp_eq_0_iff_not_bit)

lemma unat_and_mask: "unat (w AND (2 ^ n - 1) :: u64) = unat w mod 2 ^ n"
  by (metis mask_eq_exp_minus_1 take_bit_eq_mask take_bit_eq_mod unsigned_take_bit_eq)

lemma unat_and_not_mask: "unat (w AND NOT (2 ^ n - 1) :: u64) = unat w - unat w mod 2 ^ n"
proof -
  have "w AND NOT (2 ^ n - 1) = w - (w AND (2 ^ n - 1))"
    using and_not_plus_and [of w "2 ^ n - 1"] by (simp add: eq_diff_eq)
  moreover have "w AND (2 ^ n - 1) \<le> w" by (simp add: word_le_nat_alt unat_and_mask)
  ultimately show ?thesis by (simp add: unat_sub unat_and_mask)
qed

end
