(* ===== verification/Fifo_Queue.thy ===== *)
theory Fifo_Queue
  imports Prelude "HOL-Library.Multiset"
begin

text \<open>
  The contract shared by the two priority queues of \<^verbatim>\<open>asynchronix/src/util\<close>: a queue
  of key-value pairs from which the pair with the lowest key is pulled, pairs with equal keys
  leaving in the order of their insertion. The specification is a list sorted by key
  (\<open>fifo_insert\<close>, head, tail); the locale \<open>fifo_queue\<close> states the laws of a provider
  against it and proves what a client (the scheduler) needs.

  Both implementations order their items by a user key complemented by an insertion epoch
  (\<open>unique_key\<close>); the facts on sorting such items are proved here once.
\<close>

section \<open>Keys complemented by an epoch\<close>

datatype 'k unique_key = UniqueKey (uk_key: 'k) (uk_epoch: u64)

text \<open>The derived \<^verbatim>\<open>PartialOrd\<close> is lexicographic, the key before the epoch.\<close>

instantiation unique_key :: (linorder) linorder
begin

definition less_eq_unique_key :: "'a unique_key \<Rightarrow> 'a unique_key \<Rightarrow> bool" where
  "less_eq_unique_key a b \<longleftrightarrow>
     uk_key a < uk_key b \<or> uk_key a = uk_key b \<and> uk_epoch a \<le> uk_epoch b"

definition less_unique_key :: "'a unique_key \<Rightarrow> 'a unique_key \<Rightarrow> bool" where
  "less_unique_key a b \<longleftrightarrow>
     uk_key a < uk_key b \<or> uk_key a = uk_key b \<and> uk_epoch a < uk_epoch b"

instance
  by standard (auto simp: less_eq_unique_key_def less_unique_key_def unique_key.expand)

end

section \<open>The specification: a list sorted by key\<close>

fun fifo_insert :: "'k::linorder \<Rightarrow> 'v \<Rightarrow> ('k \<times> 'v) list \<Rightarrow> ('k \<times> 'v) list" where
  "fifo_insert k v [] = [(k, v)]"
| "fifo_insert k v ((k', v') # xs) =
     (if k < k' then (k, v) # (k', v') # xs else (k', v') # fifo_insert k v xs)"

lemma mset_fifo_insert [simp]: "mset (fifo_insert k v xs) = add_mset (k, v) (mset xs)"
  by (induction k v xs rule: fifo_insert.induct) auto

lemma set_fifo_insert [simp]: "set (fifo_insert k v xs) = insert (k, v) (set xs)"
  by (induction k v xs rule: fifo_insert.induct) auto

lemma length_fifo_insert [simp]: "length (fifo_insert k v xs) = Suc (length xs)"
  by (induction k v xs rule: fifo_insert.induct) auto

lemma sorted_fifo_insert:
  "sorted (map fst xs) \<Longrightarrow> sorted (map fst (fifo_insert k v xs))"
  by (induction k v xs rule: fifo_insert.induct) (auto simp: less_imp_le intro: order.trans)

lemma filter_fifo_insert:
  "sorted (map fst xs) \<Longrightarrow>
   filter (\<lambda>x. fst x = c) (fifo_insert k v xs) =
     filter (\<lambda>x. fst x = c) xs @ (if k = c then [(k, v)] else [])"
proof (induction k v xs rule: fifo_insert.induct)
  case (2 k v k' v' xs)
  show ?case
  proof (cases "k < k'")
    case True
    with 2(2) have "filter (\<lambda>x. fst x = k) ((k', v') # xs) = []"
      by (fastforce simp: filter_empty_conv)
    with True show ?thesis by auto
  next
    case False
    with 2 show ?thesis by auto
  qed
qed simp

text \<open>Inserting one by one is the stable sort of the insertions.\<close>

definition fifo_insert_all :: "('k::linorder \<times> 'v) list \<Rightarrow> ('k \<times> 'v) list \<Rightarrow> ('k \<times> 'v) list" where
  "fifo_insert_all kvs xs = fold (\<lambda>(k, v). fifo_insert k v) kvs xs"

lemma fifo_insert_all_props:
  "sorted (map fst xs) \<Longrightarrow>
     sorted (map fst (fifo_insert_all kvs xs)) \<and>
     mset (fifo_insert_all kvs xs) = mset kvs + mset xs \<and>
     (\<forall>c. filter (\<lambda>x. fst x = c) (fifo_insert_all kvs xs) =
            filter (\<lambda>x. fst x = c) xs @ filter (\<lambda>x. fst x = c) kvs)"
proof (induction kvs arbitrary: xs)
  case Nil
  then show ?case by (simp add: fifo_insert_all_def)
next
  case (Cons kv kvs)
  obtain k v where kv: "kv = (k, v)" by force
  have step: "fifo_insert_all ((k, v) # kvs) xs = fifo_insert_all kvs (fifo_insert k v xs)"
    by (simp add: fifo_insert_all_def)
  show ?case
    unfolding kv step using Cons.IH [OF sorted_fifo_insert [OF Cons.prems]]
    by (auto simp: filter_fifo_insert [OF Cons.prems])
qed

lemma fifo_insert_all_sort: "fifo_insert_all kvs [] = sort_key fst kvs"
proof (rule sym, rule properties_for_sort_key)
  note props = fifo_insert_all_props [of "[]" kvs, simplified]
  show "mset (fifo_insert_all kvs []) = mset kvs" using props by simp
  show "sorted (map fst (fifo_insert_all kvs []))" using props by simp
  show "filter (\<lambda>x. fst p = fst x) (fifo_insert_all kvs []) = filter (\<lambda>x. fst p = fst x) kvs"
    for p :: "'a \<times> 'b"
    using props by (metis (mono_tags, lifting) filter_cong)
qed

section \<open>Sorting items by their unique key\<close>

abbreviation strip :: "'k unique_key \<times> 'v \<Rightarrow> 'k \<times> 'v" where
  "strip p \<equiv> (uk_key (fst p), snd p)"

definition fifo_of :: "('k::linorder unique_key \<times> 'v) list \<Rightarrow> ('k \<times> 'v) list" where
  "fifo_of its = map strip (sort_key fst its)"

lemma fifo_of_Nil [simp]: "fifo_of [] = []"
  by (simp add: fifo_of_def)

lemma length_fifo_of [simp]: "length (fifo_of its) = length its"
  by (simp add: fifo_of_def)

lemma sorted_fifo_of: "sorted (map fst (fifo_of its))"
proof -
  have "sorted (map fst (sort_key fst its))" by (rule sorted_sort_key)
  then have "sorted_wrt (\<lambda>a b. uk_key (fst a) \<le> uk_key (fst b)) (sort_key fst its)"
    unfolding sorted_map by (rule sorted_wrt_mono_rel [rotated]) (auto simp: less_eq_unique_key_def)
  then show ?thesis by (simp add: fifo_of_def sorted_map)
qed

lemma distinct_map_mset_cong:
  assumes "mset xs = mset ys"
  shows "distinct (map f xs) = distinct (map f ys)"
proof -
  from assms have "mset (map f xs) = mset (map f ys)" by simp
  then show ?thesis by (rule mset_eq_imp_distinct_iff)
qed

lemma sort_key_mset_cong:
  "mset xs = mset ys \<Longrightarrow> distinct (map f xs) \<Longrightarrow> sort_key f xs = sort_key f ys"
  by (rule sort_key_inj_key_eq) (auto simp: distinct_map)

lemma fifo_of_cong:
  "mset xs = mset ys \<Longrightarrow> distinct (map fst xs) \<Longrightarrow> fifo_of xs = fifo_of ys"
  unfolding fifo_of_def by (simp add: sort_key_mset_cong)

lemma strip_insort:
  assumes "\<forall>p \<in> set ps. uk_epoch (fst p) < e"
  shows "map strip (insort_key fst (UniqueKey k e, v) ps) = fifo_insert k v (map strip ps)"
  using assms by (induction ps) (auto simp: less_eq_unique_key_def)

lemma fifo_of_insert:
  "\<forall>p \<in> set its. uk_epoch (fst p) < e \<Longrightarrow>
     fifo_of ((UniqueKey k e, v) # its) = fifo_insert k v (fifo_of its)"
  by (simp add: fifo_of_def strip_insort)

lemma fifo_of_min:
  assumes "mset its = add_mset (u, v) (mset its')"
    and "\<forall>p \<in> set its'. u < fst p" and "distinct (map fst its)"
  shows "fifo_of its = (uk_key u, v) # fifo_of its'"
proof -
  have "fifo_of its = fifo_of ((u, v) # its')"
    using assms by (intro fifo_of_cong) auto
  also have "sort_key fst ((u, v) # its') = (u, v) # sort_key fst its'"
    using assms(2) by (simp add: insort_is_Cons less_imp_le)
  then have "fifo_of ((u, v) # its') = (uk_key u, v) # fifo_of its'"
    by (simp add: fifo_of_def)
  finally show ?thesis .
qed

section \<open>Sequences of operations\<close>

datatype ('k, 'v) queue_op = Insert 'k 'v | Pull | Peek

definition hd_opt :: "'a list \<Rightarrow> 'a option" where
  "hd_opt xs = (case xs of [] \<Rightarrow> None | x # _ \<Rightarrow> Some x)"

text \<open>The results of the pulls and peeks, and the final contents.\<close>

fun fifo_run ::
    "('k::linorder, 'v) queue_op list \<Rightarrow> ('k \<times> 'v) list \<Rightarrow> ('k \<times> 'v) option list \<times> ('k \<times> 'v) list" where
  "fifo_run [] xs = ([], xs)"
| "fifo_run (Insert k v # ops) xs = fifo_run ops (fifo_insert k v xs)"
| "fifo_run (Pull # ops) xs = (let (outs, ys) = fifo_run ops (tl xs) in (hd_opt xs # outs, ys))"
| "fifo_run (Peek # ops) xs = (let (outs, ys) = fifo_run ops xs in (hd_opt xs # outs, ys))"

fun count_inserts :: "('k, 'v) queue_op list \<Rightarrow> nat" where
  "count_inserts [] = 0"
| "count_inserts (Insert k v # ops) = Suc (count_inserts ops)"
| "count_inserts (_ # ops) = count_inserts ops"

fun run_ops ::
    "('k \<Rightarrow> 'v \<Rightarrow> 'q \<Rightarrow> 'q option) \<Rightarrow> ('q \<Rightarrow> (('k \<times> 'v) option \<times> 'q) option) \<Rightarrow>
     ('q \<Rightarrow> ('k \<times> 'v) option option) \<Rightarrow> ('k, 'v) queue_op list \<Rightarrow> 'q \<Rightarrow>
     (('k \<times> 'v) option list \<times> 'q) option" where
  "run_ops ins pull peek [] q = Some ([], q)"
| "run_ops ins pull peek (Insert k v # ops) q =
     do { q \<leftarrow> ins k v q; run_ops ins pull peek ops q }"
| "run_ops ins pull peek (Pull # ops) q =
     do { (r, q) \<leftarrow> pull q; (rs, q) \<leftarrow> run_ops ins pull peek ops q; Some (r # rs, q) }"
| "run_ops ins pull peek (Peek # ops) q =
     do { r \<leftarrow> peek q; (rs, q) \<leftarrow> run_ops ins pull peek ops q; Some (r # rs, q) }"

lemma fifo_run_inserts:
  "fifo_run (map (\<lambda>(k, v). Insert k v) kvs @ ops) xs = fifo_run ops (fifo_insert_all kvs xs)"
  by (induction kvs arbitrary: xs) (auto simp: fifo_insert_all_def)

lemma fifo_run_pulls:
  "fifo_run (replicate (length xs) Pull) xs = (map Some xs, [])"
  by (induction xs) (simp_all add: hd_opt_def)

lemma count_inserts_inserts:
  "count_inserts (map (\<lambda>(k, v). Insert k v) kvs @ replicate n Pull) = length kvs"
proof (induction kvs)
  case Nil
  then show ?case by (induction n) auto
qed auto

text \<open>Filling an empty queue and draining it sorts the pairs by key, stably.\<close>

lemma fifo_run_sorts:
  "fifo_run (map (\<lambda>(k, v). Insert k v) kvs @ replicate (length kvs) Pull) [] =
     (map Some (sort_key fst kvs), [])"
  using fifo_run_pulls [of "sort_key fst kvs"]
  by (simp add: fifo_run_inserts fifo_insert_all_sort)

section \<open>The contract of a first-in first-out priority queue\<close>

text \<open>
  \<open>contents\<close> lists what the queue holds in the order it will be pulled; \<open>epoch\<close> is the
  64-bit insertion counter, which makes \<open>insert_op\<close> panic once it reaches \<^verbatim>\<open>u64::MAX\<close>.
\<close>

locale fifo_queue =
  fixes empty_q :: "'q"
    and insert_op :: "'k::linorder \<Rightarrow> 'v \<Rightarrow> 'q \<Rightarrow> 'q option"
    and pull_op :: "'q \<Rightarrow> (('k \<times> 'v) option \<times> 'q) option"
    and peek_op :: "'q \<Rightarrow> ('k \<times> 'v) option option"
    and invar :: "'q \<Rightarrow> bool"
    and contents :: "'q \<Rightarrow> ('k \<times> 'v) list"
    and epoch :: "'q \<Rightarrow> u64"
  assumes empty_law: "invar empty_q" "contents empty_q = []" "epoch empty_q = 0"
    and insert_law: "invar q \<Longrightarrow> epoch q \<noteq> - 1 \<Longrightarrow>
          \<exists>q'. insert_op k v q = Some q' \<and> invar q' \<and>
            contents q' = fifo_insert k v (contents q) \<and> epoch q' = epoch q + 1"
    and insert_panic_law: "epoch q = - 1 \<Longrightarrow> insert_op k v q = None"
    and pull_law: "invar q \<Longrightarrow>
          \<exists>q'. pull_op q = Some (case contents q of [] \<Rightarrow> None | p # _ \<Rightarrow> Some p, q') \<and>
            invar q' \<and> contents q' = tl (contents q) \<and> epoch q' = epoch q"
    and peek_law: "invar q \<Longrightarrow>
          peek_op q = Some (case contents q of [] \<Rightarrow> None | p # _ \<Rightarrow> Some p)"
begin

text \<open>Every sequence of operations behaves as on the list, unless it exhausts the epochs.\<close>

lemma run_ops_law:
  "invar q \<Longrightarrow> unat (epoch q) + count_inserts ops < 2 ^ 64 \<Longrightarrow>
     \<exists>q'. run_ops insert_op pull_op peek_op ops q = Some (fst (fifo_run ops (contents q)), q') \<and>
       invar q' \<and> contents q' = snd (fifo_run ops (contents q)) \<and>
       unat (epoch q') = unat (epoch q) + count_inserts ops"
proof (induction ops arbitrary: q)
  case Nil
  then show ?case by simp
next
  case (Cons op ops)
  show ?case
  proof (cases op)
    case (Insert k v)
    have "unat (epoch q) < 2 ^ 64 - 1" using Cons.prems Insert by simp
    moreover have "unat (- 1 :: u64) = 2 ^ 64 - 1" by (simp add: unat_max)
    ultimately have ne: "epoch q \<noteq> - 1" by (metis less_irrefl)
    from insert_law [OF Cons.prems(1) ne, of k v] obtain q1 where
      q1: "insert_op k v q = Some q1" "invar q1" "contents q1 = fifo_insert k v (contents q)"
        "epoch q1 = epoch q + 1"
      by blast
    have e1: "unat (epoch q1) = Suc (unat (epoch q))" using q1(4) unat_plus_one [OF ne] by simp
    from Cons.IH [OF q1(2)] e1 Cons.prems Insert obtain q' where
      "run_ops insert_op pull_op peek_op ops q1 = Some (fst (fifo_run ops (contents q1)), q')"
      "invar q'" "contents q' = snd (fifo_run ops (contents q1))"
      "unat (epoch q') = unat (epoch q1) + count_inserts ops"
      by auto
    with q1 e1 Insert show ?thesis by auto
  next
    case Pull
    from pull_law [OF Cons.prems(1)] obtain q1 where
      q1: "pull_op q = Some (hd_opt (contents q), q1)" "invar q1" "contents q1 = tl (contents q)"
        "epoch q1 = epoch q"
      by (auto simp: hd_opt_def)
    from Cons.IH [OF q1(2)] Cons.prems Pull q1(4) obtain q' where
      "run_ops insert_op pull_op peek_op ops q1 = Some (fst (fifo_run ops (contents q1)), q')"
      "invar q'" "contents q' = snd (fifo_run ops (contents q1))"
      "unat (epoch q') = unat (epoch q) + count_inserts ops"
      by auto
    with q1 Pull show ?thesis by (simp add: case_prod_beta)
  next
    case Peek
    with Cons.IH [OF Cons.prems(1)] Cons.prems peek_law [OF Cons.prems(1)] show ?thesis
      by (auto simp: hd_opt_def case_prod_beta)
  qed
qed

lemma run_ops_empty:
  "count_inserts ops < 2 ^ 64 \<Longrightarrow>
     \<exists>q'. run_ops insert_op pull_op peek_op ops empty_q = Some (fst (fifo_run ops []), q') \<and>
       invar q' \<and> contents q' = snd (fifo_run ops [])"
  using run_ops_law [OF empty_law(1), of ops] by (auto simp: empty_law)

lemma peek_pull:
  "invar q \<Longrightarrow> \<exists>q' r. peek_op q = Some r \<and> pull_op q = Some (r, q')"
  using peek_law pull_law by blast

end

end
