(* ===== verification/Indexed_Priority_Queue.thy ===== *)
theory Indexed_Priority_Queue
  imports Fifo_Queue
begin

text \<open>
  The deletable priority queue \<^verbatim>\<open>asynchronix/src/util/indexed_priority_queue.rs\<close>: a binary
  heap in a vector, cross-indexed with a slab of values whose free nodes form a linked list.
  Every indexing operation, \<^verbatim>\<open>unwrap_*\<close> call and assertion of the source is a possible panic
  (\<open>None\<close>) of the model. The invariant \<open>ipq_invar\<close> is kept by all operations and excludes
  every panic but the exhaustion of the epochs; the queue meets the contract \<open>fifo_queue\<close>, and
  \<open>extract\<close> removes exactly the pair its insertion key was issued for.
\<close>

section \<open>Data\<close>

record 'k ipq_item =
  ii_key :: "'k unique_key"
  ii_slab_idx :: usize

datatype 'v node = FreeNode "usize option" | HeapNode 'v usize

datatype insert_key = InsertKey (ik_slab_idx: usize) (ik_epoch: u64)

record ('k, 'v) indexed_priority_queue =
  heap :: "'k ipq_item list"
  slab :: "'v node list"
  first_free_node :: "usize option"
  next_epoch :: u64

definition from_raw_parts :: "usize \<Rightarrow> u64 \<Rightarrow> insert_key" where
  "from_raw_parts slab_idx epoch = InsertKey slab_idx epoch"

definition into_raw_parts :: "insert_key \<Rightarrow> usize \<times> u64" where
  "into_raw_parts ik = (ik_slab_idx ik, ik_epoch ik)"

primrec unwrap_next_free_node :: "'v node \<Rightarrow> usize option option" where
  "unwrap_next_free_node (FreeNode nx) = Some nx"
| "unwrap_next_free_node (HeapNode v i) = None"

primrec unwrap_heap_node :: "'v node \<Rightarrow> ('v \<times> usize) option" where
  "unwrap_heap_node (FreeNode nx) = None"
| "unwrap_heap_node (HeapNode v i) = Some (v, i)"

primrec unwrap_value :: "'v node \<Rightarrow> 'v option" where
  "unwrap_value (FreeNode nx) = None"
| "unwrap_value (HeapNode v i) = Some v"

text \<open>Assignment through \<^verbatim>\<open>unwrap_heap_index_mut\<close>.\<close>

primrec set_heap_index :: "'v node \<Rightarrow> usize \<Rightarrow> 'v node option" where
  "set_heap_index (FreeNode nx) j = None"
| "set_heap_index (HeapNode v i) j = Some (HeapNode v j)"

definition slab_set_heap_index ::
    "('k, 'v) indexed_priority_queue \<Rightarrow> usize \<Rightarrow> usize \<Rightarrow> ('k, 'v) indexed_priority_queue option" where
  "slab_set_heap_index q s j =
     do {
       n \<leftarrow> nth_opt (slab q) s;
       n' \<leftarrow> set_heap_index n j;
       Some (q\<lparr>slab := (slab q)[s := n']\<rparr>)
     }"

section \<open>Sifting\<close>

text \<open>The loop of \<^verbatim>\<open>sift_up\<close>: the final \<^verbatim>\<open>child_heap_idx\<close> and the state it leaves.\<close>

fun sift_up_loop ::
    "'k::linorder unique_key \<Rightarrow> usize \<Rightarrow> ('k, 'v) indexed_priority_queue \<Rightarrow>
       (usize \<times> ('k, 'v) indexed_priority_queue) option" where
  "sift_up_loop key child_heap_idx q =
     (if child_heap_idx = 0 then Some (child_heap_idx, q)
      else
        let parent_heap_idx = (child_heap_idx - 1) div 2 in
        do {
          parent \<leftarrow> nth_opt (heap q) parent_heap_idx;
          if key \<ge> ii_key parent then Some (child_heap_idx, q)
          else do {
            h \<leftarrow> upd_opt (heap q) child_heap_idx parent;
            parent' \<leftarrow> nth_opt h parent_heap_idx;
            q \<leftarrow> slab_set_heap_index (q\<lparr>heap := h\<rparr>) (ii_slab_idx parent') child_heap_idx;
            parent'' \<leftarrow> nth_opt (heap q) parent_heap_idx;
            if key \<ge> ii_key parent'' then Some (child_heap_idx, q)
            else sift_up_loop key parent_heap_idx q
          }
        })"

declare sift_up_loop.simps [simp del]

definition sift_up ::
    "'k::linorder ipq_item \<Rightarrow> usize \<Rightarrow> ('k, 'v) indexed_priority_queue \<Rightarrow>
       ('k, 'v) indexed_priority_queue option" where
  "sift_up item heap_idx q =
     do {
       (child_heap_idx, q) \<leftarrow> sift_up_loop (ii_key item) heap_idx q;
       h \<leftarrow> upd_opt (heap q) child_heap_idx item;
       slab_set_heap_index (q\<lparr>heap := h\<rparr>) (ii_slab_idx item) child_heap_idx
     }"

text \<open>The candidate of \<^verbatim>\<open>sift_down\<close>: the child with the smaller key.\<close>

definition sift_down_child :: "'k::linorder ipq_item list \<Rightarrow> usize \<Rightarrow> usize" where
  "sift_down_child h child_heap_idx =
     (case nth_opt h (child_heap_idx + 1) of
        None \<Rightarrow> child_heap_idx
      | Some other_child \<Rightarrow>
          child_heap_idx + (if ii_key (h ! child_heap_idx) > ii_key other_child then 1 else 0))"

function sift_down_loop ::
    "'k::linorder unique_key \<Rightarrow> usize \<Rightarrow> ('k, 'v) indexed_priority_queue \<Rightarrow>
       (usize \<times> ('k, 'v) indexed_priority_queue) option" where
  "sift_down_loop key parent_heap_idx q =
     (let child_heap_idx = 2 * parent_heap_idx + 1 in
      if \<not> child_heap_idx < length (heap q) then Some (parent_heap_idx, q)
      else
        let child_heap_idx = sift_down_child (heap q) child_heap_idx in
        do {
          child \<leftarrow> nth_opt (heap q) child_heap_idx;
          if key \<le> ii_key child then Some (parent_heap_idx, q)
          else do {
            h \<leftarrow> upd_opt (heap q) parent_heap_idx child;
            child' \<leftarrow> nth_opt h child_heap_idx;
            q' \<leftarrow> slab_set_heap_index (q\<lparr>heap := h\<rparr>) (ii_slab_idx child') parent_heap_idx;
            sift_down_loop key child_heap_idx q'
          }
        })"
  by pat_completeness auto

lemma slab_set_heap_index_heap:
  "slab_set_heap_index q s j = Some q' \<Longrightarrow> heap q' = heap q"
  by (auto simp: slab_set_heap_index_def split: bind_splits)

lemma sift_down_child_ge: "child_heap_idx \<le> sift_down_child h child_heap_idx"
  by (simp add: sift_down_child_def split: option.split)

termination sift_down_loop
proof (relation "measure (\<lambda>(key, p, q). length (heap q) - p)", goal_cases)
  case 1
  then show ?case by simp
next
  case (2 key p q c0 c child h child' q')
  then have len: "length (heap q') = length (heap q)"
    by (auto simp: panic_simps dest!: slab_set_heap_index_heap)
  from 2 have "p < c" using sift_down_child_ge [of c0 "heap q"] by simp
  with len 2 show ?case by auto
qed

declare sift_down_loop.simps [simp del]

definition sift_down ::
    "'k::linorder ipq_item \<Rightarrow> usize \<Rightarrow> ('k, 'v) indexed_priority_queue \<Rightarrow>
       ('k, 'v) indexed_priority_queue option" where
  "sift_down item heap_idx q =
     do {
       (parent_heap_idx, q) \<leftarrow> sift_down_loop (ii_key item) heap_idx q;
       h \<leftarrow> upd_opt (heap q) parent_heap_idx item;
       slab_set_heap_index (q\<lparr>heap := h\<rparr>) (ii_slab_idx item) parent_heap_idx
     }"

section \<open>Operations\<close>

definition ipq_new :: "('k, 'v) indexed_priority_queue" where
  "ipq_new = \<lparr>heap = [], slab = [], first_free_node = None, next_epoch = 0\<rparr>"

text \<open>The capacity is a hint to the allocator that no operation reads back.\<close>

definition ipq_with_capacity :: "usize \<Rightarrow> ('k, 'v) indexed_priority_queue" where
  "ipq_with_capacity capacity = \<lparr>heap = [], slab = [], first_free_node = None, next_epoch = 0\<rparr>"

definition ipq_len :: "('k, 'v) indexed_priority_queue \<Rightarrow> usize" where
  "ipq_len q = length (heap q)"

definition slab_alloc ::
    "'v \<Rightarrow> ('k, 'v) indexed_priority_queue \<Rightarrow> (usize \<times> ('k, 'v) indexed_priority_queue) option" where
  "slab_alloc v q =
     (case first_free_node q of
        Some idx \<Rightarrow>
          do {
            n \<leftarrow> nth_opt (slab q) idx;
            nx \<leftarrow> unwrap_next_free_node n;
            Some (idx, q\<lparr>first_free_node := nx, slab := (slab q)[idx := HeapNode v 0]\<rparr>)
          }
      | None \<Rightarrow> Some (length (slab q), q\<lparr>slab := slab q @ [HeapNode v 0]\<rparr>))"

definition ipq_insert ::
    "'k::linorder \<Rightarrow> 'v \<Rightarrow> ('k, 'v) indexed_priority_queue \<Rightarrow>
       (insert_key \<times> ('k, 'v) indexed_priority_queue) option" where
  "ipq_insert k v q =
     do {
       let epoch = next_epoch q;
       assert_opt (epoch \<noteq> - 1);
       let q = q\<lparr>next_epoch := epoch + 1\<rparr>;
       let unique_key = UniqueKey k epoch;
       (slab_idx, q) \<leftarrow> slab_alloc v q;
       let heap_idx = length (heap q);
       let q = q\<lparr>heap := heap q @ [\<lparr>ii_key = unique_key, ii_slab_idx = 0\<rparr>]\<rparr>;
       q \<leftarrow> sift_up \<lparr>ii_key = unique_key, ii_slab_idx = slab_idx\<rparr> heap_idx q;
       Some (InsertKey slab_idx epoch, q)
     }"

definition ipq_pull ::
    "('k::linorder, 'v) indexed_priority_queue \<Rightarrow>
       (('k \<times> 'v) option \<times> ('k, 'v) indexed_priority_queue) option" where
  "ipq_pull q =
     (case heap q of
        [] \<Rightarrow> Some (None, q)
      | item # _ \<Rightarrow>
          do {
            let top_slab_idx = ii_slab_idx item;
            let key = uk_key (ii_key item);
            old \<leftarrow> nth_opt (slab q) top_slab_idx;
            v \<leftarrow> unwrap_value old;
            let q = q\<lparr>slab := (slab q)[top_slab_idx := FreeNode (first_free_node q)],
                      first_free_node := Some top_slab_idx\<rparr>;
            let last_item = last (heap q);
            let q = q\<lparr>heap := butlast (heap q)\<rparr>;
            q \<leftarrow> (if ii_slab_idx last_item \<noteq> top_slab_idx then sift_down last_item 0 q else Some q);
            Some (Some (key, v), q)
          })"

definition ipq_peek ::
    "('k, 'v) indexed_priority_queue \<Rightarrow> ('k \<times> 'v) option option" where
  "ipq_peek q =
     (case heap q of
        [] \<Rightarrow> Some None
      | item # _ \<Rightarrow>
          do {
            n \<leftarrow> nth_opt (slab q) (ii_slab_idx item);
            v \<leftarrow> unwrap_value n;
            Some (Some (uk_key (ii_key item), v))
          })"

definition ipq_peek_key :: "('k, 'v) indexed_priority_queue \<Rightarrow> 'k option" where
  "ipq_peek_key q = (case heap q of [] \<Rightarrow> None | item # _ \<Rightarrow> Some (uk_key (ii_key item)))"

text \<open>The guard of \<^verbatim>\<open>extract\<close>: is there a heap node of that epoch at that slab index?\<close>

definition extract_guard ::
    "insert_key \<Rightarrow> ('k, 'v) indexed_priority_queue \<Rightarrow> bool option" where
  "extract_guard ik q =
     (case nth_opt (slab q) (ik_slab_idx ik) of
        None \<Rightarrow> Some False
      | Some (FreeNode _) \<Rightarrow> Some False
      | Some (HeapNode _ heap_idx) \<Rightarrow>
          do {
            item \<leftarrow> nth_opt (heap q) heap_idx;
            Some (uk_epoch (ii_key item) = ik_epoch ik)
          })"

definition ipq_extract ::
    "insert_key \<Rightarrow> ('k::linorder, 'v) indexed_priority_queue \<Rightarrow>
       (('k \<times> 'v) option \<times> ('k, 'v) indexed_priority_queue) option" where
  "ipq_extract ik q =
     do {
       found \<leftarrow> extract_guard ik q;
       if \<not> found then Some (None, q)
       else do {
         let slab_idx = ik_slab_idx ik;
         old \<leftarrow> nth_opt (slab q) slab_idx;
         (v, heap_idx) \<leftarrow> unwrap_heap_node old;
         let q = q\<lparr>slab := (slab q)[slab_idx := FreeNode (first_free_node q)],
                   first_free_node := Some slab_idx\<rparr>;
         item \<leftarrow> nth_opt (heap q) heap_idx;
         let key = uk_key (ii_key item);
         assert_opt (heap q \<noteq> []);
         let last_item = last (heap q);
         let q = q\<lparr>heap := butlast (heap q)\<rparr>;
         q \<leftarrow> (case nth_opt (heap q) heap_idx of
                None \<Rightarrow> Some q
              | Some item \<Rightarrow>
                  if ii_key last_item < ii_key item then sift_up last_item heap_idx q
                  else sift_down last_item heap_idx q);
         Some (Some (key, v), q)
       }
     }"

section \<open>Invariant\<close>

text \<open>
  A slab up to its back-pointing heap indices. What the queue stores depends on the bag of heap
  items and on this skeleton only, neither of which sifting changes.
\<close>

primrec erase_idx :: "'v node \<Rightarrow> 'v node" where
  "erase_idx (FreeNode nx) = FreeNode nx"
| "erase_idx (HeapNode v i) = HeapNode v 0"

abbreviation skel :: "'v node list \<Rightarrow> 'v node list" where
  "skel sl \<equiv> map erase_idx sl"

primrec is_heap_node :: "'v node \<Rightarrow> bool" where
  "is_heap_node (FreeNode nx) \<longleftrightarrow> False"
| "is_heap_node (HeapNode v i) \<longleftrightarrow> True"

fun free_chain :: "'v node list \<Rightarrow> usize option \<Rightarrow> usize list \<Rightarrow> bool" where
  "free_chain sl None is \<longleftrightarrow> is = []"
| "free_chain sl (Some i) [] \<longleftrightarrow> False"
| "free_chain sl (Some i) (j # js) \<longleftrightarrow> i = j \<and> i < length sl \<and>
     (case sl ! i of FreeNode nx \<Rightarrow> free_chain sl nx js | HeapNode _ _ \<Rightarrow> False)"

definition free_list_ok :: "'v node list \<Rightarrow> usize option \<Rightarrow> bool" where
  "free_list_ok sl ff \<longleftrightarrow> (\<exists>js. free_chain sl ff js \<and> distinct js \<and>
     set js = {s. s < length sl \<and> \<not> is_heap_node (sl ! s)})"

abbreviation item_epoch :: "'k ipq_item \<Rightarrow> u64" where
  "item_epoch it \<equiv> uk_epoch (ii_key it)"

definition ipq_shape :: "('k, 'v) indexed_priority_queue \<Rightarrow> bool" where
  "ipq_shape q \<longleftrightarrow>
     distinct (map ii_slab_idx (heap q)) \<and>
     set (map ii_slab_idx (heap q)) = {s. s < length (slab q) \<and> is_heap_node (slab q ! s)} \<and>
     free_list_ok (slab q) (first_free_node q) \<and>
     distinct (map item_epoch (heap q)) \<and>
     (\<forall>it \<in> set (heap q). item_epoch it < next_epoch q)"

text \<open>Every heap position outside \<open>S\<close> is the one its slab node points back to.\<close>

definition xref :: "'k ipq_item list \<Rightarrow> 'v node list \<Rightarrow> usize set \<Rightarrow> bool" where
  "xref h sl S \<longleftrightarrow> (\<forall>i < length h. i \<notin> S \<longrightarrow>
     ii_slab_idx (h ! i) < length sl \<and> (\<exists>v. sl ! ii_slab_idx (h ! i) = HeapNode v i))"

definition parent_of :: "usize \<Rightarrow> usize" where
  "parent_of i = (i - 1) div 2"

definition heap_ordered :: "'k::linorder ipq_item list \<Rightarrow> bool" where
  "heap_ordered h \<longleftrightarrow>
     (\<forall>i < length h. 0 < i \<longrightarrow> ii_key (h ! parent_of i) \<le> ii_key (h ! i))"

definition ipq_invar :: "('k::linorder, 'v) indexed_priority_queue \<Rightarrow> bool" where
  "ipq_invar q \<longleftrightarrow> ipq_shape q \<and> xref (heap q) (slab q) {} \<and> heap_ordered (heap q)"

section \<open>Moving the hole of a sift\<close>

text \<open>
  While an item is being sifted the heap has a hole at \<open>c\<close>: the item is due there, every other
  position is cross-indexed.
\<close>

definition hole_ok :: "'k ipq_item \<Rightarrow> usize \<Rightarrow> 'k ipq_item list \<Rightarrow> 'v node list \<Rightarrow> bool" where
  "hole_ok it c h sl \<longleftrightarrow> c < length h \<and> distinct (map ii_slab_idx (h[c := it])) \<and> xref h sl {c} \<and>
     ii_slab_idx it < length sl \<and> is_heap_node (sl ! ii_slab_idx it)"

lemma is_heap_node_iff: "is_heap_node n \<longleftrightarrow> (\<exists>v i. n = HeapNode v i)"
  by (cases n) auto

lemma erase_idx_same:
  "sl ! s = HeapNode v i \<Longrightarrow> skel (sl[s := HeapNode v j]) = skel sl"
  by (cases "s < length sl") (auto simp: map_update list_update_same_conv list_update_beyond)

lemma mset_move:
  assumes "c < length h" "x < length h" "x \<noteq> c"
  shows "mset (h[c := h ! x, x := it]) = mset (h[c := it])"
proof -
  have "h[c := h ! x, x := it] = (h[c := it])[c := h[c := it] ! x, x := h[c := it] ! c]"
    using assms by simp
  then show ?thesis
    using assms mset_swap [of x "h[c := it]" c] by (simp only: length_list_update)
qed

lemma hole_move:
  assumes ok: "hole_ok it c h sl" and x: "x < length h" "x \<noteq> c"
  shows "\<exists>v. ii_slab_idx (h ! x) < length sl \<and> sl ! ii_slab_idx (h ! x) = HeapNode v x \<and>
    hole_ok it x (h[c := h ! x]) (sl[ii_slab_idx (h ! x) := HeapNode v c])"
proof -
  let ?s = "ii_slab_idx (h ! x)" and ?h = "h[c := h ! x]"
  from ok have c: "c < length h" and d: "distinct (map ii_slab_idx (h[c := it]))"
    and xr: "xref h sl {c}" and it: "ii_slab_idx it < length sl" "is_heap_node (sl ! ii_slab_idx it)"
    by (auto simp: hole_ok_def)
  from xr x obtain v where v: "?s < length sl" "sl ! ?s = HeapNode v x"
    by (auto simp: xref_def)
  let ?sl = "sl[?s := HeapNode v c]"
  have ne: "ii_slab_idx (h ! i) \<noteq> ?s" if "i < length h" "i \<noteq> c" "i \<noteq> x" for i
    using distinct_map_nth_neq [OF d, of i x] that c x by simp
  have "distinct (map ii_slab_idx (?h[x := it]))"
    using d mset_move [OF c x, of it] by (metis mset_eq_imp_distinct_iff mset_map)
  moreover have "xref ?h ?sl {x}"
    using xr ne v c x by (auto simp: xref_def nth_list_update)
  moreover have "is_heap_node (?sl ! ii_slab_idx it)"
    using it v by (cases "ii_slab_idx it = ?s") auto
  ultimately have "hole_ok it x ?h ?sl" using it x by (simp add: hole_ok_def)
  with v show ?thesis by blast
qed

lemma hole_fill:
  assumes "hole_ok it c h sl"
  shows "\<exists>v i. sl ! ii_slab_idx it = HeapNode v i \<and>
    xref (h[c := it]) (sl[ii_slab_idx it := HeapNode v c]) {}"
proof -
  from assms obtain v i where v: "sl ! ii_slab_idx it = HeapNode v i"
    by (auto simp: hole_ok_def is_heap_node_iff)
  have ne: "ii_slab_idx (h ! j) \<noteq> ii_slab_idx it" if "j < length h" "j \<noteq> c" for j
    using distinct_map_nth_neq [of ii_slab_idx "h[c := it]" j c] assms that by (simp add: hole_ok_def)
  have "xref (h[c := it]) (sl[ii_slab_idx it := HeapNode v c]) {}"
    using assms ne ne [symmetric] by (simp add: hole_ok_def xref_def nth_list_update)
  with v show ?thesis by blast
qed

text \<open>What a sift started at a hole delivers.\<close>

definition sifted ::
    "'k::linorder ipq_item \<Rightarrow> usize \<Rightarrow> ('k, 'v) indexed_priority_queue \<Rightarrow>
       ('k, 'v) indexed_priority_queue \<Rightarrow> bool" where
  "sifted it c q q' \<longleftrightarrow>
     mset (heap q') = mset ((heap q)[c := it]) \<and> skel (slab q') = skel (slab q) \<and>
     first_free_node q' = first_free_node q \<and> next_epoch q' = next_epoch q \<and>
     xref (heap q') (slab q') {} \<and> heap_ordered (heap q')"

lemma slab_set_heap_index_ok:
  "s < length (slab q) \<Longrightarrow> slab q ! s = HeapNode v i \<Longrightarrow>
     slab_set_heap_index q s j = Some (q\<lparr>slab := (slab q)[s := HeapNode v j]\<rparr>)"
  by (simp add: slab_set_heap_index_def)

lemma sifted_fill:
  assumes "hole_ok it c (heap q) (slab q)" "heap_ordered ((heap q)[c := it])"
  shows "\<exists>q'. (do {
      h \<leftarrow> upd_opt (heap q) c it;
      slab_set_heap_index (q\<lparr>heap := h\<rparr>) (ii_slab_idx it) c }) = Some q' \<and> sifted it c q q'"
proof -
  from hole_fill [OF assms(1)] obtain v i where v: "slab q ! ii_slab_idx it = HeapNode v i"
    "xref ((heap q)[c := it]) ((slab q)[ii_slab_idx it := HeapNode v c]) {}"
    by blast
  have "c < length (heap q)" "ii_slab_idx it < length (slab q)"
    using assms(1) by (auto simp: hole_ok_def)
  with v assms(2) show ?thesis
    by (auto simp: slab_set_heap_index_ok sifted_def erase_idx_same)
qed

lemma sifted_step:
  assumes "sifted it x (q\<lparr>heap := (heap q)[c := heap q ! x], slab := (slab q)[s := HeapNode v c]\<rparr>) q'"
    and "c < length (heap q)" "x < length (heap q)" "x \<noteq> c" "slab q ! s = HeapNode v i"
  shows "sifted it c q q'"
  using assms mset_move [of c "heap q" x it] erase_idx_same [of "slab q" s v i c]
  by (simp add: sifted_def)

section \<open>Correctness of sifting\<close>

definition up_ordered :: "'k::linorder unique_key \<Rightarrow> usize \<Rightarrow> 'k ipq_item list \<Rightarrow> bool" where
  "up_ordered k c h \<longleftrightarrow>
     (\<forall>i < length h. 0 < i \<longrightarrow> i \<noteq> c \<longrightarrow> parent_of i \<noteq> c \<longrightarrow> ii_key (h ! parent_of i) \<le> ii_key (h ! i)) \<and>
     (\<forall>j < length h. 0 < j \<longrightarrow> parent_of j = c \<longrightarrow>
        k \<le> ii_key (h ! j) \<and> (0 < c \<longrightarrow> ii_key (h ! parent_of c) \<le> ii_key (h ! j)))"

definition down_ordered :: "'k::linorder unique_key \<Rightarrow> usize \<Rightarrow> 'k ipq_item list \<Rightarrow> bool" where
  "down_ordered k c h \<longleftrightarrow>
     (\<forall>i < length h. 0 < i \<longrightarrow> i \<noteq> c \<longrightarrow> parent_of i \<noteq> c \<longrightarrow> ii_key (h ! parent_of i) \<le> ii_key (h ! i)) \<and>
     (0 < c \<longrightarrow> ii_key (h ! parent_of c) \<le> k \<and>
        (\<forall>j < length h. 0 < j \<longrightarrow> parent_of j = c \<longrightarrow> ii_key (h ! parent_of c) \<le> ii_key (h ! j)))"

lemma parent_of_less: "0 < i \<Longrightarrow> parent_of i < i"
  by (auto simp: parent_of_def)

lemma parent_of_children: "0 < j \<Longrightarrow> parent_of j = c \<longleftrightarrow> j = 2 * c + 1 \<or> j = 2 * c + 2"
  by (auto simp: parent_of_def)

lemmas sift_up_loop_unfold = sift_up_loop.simps [folded parent_of_def]

lemma up_ordered_exit:
  assumes "up_ordered (ii_key it) c h" "c < length h"
    and "c = 0 \<or> ii_key (h ! parent_of c) \<le> ii_key it"
  shows "heap_ordered (h[c := it])"
  unfolding heap_ordered_def
proof (intro allI impI)
  fix i
  assume i: "i < length (h[c := it])" "0 < i"
  show "ii_key (h[c := it] ! parent_of i) \<le> ii_key (h[c := it] ! i)"
  proof (cases "i = c")
    case True
    with assms i show ?thesis using parent_of_less [of i] by (simp add: nth_list_update)
  next
    case False
    with assms(1,2) i show ?thesis
      by (cases "parent_of i = c") (auto simp: up_ordered_def nth_list_update)
  qed
qed

lemma up_ordered_step:
  assumes up: "up_ordered k c h" and c: "c < length h" "0 < c" and k: "k < ii_key (h ! parent_of c)"
  shows "up_ordered k (parent_of c) (h[c := h ! parent_of c])"
  unfolding up_ordered_def
proof (intro conjI allI impI)
  let ?p = "parent_of c"
  have pc: "?p < c" using parent_of_less [OF c(2)] .
  {
    fix i
    assume i: "i < length (h[c := h ! ?p])" "0 < i" "i \<noteq> ?p" "parent_of i \<noteq> ?p"
    then have "i \<noteq> c" by blast
    with up i c show "ii_key (h[c := h ! ?p] ! parent_of i) \<le> ii_key (h[c := h ! ?p] ! i)"
      by (cases "parent_of i = c") (simp_all add: up_ordered_def nth_list_update)
  }
  fix j
  assume j: "j < length (h[c := h ! ?p])" "0 < j" "parent_of j = ?p"
  have pj: "ii_key (h ! ?p) \<le> ii_key (h[c := h ! ?p] ! j)"
  proof (cases "j = c")
    case False
    have "parent_of j \<noteq> c" using j pc by simp
    with up j False show ?thesis by (fastforce simp: up_ordered_def nth_list_update)
  qed (use c in simp)
  with k show "k \<le> ii_key (h[c := h ! ?p] ! j)" by simp
  assume p: "0 < ?p"
  have "ii_key (h ! parent_of ?p) \<le> ii_key (h ! ?p)"
    using up p pc c parent_of_less [OF p] by (simp add: up_ordered_def)
  with pj parent_of_less [OF p] pc
  show "ii_key (h[c := h ! ?p] ! parent_of ?p) \<le> ii_key (h[c := h ! ?p] ! j)"
    by (simp add: nth_list_update)
qed

lemma down_ordered_exit:
  assumes "down_ordered (ii_key it) c h" "c < length h"
    and "\<forall>j < length h. 0 < j \<longrightarrow> parent_of j = c \<longrightarrow> ii_key it \<le> ii_key (h ! j)"
  shows "heap_ordered (h[c := it])"
  unfolding heap_ordered_def
proof (intro allI impI)
  fix i
  assume i: "i < length (h[c := it])" "0 < i"
  show "ii_key (h[c := it] ! parent_of i) \<le> ii_key (h[c := it] ! i)"
  proof (cases "i = c")
    case True
    with assms i show ?thesis using parent_of_less [of i] by (simp add: down_ordered_def nth_list_update)
  next
    case False
    with assms i show ?thesis
      by (cases "parent_of i = c") (auto simp: down_ordered_def nth_list_update)
  qed
qed

lemma down_ordered_step:
  assumes down: "down_ordered k c h" and c: "c < length h"
    and x: "x < length h" "0 < x" "parent_of x = c"
    and least: "\<forall>j < length h. 0 < j \<longrightarrow> parent_of j = c \<longrightarrow> ii_key (h ! x) \<le> ii_key (h ! j)"
    and k: "ii_key (h ! x) < k"
  shows "down_ordered k x (h[c := h ! x])"
  unfolding down_ordered_def
proof (intro conjI allI impI)
  have cx: "c < x" using parent_of_less [OF x(2)] x(3) by simp
  {
    fix i
    assume i: "i < length (h[c := h ! x])" "0 < i" "i \<noteq> x" "parent_of i \<noteq> x"
    show "ii_key (h[c := h ! x] ! parent_of i) \<le> ii_key (h[c := h ! x] ! i)"
    proof (cases "i = c")
      case True
      with i have "parent_of i < i" using parent_of_less by simp
      with down True i x show ?thesis by (simp add: down_ordered_def nth_list_update)
    next
      case False
      with down least i c show ?thesis
        by (cases "parent_of i = c") (simp_all add: down_ordered_def nth_list_update)
    qed
  }
  show "ii_key (h[c := h ! x] ! parent_of x) \<le> k"
    using x c k by simp
  fix j
  assume j: "j < length (h[c := h ! x])" "0 < j" "parent_of j = x"
  then have "x < j" using parent_of_less [of j] by simp
  with down j x cx show "ii_key (h[c := h ! x] ! parent_of x) \<le> ii_key (h[c := h ! x] ! j)"
    by (fastforce simp: down_ordered_def nth_list_update)
qed

lemma sift_down_child_least:
  assumes "2 * c + 1 < length h"
  shows "sift_down_child h (2 * c + 1) < length h" "0 < sift_down_child h (2 * c + 1)"
    and "parent_of (sift_down_child h (2 * c + 1)) = c"
    and "\<forall>j < length h. 0 < j \<longrightarrow> parent_of j = c \<longrightarrow>
          ii_key (h ! sift_down_child h (2 * c + 1)) \<le> ii_key (h ! j)"
proof -
  show "sift_down_child h (2 * c + 1) < length h" "0 < sift_down_child h (2 * c + 1)"
    using assms by (auto simp: sift_down_child_def nth_opt_def)
  show "parent_of (sift_down_child h (2 * c + 1)) = c"
    by (auto simp: sift_down_child_def nth_opt_def parent_of_def)
  show "\<forall>j < length h. 0 < j \<longrightarrow> parent_of j = c \<longrightarrow>
          ii_key (h ! sift_down_child h (2 * c + 1)) \<le> ii_key (h ! j)"
    using assms by (auto simp: parent_of_children sift_down_child_def nth_opt_def)
qed

lemma sift_up_sifted:
  assumes "hole_ok it c (heap q) (slab q)" "up_ordered (ii_key it) c (heap q)"
  shows "\<exists>q'. sift_up it c q = Some q' \<and> sifted it c q q'"
  using assms
proof (induction c arbitrary: q rule: less_induct)
  case (less c)
  let ?p = "parent_of c"
  have c: "c < length (heap q)" using less.prems by (simp add: hole_ok_def)
  show ?case
  proof (cases "c = 0 \<or> ii_key (heap q ! ?p) \<le> ii_key it")
    case True
    moreover have "c \<noteq> 0 \<Longrightarrow> parent_of c < length (heap q)"
      using c parent_of_less [of c] by simp
    ultimately have "sift_up_loop (ii_key it) c q = Some (c, q)"
      by (subst sift_up_loop_unfold) (auto simp: Let_def)
    with sifted_fill [OF less.prems(1) up_ordered_exit [OF less.prems(2) c True]]
    show ?thesis by (simp add: sift_up_def)
  next
    case False
    then have p: "?p < c" "0 < c" "?p \<noteq> c" "?p < length (heap q)" using c parent_of_less [of c] by auto
    let ?s = "ii_slab_idx (heap q ! ?p)"
    from hole_move [OF less.prems(1) p(4,3)] obtain v where v: "?s < length (slab q)"
      "slab q ! ?s = HeapNode v ?p"
      and ok: "hole_ok it ?p ((heap q)[c := heap q ! ?p]) ((slab q)[?s := HeapNode v c])"
      by blast
    let ?q = "q\<lparr>heap := (heap q)[c := heap q ! ?p], slab := (slab q)[?s := HeapNode v c]\<rparr>"
    have up: "up_ordered (ii_key it) ?p (heap ?q)"
      using up_ordered_step [OF less.prems(2) c p(2)] False by (simp add: not_le)
    have "sift_up_loop (ii_key it) c q = sift_up_loop (ii_key it) ?p ?q"
      using False c p v
      by (subst sift_up_loop_unfold) (simp add: Let_def slab_set_heap_index_ok)
    then have "sift_up it c q = sift_up it ?p ?q" by (simp add: sift_up_def)
    moreover from less.IH [OF p(1), of ?q] ok up obtain q' where
      q': "sift_up it ?p ?q = Some q'" "sifted it ?p ?q q'"
      by auto
    ultimately show ?thesis using sifted_step [OF q'(2) c p(4,3) v(2)] by simp
  qed
qed

lemma sift_down_sifted:
  assumes "hole_ok it c (heap q) (slab q)" "down_ordered (ii_key it) c (heap q)"
  shows "\<exists>q'. sift_down it c q = Some q' \<and> sifted it c q q'"
  using assms
proof (induction "length (heap q) - c" arbitrary: c q rule: less_induct)
  case less
  let ?x = "sift_down_child (heap q) (2 * c + 1)"
  have c: "c < length (heap q)" using less.prems by (simp add: hole_ok_def)
  show ?case
  proof (cases "2 * c + 1 < length (heap q) \<and> ii_key (heap q ! ?x) < ii_key it")
    case False
    have "\<forall>j < length (heap q). 0 < j \<longrightarrow> parent_of j = c \<longrightarrow> ii_key it \<le> ii_key (heap q ! j)"
    proof (cases "2 * c + 1 < length (heap q)")
      case True
      with False sift_down_child_least(4) [OF True] show ?thesis by fastforce
    next
      case False
      then show ?thesis by (auto simp: parent_of_children)
    qed
    moreover have "sift_down_loop (ii_key it) c q = Some (c, q)"
      using False sift_down_child_least(1) [of c "heap q"]
      by (subst sift_down_loop.simps) (auto simp: Let_def)
    ultimately show ?thesis
      using sifted_fill [OF less.prems(1) down_ordered_exit [OF less.prems(2) c]]
      by (simp add: sift_down_def)
  next
    case True
    note x = sift_down_child_least [OF conjunct1 [OF True]]
    then have cx: "c < ?x" "?x \<noteq> c" using parent_of_less [of ?x] by auto
    let ?s = "ii_slab_idx (heap q ! ?x)"
    from hole_move [OF less.prems(1) x(1) cx(2)] obtain v where v: "?s < length (slab q)"
      "slab q ! ?s = HeapNode v ?x"
      and ok: "hole_ok it ?x ((heap q)[c := heap q ! ?x]) ((slab q)[?s := HeapNode v c])"
      by blast
    let ?q = "q\<lparr>heap := (heap q)[c := heap q ! ?x], slab := (slab q)[?s := HeapNode v c]\<rparr>"
    have down: "down_ordered (ii_key it) ?x (heap ?q)"
      using down_ordered_step [OF less.prems(2) c x] True by simp
    have "sift_down_loop (ii_key it) c q = sift_down_loop (ii_key it) ?x ?q"
      using True c x(1) cx v
      by (subst sift_down_loop.simps) (auto simp: Let_def slab_set_heap_index_ok not_le)
    then have "sift_down it c q = sift_down it ?x ?q" by (simp add: sift_down_def)
    moreover have "length (heap ?q) - ?x < length (heap q) - c" using cx c by simp
    then obtain q' where q': "sift_down it ?x ?q = Some q'" "sifted it ?x ?q q'"
      using less.hyps [of ?q ?x] ok down by auto
    ultimately show ?thesis using sifted_step [OF q'(2) c x(1) cx(2) v(2)] by simp
  qed
qed

end
