(* ===== verification/Indexed_Queue_Correct.thy ===== *)
theory Indexed_Queue_Correct
  imports Indexed_Priority_Queue
begin

text \<open>
  Correctness of the operations of \<open>Indexed_Priority_Queue\<close>: the invariant is preserved, no
  indexing or unwrapping panics, the queue is a first-in first-out priority queue, and the
  insertion keys address exactly the pairs that are still in the queue.
\<close>

section \<open>What a queue holds\<close>

text \<open>The stored triples: slab index, unique key and value.\<close>

definition ipq_records :: "('k, 'v) indexed_priority_queue \<Rightarrow> (usize \<times> 'k unique_key \<times> 'v) list" where
  "ipq_records q =
     map (\<lambda>it. (ii_slab_idx it, ii_key it, the (unwrap_value (slab q ! ii_slab_idx it)))) (heap q)"

definition ipq_entries :: "('k, 'v) indexed_priority_queue \<Rightarrow> ('k unique_key \<times> 'v) list" where
  "ipq_entries q = map snd (ipq_records q)"

definition ipq_contents :: "('k::linorder, 'v) indexed_priority_queue \<Rightarrow> ('k \<times> 'v) list" where
  "ipq_contents q = fifo_of (ipq_entries q)"

definition record_assoc :: "usize \<times> 'k unique_key \<times> 'v \<Rightarrow> insert_key \<times> 'k \<times> 'v" where
  "record_assoc r = (case r of (s, u, v) \<Rightarrow> (InsertKey s (uk_epoch u), uk_key u, v))"

text \<open>The pairs in the queue, addressed by the insertion keys issued for them.\<close>

definition ipq_live :: "('k, 'v) indexed_priority_queue \<Rightarrow> insert_key \<Rightarrow> ('k \<times> 'v) option" where
  "ipq_live q = map_of (map record_assoc (ipq_records q))"

section \<open>Slab and free list\<close>

lemma is_heap_node_erase [simp]: "is_heap_node (erase_idx n) = is_heap_node n"
  by (cases n) auto

lemma unwrap_value_erase [simp]: "unwrap_value (erase_idx n) = unwrap_value n"
  by (cases n) auto

lemma skel_eqD:
  assumes "skel sl = skel sl'"
  shows "length sl = length sl'"
    and "s < length sl \<Longrightarrow> is_heap_node (sl ! s) = is_heap_node (sl' ! s)"
    and "s < length sl \<Longrightarrow> unwrap_value (sl ! s) = unwrap_value (sl' ! s)"
proof -
  show len: "length sl = length sl'" using assms by (rule map_eq_imp_length_eq)
  assume "s < length sl"
  with assms len have "erase_idx (sl ! s) = erase_idx (sl' ! s)" by (metis nth_map)
  then show "is_heap_node (sl ! s) = is_heap_node (sl' ! s)"
    and "unwrap_value (sl ! s) = unwrap_value (sl' ! s)"
    by (metis is_heap_node_erase, metis unwrap_value_erase)
qed

lemma free_chain_skel: "free_chain (skel sl) ff js = free_chain sl ff js"
  by (induction sl ff js rule: free_chain.induct) (auto split: node.splits)

lemma free_list_ok_skel:
  assumes "skel sl = skel sl'" "free_list_ok sl ff"
  shows "free_list_ok sl' ff"
proof -
  have "free_chain sl' ff js = free_chain sl ff js" for js
    using assms(1) free_chain_skel by metis
  moreover have "{s. s < length sl' \<and> \<not> is_heap_node (sl' ! s)} =
      {s. s < length sl \<and> \<not> is_heap_node (sl ! s)}"
    using skel_eqD(1,2) [OF assms(1)] by auto
  ultimately show ?thesis using assms(2) by (simp add: free_list_ok_def)
qed

lemma free_chain_update:
  "i \<notin> set js \<Longrightarrow> free_chain (sl[i := n]) ff js = free_chain sl ff js"
  by (induction sl ff js rule: free_chain.induct) (auto split: node.splits)

lemma free_list_take:
  assumes "free_list_ok sl (Some i)"
  shows "\<exists>nx. i < length sl \<and> sl ! i = FreeNode nx \<and> free_list_ok (sl[i := HeapNode v 0]) nx"
proof -
  from assms obtain js where js: "free_chain sl (Some i) js" "distinct js"
    "set js = {s. s < length sl \<and> \<not> is_heap_node (sl ! s)}"
    by (auto simp: free_list_ok_def)
  then obtain ks nx where ks: "js = i # ks" "i < length sl" "sl ! i = FreeNode nx" "free_chain sl nx ks"
    by (cases js) (auto split: node.splits)
  have "set ks = set js - {i}" using js(2) ks(1) by auto
  then have "set ks = {s. s < length sl \<and> \<not> is_heap_node (sl[i := HeapNode v 0] ! s)}"
    using js(3) ks(2) by (auto simp: nth_list_update)
  with ks js(2) have "free_list_ok (sl[i := HeapNode v 0]) nx"
    unfolding free_list_ok_def by (intro exI [of _ ks]) (simp add: free_chain_update)
  with ks show ?thesis by blast
qed

lemma free_list_push:
  assumes "free_list_ok sl None"
  shows "free_list_ok (sl @ [HeapNode v 0]) None"
proof -
  have "\<forall>s < length sl. is_heap_node (sl ! s)" using assms by (auto simp: free_list_ok_def)
  then show ?thesis by (auto simp: free_list_ok_def nth_append less_Suc_eq)
qed

lemma free_list_free:
  assumes "free_list_ok sl ff" "s < length sl" "is_heap_node (sl ! s)"
  shows "free_list_ok (sl[s := FreeNode ff]) (Some s)"
proof -
  from assms(1) obtain js where js: "free_chain sl ff js" "distinct js"
    "set js = {t. t < length sl \<and> \<not> is_heap_node (sl ! t)}"
    by (auto simp: free_list_ok_def)
  with assms have s: "s \<notin> set js" by simp
  with js assms(2) have "free_chain (sl[s := FreeNode ff]) (Some s) (s # js)"
    by (simp add: free_chain_update)
  moreover have "set (s # js) = {t. t < length (sl[s := FreeNode ff]) \<and>
      \<not> is_heap_node (sl[s := FreeNode ff] ! t)}"
    using js(3) assms(2) by (auto simp: nth_list_update)
  moreover have "distinct (s # js)" using js(2) s by simp
  ultimately show ?thesis unfolding free_list_ok_def by blast
qed

text \<open>
  \<open>allocated v q s sl ff\<close>: the slab \<open>sl\<close> with free list \<open>ff\<close> is that of \<open>q\<close> with a node for
  \<open>v\<close> added at an index \<open>s\<close> that held no value.
\<close>

definition allocated ::
    "'v \<Rightarrow> ('k, 'v) indexed_priority_queue \<Rightarrow> usize \<Rightarrow> 'v node list \<Rightarrow> usize option \<Rightarrow> bool" where
  "allocated v q s sl ff \<longleftrightarrow>
     free_list_ok sl ff \<and> s < length sl \<and> sl ! s = HeapNode v 0 \<and> length (slab q) \<le> length sl \<and>
     (\<forall>t < length sl. t \<noteq> s \<longrightarrow> t < length (slab q) \<and> sl ! t = slab q ! t) \<and>
     (s < length (slab q) \<longrightarrow> \<not> is_heap_node (slab q ! s))"

lemma slab_alloc_ok:
  assumes "free_list_ok (slab q) (first_free_node q)"
  shows "\<exists>s sl ff. slab_alloc v (q\<lparr>next_epoch := e\<rparr>) =
      Some (s, q\<lparr>next_epoch := e, slab := sl, first_free_node := ff\<rparr>) \<and> allocated v q s sl ff"
proof (cases "first_free_node q")
  case None
  with assms free_list_push have "free_list_ok (slab q @ [HeapNode v 0]) None" by metis
  with None show ?thesis
    by (intro exI [of _ "length (slab q)"] exI [of _ "slab q @ [HeapNode v 0]"] exI [of _ None])
      (auto simp: slab_alloc_def allocated_def nth_append)
next
  case (Some i)
  with assms free_list_take [of "slab q" i v] obtain nx where
    "i < length (slab q)" "slab q ! i = FreeNode nx" "free_list_ok ((slab q)[i := HeapNode v 0]) nx"
    by metis
  with Some show ?thesis
    by (intro exI [of _ i] exI [of _ "(slab q)[i := HeapNode v 0]"] exI [of _ nx])
      (auto simp: slab_alloc_def allocated_def)
qed

section \<open>Sifting does not change what is held\<close>

lemma ipq_shape_slab_bound:
  "ipq_shape q \<Longrightarrow> it \<in> set (heap q) \<Longrightarrow>
     ii_slab_idx it < length (slab q) \<and> is_heap_node (slab q ! ii_slab_idx it)"
  by (fastforce simp: ipq_shape_def)

lemma ipq_shape_cong:
  assumes "ipq_shape q" "mset (heap q') = mset (heap q)" "skel (slab q') = skel (slab q)"
    "first_free_node q' = first_free_node q" "next_epoch q' = next_epoch q"
  shows "ipq_shape q'"
proof -
  have sets: "set (heap q') = set (heap q)" using assms(2) by (rule mset_eq_setD)
  have d: "distinct (map ii_slab_idx (heap q')) = distinct (map ii_slab_idx (heap q))"
    "distinct (map item_epoch (heap q')) = distinct (map item_epoch (heap q))"
    by (rule distinct_map_mset_cong [OF assms(2)])+
  have nodes: "{s. s < length (slab q') \<and> is_heap_node (slab q' ! s)} =
      {s. s < length (slab q) \<and> is_heap_node (slab q ! s)}"
    using skel_eqD(1,2) [OF assms(3)] by auto
  show ?thesis
    using assms(1,4,5) sets d nodes free_list_ok_skel [OF assms(3) [symmetric]]
    by (simp add: ipq_shape_def)
qed

lemma ipq_records_cong:
  assumes "mset (heap q') = mset (heap q)" "skel (slab q') = skel (slab q)" "ipq_shape q"
  shows "mset (ipq_records q') = mset (ipq_records q)"
proof -
  have "ipq_records q = map (\<lambda>it. (ii_slab_idx it, ii_key it,
      the (unwrap_value (slab q' ! ii_slab_idx it)))) (heap q)"
    unfolding ipq_records_def
    using skel_eqD(3) [OF assms(2)] skel_eqD(1) [OF assms(2)] ipq_shape_slab_bound [OF assms(3)]
    by (intro map_cong) auto
  then have "mset (ipq_records q) = image_mset (\<lambda>it. (ii_slab_idx it, ii_key it,
      the (unwrap_value (slab q' ! ii_slab_idx it)))) (mset (heap q'))"
    by (simp only: mset_map assms(1))
  then show ?thesis unfolding ipq_records_def [of q'] by (simp only: mset_map)
qed

lemma sifted_invar:
  assumes "sifted it c q q'" "ipq_shape (q\<lparr>heap := (heap q)[c := it]\<rparr>)"
  shows "ipq_invar q'"
    and "mset (ipq_records q') = mset (ipq_records (q\<lparr>heap := (heap q)[c := it]\<rparr>))"
proof -
  let ?q = "q\<lparr>heap := (heap q)[c := it]\<rparr>"
  from assms(1) have eqs: "mset (heap q') = mset (heap ?q)" "skel (slab q') = skel (slab ?q)"
    "first_free_node q' = first_free_node ?q" "next_epoch q' = next_epoch ?q"
    by (simp_all add: sifted_def)
  show "ipq_invar q'"
    using assms(1) ipq_shape_cong [OF assms(2) eqs] by (simp add: ipq_invar_def sifted_def)
  show "mset (ipq_records q') = mset (ipq_records ?q)"
    using ipq_records_cong [OF eqs(1,2) assms(2)] .
qed

section \<open>Insertion\<close>

lemma allocated_item:
  assumes "allocated v q s sl ff" "ipq_shape q" "x \<in> set (heap q)"
  shows "ii_slab_idx x \<noteq> s" "ii_slab_idx x < length sl"
    "sl ! ii_slab_idx x = slab q ! ii_slab_idx x"
proof -
  note x = ipq_shape_slab_bound [OF assms(2,3)]
  with assms(1) show ne: "ii_slab_idx x \<noteq> s" by (auto simp: allocated_def)
  from x assms(1) show lt: "ii_slab_idx x < length sl" by (simp add: allocated_def)
  from ne lt assms(1) show "sl ! ii_slab_idx x = slab q ! ii_slab_idx x"
    by (simp add: allocated_def)
qed

lemma allocated_shape:
  fixes q :: "('k, 'v) indexed_priority_queue"
  defines "it \<equiv> \<lambda>s k. \<lparr>ii_key = UniqueKey k (next_epoch q), ii_slab_idx = s\<rparr>"
  assumes al: "allocated v q s sl ff" and shape: "ipq_shape q" and ne: "next_epoch q \<noteq> - 1"
  shows "ipq_shape (q\<lparr>next_epoch := next_epoch q + 1, slab := sl, first_free_node := ff,
      heap := heap q @ [it s k]\<rparr>)"
proof -
  have "s \<notin> ii_slab_idx ` set (heap q)" using allocated_item(1) [OF al shape] by auto
  moreover have "next_epoch q \<notin> item_epoch ` set (heap q)" using shape by (auto simp: ipq_shape_def)
  ultimately have d: "distinct (map ii_slab_idx (heap q @ [it s k]))"
    "distinct (map item_epoch (heap q @ [it s k]))"
    using shape by (simp_all add: ipq_shape_def it_def)
  have "t < length sl \<and> is_heap_node (sl ! t) \<longleftrightarrow> t = s \<or> t < length (slab q) \<and> is_heap_node (slab q ! t)"
    for t
    using al by (cases "t = s") (auto simp: allocated_def)
  then have "{t. t < length sl \<and> is_heap_node (sl ! t)} =
      insert s {t. t < length (slab q) \<and> is_heap_node (slab q ! t)}"
    by auto
  moreover have "\<forall>x \<in> set (heap q). item_epoch x < next_epoch q + 1"
    using shape word_less_plus_one [OF ne] by (auto simp: ipq_shape_def intro: order.strict_trans)
  ultimately show ?thesis
    using d shape al word_less_plus_one [OF ne] by (simp add: ipq_shape_def allocated_def it_def)
qed

lemma up_ordered_append:
  assumes "heap_ordered h"
  shows "up_ordered k (length h) (h @ [x])"
proof -
  have "parent_of j \<noteq> length h" if "j < Suc (length h)" "0 < j" for j
    using that parent_of_less [of j] by simp
  moreover have "ii_key ((h @ [x]) ! parent_of i) \<le> ii_key ((h @ [x]) ! i)"
    if "i < Suc (length h)" "0 < i" "i \<noteq> length h" for i
    using assms that parent_of_less [of i] by (simp add: heap_ordered_def nth_append)
  ultimately show ?thesis by (simp add: up_ordered_def)
qed

lemma ipq_insert_ok:
  assumes inv: "ipq_invar q" and ne: "next_epoch q \<noteq> - 1"
  shows "\<exists>ik q'. ipq_insert k v q = Some (ik, q') \<and> ipq_invar q' \<and> next_epoch q' = next_epoch q + 1 \<and>
    ik_epoch ik = next_epoch q \<and>
    mset (ipq_records q') =
      add_mset (ik_slab_idx ik, UniqueKey k (next_epoch q), v) (mset (ipq_records q))"
proof -
  let ?e = "next_epoch q" and ?c = "length (heap q)"
  from inv have shape: "ipq_shape q" and xr: "xref (heap q) (slab q) {}" and ord: "heap_ordered (heap q)"
    by (simp_all add: ipq_invar_def)
  then obtain s sl ff where
    alloc: "slab_alloc v (q\<lparr>next_epoch := ?e + 1\<rparr>) =
      Some (s, q\<lparr>next_epoch := ?e + 1, slab := sl, first_free_node := ff\<rparr>)"
    and al: "allocated v q s sl ff"
    using slab_alloc_ok [of q v "?e + 1"] by (auto simp: ipq_shape_def)
  let ?it = "\<lparr>ii_key = UniqueKey k ?e, ii_slab_idx = s\<rparr>"
  let ?q = "q\<lparr>next_epoch := ?e + 1, slab := sl, first_free_node := ff,
    heap := heap q @ [\<lparr>ii_key = UniqueKey k ?e, ii_slab_idx = 0\<rparr>]\<rparr>"
  let ?q1 = "?q\<lparr>heap := (heap ?q)[?c := ?it]\<rparr>"
  note item = allocated_item [OF al shape]
  have shape1: "ipq_shape ?q1" using allocated_shape [OF al shape ne, of k] by simp
  have recs: "ipq_records ?q1 = ipq_records q @ [(s, UniqueKey k ?e, v)]"
    using item al by (simp add: ipq_records_def allocated_def)
  have "xref (heap ?q) sl {?c}"
    using xr item by (simp add: xref_def nth_append less_Suc_eq)
  then have hole: "hole_ok ?it ?c (heap ?q) (slab ?q)"
    using shape1 al by (simp add: hole_ok_def ipq_shape_def allocated_def)
  have "up_ordered (ii_key ?it) ?c (heap ?q)" using up_ordered_append [OF ord] by simp
  from sift_up_sifted [OF hole this] obtain q' where
    q': "sift_up ?it ?c ?q = Some q'" "sifted ?it ?c ?q q'"
    by blast
  have "ipq_insert k v q = Some (InsertKey s ?e, q')"
    using ne alloc q'(1) by (simp add: ipq_insert_def Let_def)
  moreover have "next_epoch q' = ?e + 1" using q'(2) by (simp add: sifted_def)
  ultimately show ?thesis
    using sifted_invar [OF q'(2) shape1] recs by simp
qed

section \<open>Removal\<close>

abbreviation item_record ::
    "('k, 'v) indexed_priority_queue \<Rightarrow> 'k ipq_item \<Rightarrow> usize \<times> 'k unique_key \<times> 'v" where
  "item_record q it \<equiv>
     (ii_slab_idx it, ii_key it, the (unwrap_value (slab q ! ii_slab_idx it)))"

abbreviation freed ::
    "('k, 'v) indexed_priority_queue \<Rightarrow> usize \<Rightarrow> ('k, 'v) indexed_priority_queue" where
  "freed q s \<equiv> q\<lparr>slab := (slab q)[s := FreeNode (first_free_node q)], first_free_node := Some s\<rparr>"

lemma shape_removed:
  assumes shape: "ipq_shape q" and m: "mset (heap q) = add_mset it (mset h)"
  shows "ipq_shape ((freed q (ii_slab_idx it))\<lparr>heap := h\<rparr>)"
    and "mset (ipq_records q) =
      add_mset (item_record q it) (mset (ipq_records ((freed q (ii_slab_idx it))\<lparr>heap := h\<rparr>)))"
proof -
  let ?s = "ii_slab_idx it" let ?q = "(freed q ?s)\<lparr>heap := h\<rparr>"
  have sets: "set (heap q) = insert it (set h)" using m by (metis set_mset_add_mset_insert set_mset_mset)
  then have s: "?s < length (slab q)" "is_heap_node (slab q ! ?s)"
    using ipq_shape_slab_bound [OF shape, of it] by auto
  have "mset (heap q) = mset (it # h)" using m by simp
  note d_cong = distinct_map_mset_cong [OF this]
  have d: "distinct (map ii_slab_idx (it # h))" "distinct (map item_epoch (it # h))"
    using shape unfolding ipq_shape_def d_cong by blast+
  then have s_h: "?s \<notin> ii_slab_idx ` set h" by simp
  have "ii_slab_idx ` set h = ii_slab_idx ` set (heap q) - {?s}"
    using sets s_h by auto
  also have "\<dots> = {t. t < length (slab q) \<and> is_heap_node ((slab q)[?s := FreeNode (first_free_node q)] ! t)}"
    using shape s by (auto simp: ipq_shape_def nth_list_update)
  finally show "ipq_shape ?q"
    using d sets shape free_list_free [of "slab q" "first_free_node q" ?s] s
    by (simp add: ipq_shape_def)
  have "map (item_record ?q) h = map (item_record q) h"
    using s_h by (intro map_cong) (auto simp: image_iff nth_list_update)
  then have h: "ipq_records ?q = map (item_record q) h" by (simp add: ipq_records_def)
  have "mset (ipq_records q) = image_mset (item_record q) (mset (heap q))"
    by (simp only: ipq_records_def mset_map)
  also have "\<dots> = add_mset (item_record q it) (mset (ipq_records ?q))"
    unfolding h m by simp
  finally show "mset (ipq_records q) = add_mset (item_record q it) (mset (ipq_records ?q))" .
qed

lemma butlast_update_mset:
  assumes "c < length xs - 1"
  shows "mset xs = add_mset (xs ! c) (mset ((butlast xs)[c := last xs]))"
proof -
  from assms have ne: "xs \<noteq> []" and c: "c < length (butlast xs)" by auto
  have nth: "xs ! c = butlast xs ! c" using c by (simp add: nth_butlast)
  have "mset xs = add_mset (last xs) (mset (butlast xs))"
    using ne by (metis append_butlast_last_id mset.simps(2) mset_append union_mset_add_mset_right add.right_neutral mset.simps(1))
  also have "mset (butlast xs) = add_mset (xs ! c) (mset (butlast xs) - {#xs ! c#})"
    using c nth by (metis insert_DiffM nth_mem_mset)
  finally show ?thesis using c nth by (simp add: mset_update)
qed

lemma butlast_mset_last:
  assumes "c < length xs" "\<not> c < length xs - 1"
  shows "mset xs = add_mset (xs ! c) (mset (butlast xs))"
proof -
  from assms have "xs \<noteq> []" "c = length xs - 1" by auto
  then have "xs = butlast xs @ [xs ! c]" by (metis append_butlast_last_id last_conv_nth)
  then show ?thesis by (metis add_mset_add_single mset.simps(1) mset.simps(2) mset_append)
qed

lemma xref_removed:
  assumes inv: "ipq_invar q" and c: "c < length (heap q)"
  shows "xref (butlast (heap q)) ((slab q)[ii_slab_idx (heap q ! c) := n]) {c}"
proof -
  have d: "distinct (map ii_slab_idx (heap q))" and xr: "xref (heap q) (slab q) {}"
    using inv by (simp_all add: ipq_invar_def ipq_shape_def)
  have "ii_slab_idx (heap q ! i) \<noteq> ii_slab_idx (heap q ! c)" if "i < length (heap q)" "i \<noteq> c" for i
    using distinct_map_nth_neq [OF d that(1) c that(2)] .
  then have "(slab q)[ii_slab_idx (heap q ! c) := n] ! ii_slab_idx (heap q ! i) =
      slab q ! ii_slab_idx (heap q ! i)" if "i < length (heap q)" "i \<noteq> c" for i
    using that by (metis nth_list_update_neq)
  with xr show ?thesis by (auto simp: xref_def nth_butlast)
qed

lemma heap_ordered_butlast: "heap_ordered h \<Longrightarrow> heap_ordered (butlast h)"
proof -
  assume "heap_ordered h"
  moreover have "parent_of i < length h - 1" if "i < length h - 1" "0 < i" for i
    using that parent_of_less [of i] by simp
  ultimately show ?thesis by (auto simp: heap_ordered_def nth_butlast)
qed

lemma hole_removed:
  assumes inv: "ipq_invar q" and c: "c < length (heap q) - 1"
  shows "hole_ok (last (heap q)) c (butlast (heap q)) ((slab q)[ii_slab_idx (heap q ! c) := n])"
proof -
  let ?l = "last (heap q)"
  have ne: "heap q \<noteq> []" using c by auto
  have shape: "ipq_shape q" using inv by (simp add: ipq_invar_def)
  have "mset (heap q) = mset (heap q ! c # (butlast (heap q))[c := ?l])"
    using butlast_update_mset [OF c] by simp
  then have d: "distinct (map ii_slab_idx (heap q ! c # (butlast (heap q))[c := ?l]))"
    using shape distinct_map_mset_cong [of "heap q"] unfolding ipq_shape_def by blast
  moreover have "?l \<in> set ((butlast (heap q))[c := ?l])" using c by (simp add: set_update_memI)
  ultimately have "ii_slab_idx ?l \<noteq> ii_slab_idx (heap q ! c)" by (auto simp: image_iff)
  with ipq_shape_slab_bound [OF shape last_in_set [OF ne]] d xref_removed [OF inv] c
  show ?thesis by (simp add: hole_ok_def)
qed

text \<open>Both removals end in a state with one record less.\<close>

definition removed ::
    "'k::linorder ipq_item \<Rightarrow> ('k, 'v) indexed_priority_queue \<Rightarrow> ('k, 'v) indexed_priority_queue \<Rightarrow> bool"
  where
  "removed it q q' \<longleftrightarrow> ipq_invar q' \<and> next_epoch q' = next_epoch q \<and>
     mset (ipq_records q) = add_mset (item_record q it) (mset (ipq_records q'))"

abbreviation popped ::
    "('k, 'v) indexed_priority_queue \<Rightarrow> usize \<Rightarrow> ('k, 'v) indexed_priority_queue" where
  "popped q c \<equiv> (freed q (ii_slab_idx (heap q ! c)))\<lparr>heap := butlast (heap q)\<rparr>"

lemma removed_last:
  assumes inv: "ipq_invar q" and c: "c < length (heap q)" "\<not> c < length (heap q) - 1"
  shows "removed (heap q ! c) q (popped q c)"
proof -
  have shape: "ipq_shape q" and ord: "heap_ordered (heap q)" using inv by (simp_all add: ipq_invar_def)
  note rem = shape_removed [OF shape butlast_mset_last [OF c]]
  have "c = length (butlast (heap q))" using c by simp
  then have "xref (butlast (heap q)) sl {}" if "xref (butlast (heap q)) sl {c}" for sl :: "'b node list"
    using that unfolding xref_def by simp
  with xref_removed [OF inv c(1)] have "xref (heap (popped q c)) (slab (popped q c)) {}" by simp
  with rem heap_ordered_butlast [OF ord] show ?thesis
    by (simp add: removed_def ipq_invar_def)
qed

lemma removed_sifted:
  assumes inv: "ipq_invar q" and c: "c < length (heap q) - 1"
    and sift: "sifted (last (heap q)) c (popped q c) q'"
  shows "removed (heap q ! c) q q'"
proof -
  have shape: "ipq_shape q" using inv by (simp add: ipq_invar_def)
  note rem = shape_removed [OF shape butlast_update_mset [OF c]]
  have "(popped q c)\<lparr>heap := (heap (popped q c))[c := last (heap q)]\<rparr> =
      (freed q (ii_slab_idx (heap q ! c)))\<lparr>heap := (butlast (heap q))[c := last (heap q)]\<rparr>"
    by simp
  with rem sifted_invar [OF sift] sift show ?thesis
    by (simp add: removed_def sifted_def)
qed

lemma heap_ordered_le:
  assumes "heap_ordered h" "i < length h - 1" "0 < i"
  shows "ii_key (h ! parent_of i) \<le> ii_key (h ! i)" "parent_of i < length h - 1"
  using assms parent_of_less [of i] by (simp_all add: heap_ordered_def)

lemma down_ordered_removed:
  assumes ord: "heap_ordered h" and c: "c < length h - 1" and k: "ii_key (h ! c) \<le> k"
  shows "down_ordered k c (butlast h)"
  unfolding down_ordered_def
proof (intro conjI allI impI)
  note le = heap_ordered_le [OF ord]
  fix i
  assume "i < length (butlast h)" "0 < i"
  with le show "ii_key (butlast h ! parent_of i) \<le> ii_key (butlast h ! i)"
    by (simp add: nth_butlast)
next
  note le = heap_ordered_le [OF ord]
  assume c0: "0 < c"
  then show "ii_key (butlast h ! parent_of c) \<le> k"
    using le [OF c] k by (simp add: nth_butlast)
  fix j
  assume "j < length (butlast h)" "0 < j" "parent_of j = c"
  with le [of j] le [OF c c0] show "ii_key (butlast h ! parent_of c) \<le> ii_key (butlast h ! j)"
    by (simp add: nth_butlast)
qed

lemma up_ordered_removed:
  assumes ord: "heap_ordered h" and c: "c < length h - 1" and k: "k \<le> ii_key (h ! c)"
  shows "up_ordered k c (butlast h)"
  unfolding up_ordered_def
proof (intro conjI allI impI)
  note le = heap_ordered_le [OF ord]
  show "ii_key (butlast h ! parent_of i) \<le> ii_key (butlast h ! i)"
    if "i < length (butlast h)" "0 < i" for i
    using le that by (simp add: nth_butlast)
  show "k \<le> ii_key (butlast h ! j)" if "j < length (butlast h)" "0 < j" "parent_of j = c" for j
    using le [of j] k that by (simp add: nth_butlast)
  show "ii_key (butlast h ! parent_of c) \<le> ii_key (butlast h ! j)"
    if "j < length (butlast h)" "0 < j" "parent_of j = c" "0 < c" for j
    using le [of j] le [OF c] that by (simp add: nth_butlast)
qed

lemma heap_top_least:
  assumes "heap_ordered h" "i < length h"
  shows "ii_key (h ! 0) \<le> ii_key (h ! i)"
  using assms(2)
proof (induction i rule: less_induct)
  case (less i)
  show ?case
  proof (cases "i = 0")
    case False
    with less parent_of_less [of i] assms(1) show ?thesis
      by (fastforce simp: heap_ordered_def intro: order.trans)
  qed simp
qed

section \<open>Pull, peek and extract\<close>

lemma ipq_heap_nth:
  assumes "ipq_invar q" "c < length (heap q)"
  obtains v where "slab q ! ii_slab_idx (heap q ! c) = HeapNode v c"
    "ii_slab_idx (heap q ! c) < length (slab q)"
  using assms by (auto simp: ipq_invar_def xref_def)

lemma ipq_slab_nth:
  assumes inv: "ipq_invar q" and s: "s < length (slab q)" "slab q ! s = HeapNode v i"
  shows "i < length (heap q)" "ii_slab_idx (heap q ! i) = s"
proof -
  from inv have "set (map ii_slab_idx (heap q)) = {t. t < length (slab q) \<and> is_heap_node (slab q ! t)}"
    by (simp add: ipq_invar_def ipq_shape_def)
  with s have "s \<in> set (map ii_slab_idx (heap q))" by simp
  then obtain c where c: "c < length (heap q)" "ii_slab_idx (heap q ! c) = s"
    by (auto simp: in_set_conv_nth)
  obtain w where "slab q ! ii_slab_idx (heap q ! c) = HeapNode w c"
    using ipq_heap_nth [OF inv c(1)] .
  with c(2) s(2) have "c = i" by simp
  with c show "i < length (heap q)" "ii_slab_idx (heap q ! i) = s" by simp_all
qed

lemma last_slab_idx:
  assumes "ipq_invar q" "c < length (heap q)"
  shows "ii_slab_idx (last (heap q)) = ii_slab_idx (heap q ! c) \<longleftrightarrow> \<not> c < length (heap q) - 1"
proof -
  have ne: "heap q \<noteq> []" using assms(2) by auto
  have "distinct (map ii_slab_idx (heap q))" using assms(1) by (simp add: ipq_invar_def ipq_shape_def)
  note neq = distinct_map_nth_neq [OF this, of "length (heap q) - 1" c]
  show ?thesis
  proof (cases "c = length (heap q) - 1")
    case True
    then show ?thesis using ne by (simp add: last_conv_nth)
  next
    case False
    then show ?thesis using neq assms(2) ne by (simp add: last_conv_nth)
  qed
qed

lemma ipq_pull_empty: "heap q = [] \<Longrightarrow> ipq_pull q = Some (None, q)"
  by (simp add: ipq_pull_def)

lemma ipq_pull_ok:
  assumes inv: "ipq_invar q" and ne: "heap q \<noteq> []"
  shows "\<exists>v q'. ipq_pull q = Some (Some (uk_key (ii_key (heap q ! 0)), v), q') \<and>
    slab q ! ii_slab_idx (heap q ! 0) = HeapNode v 0 \<and> removed (heap q ! 0) q q'"
proof -
  let ?it = "heap q ! 0"
  obtain it rest where h: "heap q = it # rest" using ne by (cases "heap q") auto
  have len: "0 < length (heap q)" using ne by simp
  obtain v where v: "slab q ! ii_slab_idx ?it = HeapNode v 0" "ii_slab_idx ?it < length (slab q)"
    using ipq_heap_nth [OF inv len] .
  define finish where "finish = (\<lambda>q' :: ('a, 'b) indexed_priority_queue. Some (Some (uk_key (ii_key ?it), v), q'))"
  have pull: "ipq_pull q = Option.bind
      (if ii_slab_idx (last (heap q)) \<noteq> ii_slab_idx ?it then sift_down (last (heap q)) 0 (popped q 0)
       else Some (popped q 0)) finish"
    unfolding ipq_pull_def finish_def using v by (simp add: h Let_def)
  show ?thesis
  proof (cases "0 < length (heap q) - 1")
    case True
    have ord: "heap_ordered (heap q)" using inv by (simp add: ipq_invar_def)
    have "ii_key ?it \<le> ii_key (last (heap q))"
      using heap_top_least [OF ord, of "length (heap q) - 1"] ne by (simp add: last_conv_nth)
    from sift_down_sifted [of "last (heap q)" 0 "popped q 0"] down_ordered_removed [OF ord True this]
      hole_removed [OF inv True]
    obtain q' where "sift_down (last (heap q)) 0 (popped q 0) = Some q'"
      "sifted (last (heap q)) 0 (popped q 0) q'"
      by auto
    with removed_sifted [OF inv True] pull v last_slab_idx [OF inv len] True show ?thesis
      by (simp add: finish_def)
  next
    case False
    with removed_last [OF inv len] pull v last_slab_idx [OF inv len] show ?thesis
      by (simp add: finish_def)
  qed
qed

lemma ipq_extract_none:
  assumes "\<not> (\<exists>v i. ik_slab_idx ik < length (slab q) \<and> slab q ! ik_slab_idx ik = HeapNode v i \<and>
      item_epoch (heap q ! i) = ik_epoch ik)" and inv: "ipq_invar q"
  shows "ipq_extract ik q = Some (None, q)"
proof -
  have "extract_guard ik q = Some False"
  proof (cases "ik_slab_idx ik < length (slab q)")
    case True
    then show ?thesis
    proof (cases "slab q ! ik_slab_idx ik")
      case (HeapNode v i)
      with True assms ipq_slab_nth(1) [OF inv True HeapNode] show ?thesis
        by (auto simp: extract_guard_def)
    qed (simp add: extract_guard_def)
  qed (simp add: extract_guard_def)
  then show ?thesis by (simp add: ipq_extract_def)
qed

lemma ipq_extract_some:
  assumes inv: "ipq_invar q" and s: "ik_slab_idx ik < length (slab q)"
    "slab q ! ik_slab_idx ik = HeapNode v i" "item_epoch (heap q ! i) = ik_epoch ik"
  shows "\<exists>q'. ipq_extract ik q = Some (Some (uk_key (ii_key (heap q ! i)), v), q') \<and>
    removed (heap q ! i) q q'"
proof -
  note i = ipq_slab_nth [OF inv s(1,2)]
  have ne: "heap q \<noteq> []" using i by auto
  have ord: "heap_ordered (heap q)" using inv by (simp add: ipq_invar_def)
  let ?l = "last (heap q)"
  define finish where "finish = (\<lambda>q' :: ('a, 'b) indexed_priority_queue. Some (Some (uk_key (ii_key (heap q ! i)), v), q'))"
  have guard: "extract_guard ik q = Some True" using i s by (simp add: extract_guard_def)
  have nth_b: "nth_opt (butlast (heap q)) i = (if i < length (heap q) - 1 then Some (heap q ! i) else None)"
    by (simp add: nth_opt_def nth_butlast)
  have ext: "ipq_extract ik q = Option.bind
      (if i < length (heap q) - 1 then
         if ii_key ?l < ii_key (heap q ! i) then sift_up ?l i (popped q i) else sift_down ?l i (popped q i)
       else Some (popped q i)) finish"
    unfolding ipq_extract_def finish_def using guard i s(1,2) ne by (simp add: Let_def nth_b)
  show ?thesis
  proof (cases "i < length (heap q) - 1")
    case True
    note hole = hole_removed [OF inv True]
    have "\<exists>q'. (if ii_key ?l < ii_key (heap q ! i) then sift_up ?l i (popped q i)
        else sift_down ?l i (popped q i)) = Some q' \<and> sifted ?l i (popped q i) q'"
    proof (cases "ii_key ?l < ii_key (heap q ! i)")
      case less: True
      with sift_up_sifted [of ?l i "popped q i"] hole up_ordered_removed [OF ord True, of "ii_key ?l"]
      show ?thesis by simp
    next
      case False
      with sift_down_sifted [of ?l i "popped q i"] hole down_ordered_removed [OF ord True, of "ii_key ?l"]
      show ?thesis by simp
    qed
    then obtain q' where "(if ii_key ?l < ii_key (heap q ! i) then sift_up ?l i (popped q i)
        else sift_down ?l i (popped q i)) = Some q'" "sifted ?l i (popped q i) q'"
      by blast
    with removed_sifted [OF inv True] ext True show ?thesis by (auto simp: finish_def)
  next
    case False
    with removed_last [OF inv i(1)] ext show ?thesis by (simp add: finish_def)
  qed
qed

section \<open>A first-in first-out priority queue\<close>

lemma epochs_of_records:
  "map (\<lambda>r. uk_epoch (fst (snd r))) (ipq_records q) = map item_epoch (heap q)"
  by (simp add: ipq_records_def)

lemma ipq_epochs_distinct:
  "ipq_invar q \<Longrightarrow> distinct (map (\<lambda>r. uk_epoch (fst (snd r))) (ipq_records q))"
  by (simp only: epochs_of_records) (simp add: ipq_invar_def ipq_shape_def)

lemma ipq_entries_distinct:
  assumes "ipq_invar q"
  shows "distinct (map fst (ipq_entries q))"
proof -
  have "distinct (map uk_epoch (map fst (ipq_entries q)))"
    using ipq_epochs_distinct [OF assms] by (simp add: ipq_entries_def comp_def)
  then show ?thesis by (rule distinct_map [THEN iffD1, THEN conjunct1])
qed

lemma mset_entries:
  "mset (ipq_records q) = add_mset r (mset (ipq_records q')) \<Longrightarrow>
     mset (ipq_entries q) = add_mset (snd r) (mset (ipq_entries q'))"
  by (simp add: ipq_entries_def)

lemma ipq_insert_refines:
  assumes "ipq_invar q" "next_epoch q \<noteq> - 1"
  shows "\<exists>q'. map_option snd (ipq_insert k v q) = Some q' \<and> ipq_invar q' \<and>
    ipq_contents q' = fifo_insert k v (ipq_contents q) \<and> next_epoch q' = next_epoch q + 1"
proof -
  from ipq_insert_ok [OF assms, of k v] obtain ik q' where
    ins: "ipq_insert k v q = Some (ik, q')" "ipq_invar q'" "next_epoch q' = next_epoch q + 1"
    and m: "mset (ipq_records q') =
      add_mset (ik_slab_idx ik, UniqueKey k (next_epoch q), v) (mset (ipq_records q))"
    by blast
  have "mset (ipq_entries q') = mset ((UniqueKey k (next_epoch q), v) # ipq_entries q)"
    using mset_entries [OF m] by simp
  then have "ipq_contents q' = fifo_of ((UniqueKey k (next_epoch q), v) # ipq_entries q)"
    unfolding ipq_contents_def by (rule fifo_of_cong) (rule ipq_entries_distinct [OF ins(2)])
  also have "\<dots> = fifo_insert k v (ipq_contents q)"
    unfolding ipq_contents_def
    using assms(1)
    by (intro fifo_of_insert) (auto simp: ipq_entries_def ipq_records_def ipq_invar_def ipq_shape_def)
  finally show ?thesis using ins by simp
qed

lemma removed_contents:
  assumes inv: "ipq_invar q" and rem: "removed it q q'"
    and least: "\<forall>x \<in> set (heap q). ii_key it \<le> ii_key x"
  shows "ipq_contents q = (uk_key (ii_key it), the (unwrap_value (slab q ! ii_slab_idx it))) # ipq_contents q'"
proof -
  let ?v = "the (unwrap_value (slab q ! ii_slab_idx it))"
  have m: "mset (ipq_entries q) = add_mset (ii_key it, ?v) (mset (ipq_entries q'))"
    using rem mset_entries [of q "item_record q it" q'] by (simp add: removed_def)
  have "mset (ipq_entries q) = mset ((ii_key it, ?v) # ipq_entries q')" using m by simp
  from distinct_map_mset_cong [OF this, of fst] ipq_entries_distinct [OF inv]
  have notin: "ii_key it \<notin> set (map fst (ipq_entries q'))" by simp
  have sub: "set (ipq_entries q') \<subseteq> set (ipq_entries q)"
    using m by (metis set_mset_mset set_mset_add_mset_insert subset_insertI)
  have "\<forall>e \<in> set (ipq_entries q'). ii_key it < fst e"
  proof
    fix e
    assume e: "e \<in> set (ipq_entries q')"
    with sub obtain x where "x \<in> set (heap q)" "fst e = ii_key x"
      by (force simp: ipq_entries_def ipq_records_def)
    with least notin e show "ii_key it < fst e" by (force simp: less_le)
  qed
  from fifo_of_min [OF m this ipq_entries_distinct [OF inv]] show ?thesis
    by (simp add: ipq_contents_def)
qed

lemma ipq_pull_refines:
  assumes inv: "ipq_invar q"
  shows "\<exists>q'. ipq_pull q = Some (case ipq_contents q of [] \<Rightarrow> None | p # _ \<Rightarrow> Some p, q') \<and>
    ipq_invar q' \<and> ipq_contents q' = tl (ipq_contents q) \<and> next_epoch q' = next_epoch q"
proof (cases "heap q = []")
  case True
  then have "ipq_contents q = []" by (simp add: ipq_contents_def ipq_entries_def ipq_records_def)
  with True inv show ?thesis by (simp add: ipq_pull_empty)
next
  case False
  from ipq_pull_ok [OF inv False] obtain v q' where
    q': "ipq_pull q = Some (Some (uk_key (ii_key (heap q ! 0)), v), q')"
    "slab q ! ii_slab_idx (heap q ! 0) = HeapNode v 0" "removed (heap q ! 0) q q'"
    by blast
  have "\<forall>x \<in> set (heap q). ii_key (heap q ! 0) \<le> ii_key x"
    using inv heap_top_least [of "heap q"] by (auto simp: ipq_invar_def in_set_conv_nth)
  from removed_contents [OF inv q'(3) this] q' show ?thesis by (simp add: removed_def)
qed

lemma ipq_peek_pull:
  assumes inv: "ipq_invar q"
  shows "ipq_peek q = map_option fst (ipq_pull q)"
proof (cases "heap q = []")
  case True
  then show ?thesis by (simp add: ipq_peek_def ipq_pull_empty)
next
  case False
  then have "0 < length (heap q)" by simp
  then obtain v where v: "slab q ! ii_slab_idx (heap q ! 0) = HeapNode v 0"
    "ii_slab_idx (heap q ! 0) < length (slab q)"
    using ipq_heap_nth [OF inv] by blast
  from ipq_pull_ok [OF inv False] v obtain q' where
    "ipq_pull q = Some (Some (uk_key (ii_key (heap q ! 0)), v), q')"
    by auto
  moreover have "ipq_peek q = Some (Some (uk_key (ii_key (heap q ! 0)), v))"
    using False v by (cases "heap q") (simp_all add: ipq_peek_def)
  ultimately show ?thesis by simp
qed

interpretation ipq: fifo_queue ipq_new "\<lambda>k v q. map_option snd (ipq_insert k v q)" ipq_pull ipq_peek
  ipq_invar ipq_contents next_epoch
proof unfold_locales
  fix q :: "('k::linorder, 'v) indexed_priority_queue" and k v
  show "ipq_invar ipq_new" "ipq_contents ipq_new = []" "next_epoch ipq_new = 0"
    by (simp_all add: ipq_new_def ipq_invar_def ipq_shape_def free_list_ok_def xref_def
        heap_ordered_def ipq_contents_def ipq_entries_def ipq_records_def)
  show "\<exists>q'. map_option snd (ipq_insert k v q) = Some q' \<and> ipq_invar q' \<and>
      ipq_contents q' = fifo_insert k v (ipq_contents q) \<and> next_epoch q' = next_epoch q + 1"
    if "ipq_invar q" "next_epoch q \<noteq> - 1"
    using that by (rule ipq_insert_refines)
  show "map_option snd (ipq_insert k v q) = None" if "next_epoch q = - 1"
    using that by (simp add: ipq_insert_def)
  show "\<exists>q'. ipq_pull q = Some (case ipq_contents q of [] \<Rightarrow> None | p # _ \<Rightarrow> Some p, q') \<and>
      ipq_invar q' \<and> ipq_contents q' = tl (ipq_contents q) \<and> next_epoch q' = next_epoch q"
    if "ipq_invar q"
    using that by (rule ipq_pull_refines)
  show "ipq_peek q = Some (case ipq_contents q of [] \<Rightarrow> None | p # _ \<Rightarrow> Some p)"
    if "ipq_invar q"
    using ipq_pull_refines [OF that] ipq_peek_pull [OF that] by auto
qed

section \<open>Insertion keys\<close>

lemma ipq_keys_distinct:
  assumes "ipq_invar q"
  shows "distinct (map fst (map record_assoc (ipq_records q)))"
proof -
  have "distinct (map ik_epoch (map fst (map record_assoc (ipq_records q))))"
    using ipq_epochs_distinct [OF assms]
    by (simp add: comp_def record_assoc_def case_prod_beta)
  then show ?thesis by (rule distinct_map [THEN iffD1, THEN conjunct1])
qed

lemma ipq_live_add:
  assumes m: "mset (ipq_records q) = add_mset r (mset (ipq_records q'))" and inv: "ipq_invar q"
  shows "ipq_live q = (ipq_live q')(fst (record_assoc r) \<mapsto> snd (record_assoc r))"
    and "ipq_live q' (fst (record_assoc r)) = None"
proof -
  let ?L = "map record_assoc (ipq_records q)" and ?L' = "map record_assoc (ipq_records q')"
  have eq: "mset ?L = mset (record_assoc r # ?L')" using m by simp
  note d = ipq_keys_distinct [OF inv]
  have d': "distinct (map fst (record_assoc r # ?L'))"
    using d distinct_map_mset_cong [OF eq] by blast
  have "map_of ?L = map_of (record_assoc r # ?L')"
    using map_of_inject_set [OF d d'] mset_eq_setD [OF eq] by simp
  then show "ipq_live q = (ipq_live q')(fst (record_assoc r) \<mapsto> snd (record_assoc r))"
    by (simp add: ipq_live_def)
  from d' show "ipq_live q' (fst (record_assoc r)) = None"
    by (simp add: ipq_live_def map_of_eq_None_iff image_image)
qed

lemma ipq_live_iff:
  assumes "ipq_invar q"
  shows "ipq_live q ik = Some (k, v) \<longleftrightarrow>
    (\<exists>i. ik_slab_idx ik < length (slab q) \<and> slab q ! ik_slab_idx ik = HeapNode v i \<and>
       ii_key (heap q ! i) = UniqueKey k (ik_epoch ik))" (is "?L \<longleftrightarrow> ?R")
proof
  assume ?L
  then have "(ik, k, v) \<in> record_assoc ` set (ipq_records q)"
    using map_of_SomeD [of "map record_assoc (ipq_records q)" ik "(k, v)"] by (simp add: ipq_live_def)
  then obtain c where c: "c < length (heap q)" "ik = InsertKey (ii_slab_idx (heap q ! c)) (item_epoch (heap q ! c))"
    "k = uk_key (ii_key (heap q ! c))" "v = the (unwrap_value (slab q ! ii_slab_idx (heap q ! c)))"
    by (auto simp: ipq_records_def record_assoc_def in_set_conv_nth)
  with ipq_heap_nth [OF assms c(1)] show ?R by (metis insert_key.sel option.sel unique_key.collapse unwrap_value.simps(2))
next
  assume ?R
  then obtain i where i: "ik_slab_idx ik < length (slab q)" "slab q ! ik_slab_idx ik = HeapNode v i"
    "ii_key (heap q ! i) = UniqueKey k (ik_epoch ik)"
    by blast
  note h = ipq_slab_nth [OF assms i(1,2)]
  have "record_assoc (item_record q (heap q ! i)) = (ik, k, v)"
    using h i by (simp add: record_assoc_def)
  moreover have "item_record q (heap q ! i) \<in> set (ipq_records q)"
    using h(1) by (auto simp: ipq_records_def)
  ultimately have "(ik, k, v) \<in> set (map record_assoc (ipq_records q))" by force
  then show ?L using map_of_is_SomeI [OF ipq_keys_distinct [OF assms]] by (simp add: ipq_live_def)
qed

lemma ipq_live_insert:
  assumes inv: "ipq_invar q" and ins: "ipq_insert k v q = Some (ik, q')"
  shows "ipq_live q ik = None" "ipq_live q' = (ipq_live q)(ik \<mapsto> (k, v))"
proof -
  have "next_epoch q \<noteq> - 1" using ins by (auto simp: ipq_insert_def)
  from ipq_insert_ok [OF inv this, of k v] ins
  have q': "ipq_invar q'" "mset (ipq_records q') =
      add_mset (ik_slab_idx ik, UniqueKey k (ik_epoch ik), v) (mset (ipq_records q))"
    by auto
  from ipq_live_add [OF q'(2,1)]
  show "ipq_live q ik = None" "ipq_live q' = (ipq_live q)(ik \<mapsto> (k, v))"
    by (simp_all add: record_assoc_def)
qed

lemma removed_live:
  assumes inv: "ipq_invar q" and rem: "removed it q q'"
    and ik: "ik = InsertKey (ii_slab_idx it) (item_epoch it)"
  shows "ipq_live q' = (ipq_live q)(ik := None)"
    and "sort_key fst (ipq_entries q') =
      filter (\<lambda>e. uk_epoch (fst e) \<noteq> ik_epoch ik) (sort_key fst (ipq_entries q))"
proof -
  let ?r = "item_record q it"
  have m: "mset (ipq_records q) = add_mset ?r (mset (ipq_records q'))" using rem by (simp add: removed_def)
  have "fst (record_assoc ?r) = ik" using ik by (simp add: record_assoc_def)
  with ipq_live_add [OF m inv] show "ipq_live q' = (ipq_live q)(ik := None)" by auto
  let ?P = "\<lambda>e :: 'a unique_key \<times> 'b. uk_epoch (fst e) \<noteq> ik_epoch ik"
  have eq: "mset (ipq_records q) = mset (?r # ipq_records q')" using m by simp
  have "distinct (map (\<lambda>r. uk_epoch (fst (snd r))) (?r # ipq_records q'))"
    using ipq_epochs_distinct [OF inv] distinct_map_mset_cong [OF eq] by blast
  then have "item_epoch it \<notin> (\<lambda>r. uk_epoch (fst (snd r))) ` set (ipq_records q')" by simp
  then have "uk_epoch (fst (snd r)) \<noteq> ik_epoch ik" if "r \<in> set (ipq_records q')" for r
    using that ik by (metis image_eqI insert_key.sel(2))
  then have "filter ?P (ipq_entries q') = ipq_entries q'"
    unfolding filter_id_conv ipq_entries_def by simp
  moreover have "mset (filter ?P (ipq_entries q)) = mset (filter ?P (ipq_entries q'))"
    using mset_entries [OF m] ik by simp
  ultimately have "mset (ipq_entries q') = mset (filter ?P (ipq_entries q))" by simp
  moreover have "distinct (map fst (ipq_entries q'))"
    using rem ipq_entries_distinct [of q'] by (simp add: removed_def)
  ultimately have "sort_key fst (ipq_entries q') = sort_key fst (filter ?P (ipq_entries q))"
    by (rule sort_key_mset_cong)
  then show "sort_key fst (ipq_entries q') = filter ?P (sort_key fst (ipq_entries q))"
    by (simp add: filter_sort)
qed

lemma ipq_extract_ok:
  assumes inv: "ipq_invar q"
  shows "\<exists>q'. ipq_extract ik q = Some (ipq_live q ik, q') \<and> ipq_invar q' \<and>
    next_epoch q' = next_epoch q \<and> ipq_live q' = (ipq_live q)(ik := None) \<and>
    sort_key fst (ipq_entries q') =
      (if ipq_live q ik = None then sort_key fst (ipq_entries q)
       else filter (\<lambda>e. uk_epoch (fst e) \<noteq> ik_epoch ik) (sort_key fst (ipq_entries q)))"
proof (cases "ipq_live q ik")
  case None
  have "\<not> (\<exists>v i. ik_slab_idx ik < length (slab q) \<and> slab q ! ik_slab_idx ik = HeapNode v i \<and>
      item_epoch (heap q ! i) = ik_epoch ik)"
  proof (intro notI, elim exE conjE)
    fix v i
    assume "ik_slab_idx ik < length (slab q)" "slab q ! ik_slab_idx ik = HeapNode v i"
      "item_epoch (heap q ! i) = ik_epoch ik"
    then have "ipq_live q ik = Some (uk_key (ii_key (heap q ! i)), v)"
      using ipq_live_iff [OF inv] by (metis unique_key.collapse)
    with None show False by simp
  qed
  from ipq_extract_none [OF this inv] None inv show ?thesis by (simp add: fun_upd_idem)
next
  case (Some p)
  obtain k v where p: "p = (k, v)" by force
  with Some ipq_live_iff [OF inv] obtain i where
    i: "ik_slab_idx ik < length (slab q)" "slab q ! ik_slab_idx ik = HeapNode v i"
    "ii_key (heap q ! i) = UniqueKey k (ik_epoch ik)"
    by blast
  from ipq_extract_some [OF inv i(1,2)] i(3) obtain q' where
    q': "ipq_extract ik q = Some (Some (k, v), q')" "removed (heap q ! i) q q'"
    by auto
  have "ik = InsertKey (ii_slab_idx (heap q ! i)) (item_epoch (heap q ! i))"
    using ipq_slab_nth(2) [OF inv i(1,2)] i(3) by simp
  from removed_live [OF inv q'(2) this] q' Some p show ?thesis
    by (simp add: removed_def)
qed

section \<open>Properties\<close>

text \<open>C1. Starting from an empty queue, every sequence of insertions, pulls and peeks with fewer
  than \<open>2 ^ 64\<close> insertions runs without a panic and returns what the sorted list with
  first-in first-out ties returns; in the final state the invariant holds (heap order, the
  cross-index between heap and slab in both directions, a free list that lists exactly the free
  nodes, distinct epochs) and the queue holds what the list holds.\<close>

theorem ipq_refines_fifo:
  assumes "count_inserts ops < 2 ^ 64"
  shows "\<exists>q. run_ops (\<lambda>k v q. map_option snd (ipq_insert k v q)) ipq_pull ipq_peek ops ipq_new =
      Some (fst (fifo_run ops []), q) \<and> ipq_invar q \<and> ipq_contents q = snd (fifo_run ops [])"
  using assms by (rule ipq.run_ops_empty)

theorem ipq_refines_fifo_witness:
  "\<exists>q. run_ops (\<lambda>k v q. map_option snd (ipq_insert k v q)) ipq_pull ipq_peek
      [Insert (2 :: nat) ''b'', Insert 1 ''a'', Insert 2 ''c'', Peek, Pull, Pull, Pull, Pull] ipq_new =
      Some ([Some (1, ''a''), Some (1, ''a''), Some (2, ''b''), Some (2, ''c''), None], q) \<and>
    ipq_invar q \<and> ipq_contents q = []"
  using ipq_refines_fifo [of "[Insert (2 :: nat) ''b'', Insert 1 ''a'', Insert 2 ''c'', Peek, Pull, Pull, Pull, Pull]"]
  by (simp add: hd_opt_def)

text \<open>C2. On a queue that satisfies the invariant, extracting an insertion key never panics: it
  returns the pair the key was issued for if that pair is still in the queue and nothing
  otherwise, takes exactly that pair out of the queue, leaves the relative order of all others
  unchanged and keeps the invariant.\<close>

theorem ipq_extract_correct:
  assumes "ipq_invar q"
  shows "\<exists>q'. ipq_extract ik q = Some (ipq_live q ik, q') \<and> ipq_invar q' \<and>
    next_epoch q' = next_epoch q \<and> ipq_live q' = (ipq_live q)(ik := None) \<and>
    sort_key fst (ipq_entries q') =
      (if ipq_live q ik = None then sort_key fst (ipq_entries q)
       else filter (\<lambda>e. uk_epoch (fst e) \<noteq> ik_epoch ik) (sort_key fst (ipq_entries q)))"
  using assms by (rule ipq_extract_ok)

lemma ipq_new_invar: "ipq_invar ipq_new"
  by (rule ipq.empty_law(1))

lemma two_inserts_live:
  "\<exists>q. ipq_insert (7 :: nat) ''x'' ipq_new = Some (InsertKey 0 0, q) \<and>
     ipq_invar q \<and> ipq_live q (InsertKey 0 0) = Some (7, ''x'')"
proof -
  let ?q = "\<lparr>heap = [\<lparr>ii_key = UniqueKey 7 0, ii_slab_idx = 0\<rparr>], slab = [HeapNode ''x'' 0],
    first_free_node = None, next_epoch = 1\<rparr> :: (nat, string) indexed_priority_queue"
  have ins: "ipq_insert (7 :: nat) ''x'' ipq_new = Some (InsertKey 0 0, ?q)"
    by (simp add: ipq_insert_def ipq_new_def slab_alloc_def sift_up_def sift_up_loop.simps
        slab_set_heap_index_def)
  from ipq_live_insert(2) [OF ipq_new_invar ins] have "ipq_live ?q (InsertKey 0 0) = Some (7, ''x'')"
    by simp
  moreover have "ipq_invar ?q"
    using ipq_insert_ok [OF ipq_new_invar, of "7 :: nat" "''x''"] ins by (simp add: ipq_new_def)
  ultimately show ?thesis using ins by blast
qed

theorem ipq_extract_correct_witness:
  "\<exists>q q'. ipq_insert (7 :: nat) ''x'' ipq_new = Some (InsertKey 0 0, q) \<and>
     ipq_extract (InsertKey 0 0) q = Some (Some (7, ''x''), q') \<and>
     ipq_invar q' \<and> ipq_live q' (InsertKey 0 0) = None"
proof -
  obtain q where q: "ipq_insert (7 :: nat) ''x'' ipq_new = Some (InsertKey 0 0, q)"
    "ipq_invar q" "ipq_live q (InsertKey 0 0) = Some (7, ''x'')"
    using two_inserts_live by blast
  from ipq_extract_correct [OF q(2), of "InsertKey 0 0"] q show ?thesis by auto
qed

text \<open>C4. The key returned by an insertion is fresh, and after the insertion it addresses exactly the
  inserted pair, every other key addressing what it did before.\<close>

theorem ipq_insert_key_correct:
  assumes "ipq_invar q" "next_epoch q \<noteq> - 1"
  shows "\<exists>ik q'. ipq_insert k v q = Some (ik, q') \<and> ipq_invar q' \<and> ipq_live q ik = None \<and>
    ipq_live q' = (ipq_live q)(ik \<mapsto> (k, v))"
proof -
  from ipq_insert_ok [OF assms, of k v] obtain ik q' where "ipq_insert k v q = Some (ik, q')" "ipq_invar q'"
    by blast
  with ipq_live_insert [OF assms(1)] show ?thesis by blast
qed

theorem ipq_insert_key_correct_witness:
  "\<exists>ik q'. ipq_insert (3 :: nat) True ipq_new = Some (ik, q') \<and> ipq_invar q' \<and>
    ipq_live q' ik = Some (3, True)"
  using ipq_insert_key_correct [OF ipq_new_invar, of "3 :: nat" True] by (auto simp: ipq_new_def)

end
