(* ===== verification/Priority_Queue.thy ===== *)
theory Priority_Queue
  imports Fifo_Queue
begin

text \<open>
  The priority queue of the scheduler, \<^verbatim>\<open>asynchronix/src/util/priority_queue.rs\<close>. The
  standard library's \<^verbatim>\<open>BinaryHeap\<close> is modelled by the bag of its elements, held as a list,
  with the documented behaviour of \<^verbatim>\<open>push\<close>, \<^verbatim>\<open>peek\<close> and \<^verbatim>\<open>pop\<close>: the latter two
  give the greatest element for the elements' \<^verbatim>\<open>Ord\<close>. Everything the source writes itself,
  in particular that \<^verbatim>\<open>Ord\<close>, is translated. The queue is shown to meet the contract
  \<open>fifo_queue\<close>.
\<close>

section \<open>Items\<close>

record ('k, 'v) item =
  it_key :: 'k
  it_value :: 'v
  it_epoch :: u64

definition item_cmp :: "('k::linorder, 'v) item \<Rightarrow> ('k, 'v) item \<Rightarrow> ordering" where
  "item_cmp a b = reverse_ordering
     (then_with (cmp (it_key a) (it_key b)) (cmp (it_epoch a) (it_epoch b)))"

definition item_eq :: "('k, 'v) item \<Rightarrow> ('k, 'v) item \<Rightarrow> bool" where
  "item_eq a b \<longleftrightarrow> it_key a = it_key b \<and> it_epoch a = it_epoch b"

abbreviation item_ukey :: "('k, 'v) item \<Rightarrow> 'k unique_key" where
  "item_ukey i \<equiv> UniqueKey (it_key i) (it_epoch i)"

lemma item_cmp_less: "item_cmp a b = Less \<longleftrightarrow> item_ukey b < item_ukey a"
  by (auto simp: item_cmp_def cmp_def then_with_def less_unique_key_def)

lemma item_cmp_equal: "item_cmp a b = Equal \<longleftrightarrow> item_eq a b"
  by (auto simp: item_cmp_def cmp_def then_with_def item_eq_def)

section \<open>The standard library's binary heap\<close>

fun heap_pop :: "('k::linorder, 'v) item list \<Rightarrow> (('k, 'v) item \<times> ('k, 'v) item list) option" where
  "heap_pop [] = None"
| "heap_pop (x # xs) =
     (case heap_pop xs of
        None \<Rightarrow> Some (x, [])
      | Some (y, ys) \<Rightarrow> if item_cmp x y = Less then Some (y, x # ys) else Some (x, xs))"

definition heap_peek :: "('k::linorder, 'v) item list \<Rightarrow> ('k, 'v) item option" where
  "heap_peek xs = map_option fst (heap_pop xs)"

lemma heap_pop_None: "heap_pop xs = None \<longleftrightarrow> xs = []"
  by (cases xs) (auto split: option.splits if_splits)

lemma heap_pop_mset:
  "heap_pop xs = Some (y, ys) \<Longrightarrow> mset xs = add_mset y (mset ys)"
  by (induction xs arbitrary: y ys) (auto simp: heap_pop_None split: option.splits if_splits)

lemma heap_pop_least:
  "heap_pop xs = Some (y, ys) \<Longrightarrow> \<forall>z \<in> set ys. item_ukey y \<le> item_ukey z"
proof (induction xs arbitrary: y ys)
  case (Cons x xs)
  show ?case
  proof (cases "heap_pop xs")
    case None
    with Cons.prems show ?thesis by simp
  next
    case (Some p)
    obtain m ms where p: "p = (m, ms)" by force
    with Some Cons.IH have ms: "\<forall>z \<in> set ms. item_ukey m \<le> item_ukey z" by simp
    have "set xs = insert m (set ms)"
      using heap_pop_mset [of xs m ms] Some p by (metis set_mset_add_mset_insert set_mset_mset)
    with ms Cons.prems Some p show ?thesis
      by (fastforce simp: item_cmp_less split: if_splits)
  qed
qed simp

section \<open>The queue\<close>

record ('k, 'v) priority_queue =
  pq_heap :: "('k, 'v) item list"
  pq_next_epoch :: u64

definition pq_new :: "('k::linorder, 'v) priority_queue" where
  "pq_new = \<lparr>pq_heap = [], pq_next_epoch = 0\<rparr>"

definition pq_insert ::
    "'k::linorder \<Rightarrow> 'v \<Rightarrow> ('k, 'v) priority_queue \<Rightarrow> ('k, 'v) priority_queue option" where
  "pq_insert k v q =
     do {
       let epoch = pq_next_epoch q;
       assert_opt (epoch \<noteq> - 1);
       let q = q\<lparr>pq_next_epoch := epoch + 1\<rparr>;
       let item = \<lparr>it_key = k, it_value = v, it_epoch = epoch\<rparr>;
       Some (q\<lparr>pq_heap := item # pq_heap q\<rparr>)
     }"

definition pq_pull ::
    "('k::linorder, 'v) priority_queue \<Rightarrow> ('k \<times> 'v) option \<times> ('k, 'v) priority_queue" where
  "pq_pull q =
     (case heap_pop (pq_heap q) of
        None \<Rightarrow> (None, q)
      | Some (i, h) \<Rightarrow> (Some (it_key i, it_value i), q\<lparr>pq_heap := h\<rparr>))"

definition pq_peek :: "('k::linorder, 'v) priority_queue \<Rightarrow> ('k \<times> 'v) option" where
  "pq_peek q = map_option (\<lambda>i. (it_key i, it_value i)) (heap_peek (pq_heap q))"

section \<open>Invariant and contents\<close>

definition pq_entries :: "('k, 'v) priority_queue \<Rightarrow> ('k unique_key \<times> 'v) list" where
  "pq_entries q = map (\<lambda>i. (item_ukey i, it_value i)) (pq_heap q)"

definition pq_invar :: "('k, 'v) priority_queue \<Rightarrow> bool" where
  "pq_invar q \<longleftrightarrow> distinct (map it_epoch (pq_heap q)) \<and>
     (\<forall>i \<in> set (pq_heap q). it_epoch i < pq_next_epoch q)"

definition pq_contents :: "('k::linorder, 'v) priority_queue \<Rightarrow> ('k \<times> 'v) list" where
  "pq_contents q = fifo_of (pq_entries q)"

lemma pq_invar_distinct: "pq_invar q \<Longrightarrow> distinct (map fst (pq_entries q))"
  by (auto simp: pq_invar_def pq_entries_def distinct_map inj_on_def)

lemma pq_insert_refines:
  assumes "pq_invar q" "pq_next_epoch q \<noteq> - 1"
  shows "\<exists>q'. pq_insert k v q = Some q' \<and> pq_invar q' \<and>
    pq_contents q' = fifo_insert k v (pq_contents q) \<and> pq_next_epoch q' = pq_next_epoch q + 1"
proof -
  let ?i = "\<lparr>it_key = k, it_value = v, it_epoch = pq_next_epoch q\<rparr>"
  let ?q' = "q\<lparr>pq_heap := ?i # pq_heap q, pq_next_epoch := pq_next_epoch q + 1\<rparr>"
  have lt: "pq_next_epoch q < pq_next_epoch q + 1" using assms(2) by (rule word_less_plus_one)
  have "pq_insert k v q = Some ?q'" using assms(2) by (simp add: pq_insert_def Let_def)
  moreover have "pq_invar ?q'"
    using assms(1) lt by (auto simp: pq_invar_def intro: order.strict_trans)
  moreover have "pq_contents ?q' = fifo_insert k v (pq_contents q)"
    using assms(1) by (simp add: pq_contents_def pq_entries_def pq_invar_def fifo_of_insert)
  ultimately show ?thesis by simp
qed

lemma pq_pull_refines:
  assumes "pq_invar q"
  shows "\<exists>q'. pq_pull q = (case pq_contents q of [] \<Rightarrow> None | p # _ \<Rightarrow> Some p, q') \<and>
    pq_invar q' \<and> pq_contents q' = tl (pq_contents q) \<and> pq_next_epoch q' = pq_next_epoch q"
proof (cases "heap_pop (pq_heap q)")
  case None
  with assms show ?thesis
    by (auto simp: heap_pop_None pq_pull_def pq_contents_def pq_entries_def)
next
  case (Some p)
  obtain i h where p: "p = (i, h)" by force
  let ?q' = "q\<lparr>pq_heap := h\<rparr>"
  have m: "mset (pq_heap q) = add_mset i (mset h)" using Some p heap_pop_mset by simp
  have d: "distinct (map it_epoch (i # h))"
    using assms m unfolding pq_invar_def
    by (metis distinct_map mset.simps(2) mset_eq_imp_distinct_iff mset_eq_setD)
  have "set (pq_heap q) = insert i (set h)"
    using m by (metis set_mset_add_mset_insert set_mset_mset)
  then have inv: "pq_invar ?q'"
    using assms d by (simp add: pq_invar_def)
  have me: "mset (pq_entries q) = add_mset (item_ukey i, it_value i) (mset (pq_entries ?q'))"
    using m by (simp add: pq_entries_def)
  have least: "\<forall>e \<in> set (pq_entries ?q'). item_ukey i < fst e"
    using heap_pop_least [of "pq_heap q" i h] Some p d
    by (fastforce simp: pq_entries_def less_le)
  have c: "pq_contents q = (it_key i, it_value i) # pq_contents ?q'"
    unfolding pq_contents_def using fifo_of_min [OF me least pq_invar_distinct [OF assms]] by simp
  from Some p inv c show ?thesis by (simp add: pq_pull_def)
qed

lemma pq_peek_pull: "pq_peek q = fst (pq_pull q)"
  by (simp add: pq_peek_def heap_peek_def pq_pull_def split: option.splits prod.splits)

interpretation pq: fifo_queue pq_new pq_insert "\<lambda>q. Some (pq_pull q)" "\<lambda>q. Some (pq_peek q)"
  pq_invar pq_contents pq_next_epoch
proof unfold_locales
  fix q :: "('k::linorder, 'v) priority_queue" and k v
  show "pq_invar pq_new" "pq_contents pq_new = []" "pq_next_epoch pq_new = 0"
    by (simp_all add: pq_new_def pq_invar_def pq_contents_def pq_entries_def)
  show "\<exists>q'. pq_insert k v q = Some q' \<and> pq_invar q' \<and>
      pq_contents q' = fifo_insert k v (pq_contents q) \<and> pq_next_epoch q' = pq_next_epoch q + 1"
    if "pq_invar q" "pq_next_epoch q \<noteq> - 1"
    using that by (rule pq_insert_refines)
  show "pq_insert k v q = None" if "pq_next_epoch q = - 1"
    using that by (simp add: pq_insert_def)
  show "\<exists>q'. Some (pq_pull q) = Some (case pq_contents q of [] \<Rightarrow> None | p # _ \<Rightarrow> Some p, q') \<and>
      pq_invar q' \<and> pq_contents q' = tl (pq_contents q) \<and> pq_next_epoch q' = pq_next_epoch q"
    if "pq_invar q"
    using pq_pull_refines [OF that] by simp
  show "Some (pq_peek q) = Some (case pq_contents q of [] \<Rightarrow> None | p # _ \<Rightarrow> Some p)"
    if "pq_invar q"
    using pq_pull_refines [OF that] pq_peek_pull [of q] by auto
qed

section \<open>Properties\<close>

text \<open>C3. Starting from an empty queue, every sequence of insertions, pulls and peeks with fewer
  than \<open>2 ^ 64\<close> insertions runs without a panic and returns what the sorted list with
  first-in first-out ties returns.\<close>

theorem pq_refines_fifo:
  assumes "count_inserts ops < 2 ^ 64"
  shows "\<exists>q. run_ops pq_insert (\<lambda>q. Some (pq_pull q)) (\<lambda>q. Some (pq_peek q)) ops pq_new =
      Some (fst (fifo_run ops []), q) \<and> pq_invar q \<and> pq_contents q = snd (fifo_run ops [])"
  using assms by (rule pq.run_ops_empty)

theorem pq_refines_fifo_witness:
  "\<exists>q. run_ops pq_insert (\<lambda>q. Some (pq_pull q)) (\<lambda>q. Some (pq_peek q))
      [Insert (5 :: nat) ''b'', Insert 4 ''a'', Pull, Insert 5 ''c'', Peek, Pull, Pull] pq_new =
      Some ([Some (4, ''a''), Some (5, ''b''), Some (5, ''b''), Some (5, ''c'')], q) \<and>
    pq_invar q \<and> pq_contents q = []"
  using pq_refines_fifo [of "[Insert (5 :: nat) ''b'', Insert 4 ''a'', Pull, Insert 5 ''c'', Peek, Pull, Pull]"]
  by (simp add: hd_opt_def)

text \<open>Inserting a list of pairs into an empty queue and pulling as often returns the pairs sorted
  by key, those with equal keys in the order of insertion.\<close>

lemma pq_sorts_stably:
  assumes "length kvs < 2 ^ 64"
  shows "\<exists>q. run_ops pq_insert (\<lambda>q. Some (pq_pull q)) (\<lambda>q. Some (pq_peek q))
      (map (\<lambda>(k, v). Insert k v) kvs @ replicate (length kvs) Pull) pq_new =
      Some (map Some (sort_key fst kvs), q) \<and> pq_contents q = []"
  using pq.run_ops_empty [of "map (\<lambda>(k, v). Insert k v) kvs @ replicate (length kvs) Pull"] assms
  by (auto simp: count_inserts_inserts fifo_run_sorts)

lemma pq_sorts_stably_example:
  "\<exists>q. run_ops pq_insert (\<lambda>q. Some (pq_pull q)) (\<lambda>q. Some (pq_peek q))
      [Insert (2 :: nat) ''x'', Insert 1 ''y'', Insert 1 ''z'', Pull, Pull, Pull] pq_new =
      Some ([Some (1, ''y''), Some (1, ''z''), Some (2, ''x'')], q) \<and> pq_contents q = []"
  using pq_sorts_stably [of "[(2 :: nat, ''x''), (1, ''y''), (1, ''z'')]"]
  by (simp add: numeral_3_eq_3)

end
