(* ===== verification/Scheduler.thy ===== *)
theory Scheduler
  imports Priority_Queue "HOL-Library.Product_Lexorder"
begin

text \<open>
  The event scheduler, \<^verbatim>\<open>asynchronix/src/simulation/scheduler.rs\<close>: actions, action keys,
  the scheduling functions of \<^verbatim>\<open>Scheduler\<close> and \<^verbatim>\<open>LocalScheduler\<close>, with the identifiers of
  channels that take part in the ordering of simultaneous events.

  The simulation time \<^verbatim>\<open>MonotonicTime\<close> comes from the crate \<^verbatim>\<open>tai_time\<close>; it is a linearly
  ordered type \<open>'t\<close> and its addition of a duration, which panics on overflow, is the parameter
  \<open>tadd\<close>. \<open>time_add_ok\<close> states what the scheduler relies on: adding a positive duration gives a
  later time. A \<^verbatim>\<open>Duration\<close> is its number of nanoseconds. The shared flags behind action keys are
  a store of booleans, a key being an index. The mutex around the queue makes every scheduling
  call atomic.
\<close>

type_synonym duration = nat
type_synonym channel_id = nat
type_synonym action_key = nat

definition time_add_ok :: "('t::linorder \<Rightarrow> duration \<Rightarrow> 't option) \<Rightarrow> bool" where
  "time_add_ok tadd \<longleftrightarrow> (\<forall>t d t'. 0 < d \<longrightarrow> tadd t d = Some t' \<longrightarrow> t < t')"

section \<open>Actions\<close>

text \<open>
  The futures that actions yield: an event sent to a model's channel, the same gated by a key
  that is read when the event is delivered, and the broadcast of an event source.
\<close>

datatype 'e fut =
  ProcessEvent channel_id 'e
| SendKeyedEvent action_key channel_id 'e
| Broadcast 'e

datatype 'e action =
  OnceAction "'e fut"
| PeriodicAction "'e fut" duration
| KeyedOnceAction "action_key \<Rightarrow> 'e fut" action_key
| KeyedPeriodicAction "action_key \<Rightarrow> 'e fut" duration action_key

text \<open>Reading a flag; \<^verbatim>\<open>Arc\<close> keeps the cell of every live key allocated.\<close>

definition key_is_cancelled :: "bool list \<Rightarrow> action_key \<Rightarrow> bool" where
  "key_is_cancelled flags k \<longleftrightarrow> k < length flags \<and> flags ! k"

primrec action_is_cancelled :: "bool list \<Rightarrow> 'e action \<Rightarrow> bool" where
  "action_is_cancelled flags (OnceAction f) \<longleftrightarrow> False"
| "action_is_cancelled flags (PeriodicAction f p) \<longleftrightarrow> False"
| "action_is_cancelled flags (KeyedOnceAction gen k) \<longleftrightarrow> key_is_cancelled flags k"
| "action_is_cancelled flags (KeyedPeriodicAction gen p k) \<longleftrightarrow> key_is_cancelled flags k"

primrec action_next :: "'e action \<Rightarrow> ('e action \<times> duration) option" where
  "action_next (OnceAction f) = None"
| "action_next (PeriodicAction f p) = Some (PeriodicAction f p, p)"
| "action_next (KeyedOnceAction gen k) = None"
| "action_next (KeyedPeriodicAction gen p k) = Some (KeyedPeriodicAction gen p k, p)"

primrec into_future :: "'e action \<Rightarrow> 'e fut" where
  "into_future (OnceAction f) = f"
| "into_future (PeriodicAction f p) = f"
| "into_future (KeyedOnceAction gen k) = gen k"
| "into_future (KeyedPeriodicAction gen p k) = gen k"

text \<open>The events a future delivers to models when it is polled.\<close>

primrec delivers :: "bool list \<Rightarrow> 'e fut \<Rightarrow> (channel_id option \<times> 'e) list" where
  "delivers flags (ProcessEvent ch e) = [(Some ch, e)]"
| "delivers flags (SendKeyedEvent k ch e) =
     (if \<not> key_is_cancelled flags k then [(Some ch, e)] else [])"
| "delivers flags (Broadcast e) = [(None, e)]"

lemma action_next_cancelled:
  "action_next a = Some (a', p) \<Longrightarrow> action_is_cancelled flags a' = action_is_cancelled flags a"
  by (cases a) auto

lemma action_next_same:
  "action_next a = Some (a', p) \<Longrightarrow> a' = a"
  by (cases a) auto

section \<open>Channel identifiers\<close>

text \<open>\<^verbatim>\<open>Inner::new\<close> draws the identifier of a channel from the counter \<^verbatim>\<open>NEXT_CHANNEL_ID\<close>.\<close>

definition next_channel_id_init :: nat where
  "next_channel_id_init = 0"

definition channel_new :: "nat \<Rightarrow> channel_id \<times> nat" where
  "channel_new counter = (counter, counter + 1)"

section \<open>Scheduler\<close>

type_synonym ('t, 'e) scheduler_queue = "('t \<times> channel_id, 'e action) priority_queue"

record ('t, 'e) scheduler =
  sched_queue :: "('t, 'e) scheduler_queue"
  sched_time :: 't
  key_flags :: "bool list"

datatype scheduling_error = InvalidScheduledTime | NullRepetitionPeriod

datatype 't deadline = DeadlineDuration duration | DeadlineTime 't

primrec into_time :: "('t \<Rightarrow> duration \<Rightarrow> 't option) \<Rightarrow> 't deadline \<Rightarrow> 't \<Rightarrow> 't option" where
  "into_time tadd (DeadlineDuration d) now = tadd now d"
| "into_time tadd (DeadlineTime t) now = Some t"

text \<open>Action keys.\<close>

definition key_new :: "('t, 'e) scheduler \<Rightarrow> action_key \<times> ('t, 'e) scheduler" where
  "key_new s = (length (key_flags s), s\<lparr>key_flags := key_flags s @ [False]\<rparr>)"

definition key_cancel :: "action_key \<Rightarrow> ('t, 'e) scheduler \<Rightarrow> ('t, 'e) scheduler" where
  "key_cancel k s = s\<lparr>key_flags := (key_flags s)[k := True]\<rparr>"

text \<open>Dropping a managed key (\<^verbatim>\<open>into_auto\<close>) cancels as well.\<close>

definition auto_key_drop :: "action_key \<Rightarrow> ('t, 'e) scheduler \<Rightarrow> ('t, 'e) scheduler" where
  "auto_key_drop k s = s\<lparr>key_flags := (key_flags s)[k := True]\<rparr>"

definition enqueue ::
    "'t::linorder \<times> channel_id \<Rightarrow> 'e action \<Rightarrow> ('t, 'e) scheduler \<Rightarrow> ('t, 'e) scheduler option" where
  "enqueue key action s =
     do { q \<leftarrow> pq_insert key action (sched_queue s); Some (s\<lparr>sched_queue := q\<rparr>) }"

definition schedule ::
    "('t::linorder \<Rightarrow> duration \<Rightarrow> 't option) \<Rightarrow> 't deadline \<Rightarrow> 'e action \<Rightarrow> ('t, 'e) scheduler \<Rightarrow>
       ((scheduling_error + unit) \<times> ('t, 'e) scheduler) option" where
  "schedule tadd deadline action s =
     do {
       let now = sched_time s;
       time \<leftarrow> into_time tadd deadline now;
       if now \<ge> time then Some (Inl InvalidScheduledTime, s)
       else do {
         s \<leftarrow> enqueue (time, 0) action s;
         Some (Inr (), s)
       }
     }"

definition schedule_event ::
    "('t::linorder \<Rightarrow> duration \<Rightarrow> 't option) \<Rightarrow> 't deadline \<Rightarrow> 'e \<Rightarrow> channel_id \<Rightarrow> ('t, 'e) scheduler \<Rightarrow>
       ((scheduling_error + unit) \<times> ('t, 'e) scheduler) option" where
  "schedule_event tadd deadline ev channel s =
     do {
       let now = sched_time s;
       time \<leftarrow> into_time tadd deadline now;
       if now \<ge> time then Some (Inl InvalidScheduledTime, s)
       else do {
         let action = OnceAction (ProcessEvent channel ev);
         s \<leftarrow> enqueue (time, channel) action s;
         Some (Inr (), s)
       }
     }"

definition schedule_keyed_event ::
    "('t::linorder \<Rightarrow> duration \<Rightarrow> 't option) \<Rightarrow> 't deadline \<Rightarrow> 'e \<Rightarrow> channel_id \<Rightarrow> ('t, 'e) scheduler \<Rightarrow>
       ((scheduling_error + action_key) \<times> ('t, 'e) scheduler) option" where
  "schedule_keyed_event tadd deadline ev channel s =
     do {
       let now = sched_time s;
       time \<leftarrow> into_time tadd deadline now;
       if now \<ge> time then Some (Inl InvalidScheduledTime, s)
       else do {
         let (event_key, s) = key_new s;
         let action = KeyedOnceAction (\<lambda>ek. SendKeyedEvent ek channel ev) event_key;
         s \<leftarrow> enqueue (time, channel) action s;
         Some (Inr event_key, s)
       }
     }"

definition schedule_periodic_event ::
    "('t::linorder \<Rightarrow> duration \<Rightarrow> 't option) \<Rightarrow> 't deadline \<Rightarrow> duration \<Rightarrow> 'e \<Rightarrow> channel_id \<Rightarrow>
       ('t, 'e) scheduler \<Rightarrow> ((scheduling_error + unit) \<times> ('t, 'e) scheduler) option" where
  "schedule_periodic_event tadd deadline period ev channel s =
     do {
       let now = sched_time s;
       time \<leftarrow> into_time tadd deadline now;
       if now \<ge> time then Some (Inl InvalidScheduledTime, s)
       else if period = 0 then Some (Inl NullRepetitionPeriod, s)
       else do {
         let action = PeriodicAction (ProcessEvent channel ev) period;
         s \<leftarrow> enqueue (time, channel) action s;
         Some (Inr (), s)
       }
     }"

definition schedule_keyed_periodic_event ::
    "('t::linorder \<Rightarrow> duration \<Rightarrow> 't option) \<Rightarrow> 't deadline \<Rightarrow> duration \<Rightarrow> 'e \<Rightarrow> channel_id \<Rightarrow>
       ('t, 'e) scheduler \<Rightarrow> ((scheduling_error + action_key) \<times> ('t, 'e) scheduler) option" where
  "schedule_keyed_periodic_event tadd deadline period ev channel s =
     do {
       let now = sched_time s;
       time \<leftarrow> into_time tadd deadline now;
       if now \<ge> time then Some (Inl InvalidScheduledTime, s)
       else if period = 0 then Some (Inl NullRepetitionPeriod, s)
       else do {
         let (event_key, s) = key_new s;
         let action = KeyedPeriodicAction (\<lambda>ek. SendKeyedEvent ek channel ev) period event_key;
         s \<leftarrow> enqueue (time, channel) action s;
         Some (Inr event_key, s)
       }
     }"

text \<open>\<^verbatim>\<open>LocalScheduler\<close>: the scheduler bound to the address of one model.\<close>

record local_scheduler =
  ls_address :: channel_id

definition local_schedule_event ::
    "local_scheduler \<Rightarrow> ('t::linorder \<Rightarrow> duration \<Rightarrow> 't option) \<Rightarrow> 't deadline \<Rightarrow> 'e \<Rightarrow> ('t, 'e) scheduler \<Rightarrow>
       ((scheduling_error + unit) \<times> ('t, 'e) scheduler) option" where
  "local_schedule_event ls tadd deadline ev s = schedule_event tadd deadline ev (ls_address ls) s"

definition local_schedule_keyed_event ::
    "local_scheduler \<Rightarrow> ('t::linorder \<Rightarrow> duration \<Rightarrow> 't option) \<Rightarrow> 't deadline \<Rightarrow> 'e \<Rightarrow> ('t, 'e) scheduler \<Rightarrow>
       ((scheduling_error + action_key) \<times> ('t, 'e) scheduler) option" where
  "local_schedule_keyed_event ls tadd deadline ev s =
     schedule_keyed_event tadd deadline ev (ls_address ls) s"

definition local_schedule_periodic_event ::
    "local_scheduler \<Rightarrow> ('t::linorder \<Rightarrow> duration \<Rightarrow> 't option) \<Rightarrow> 't deadline \<Rightarrow> duration \<Rightarrow> 'e \<Rightarrow>
       ('t, 'e) scheduler \<Rightarrow> ((scheduling_error + unit) \<times> ('t, 'e) scheduler) option" where
  "local_schedule_periodic_event ls tadd deadline period ev s =
     schedule_periodic_event tadd deadline period ev (ls_address ls) s"

definition local_schedule_keyed_periodic_event ::
    "local_scheduler \<Rightarrow> ('t::linorder \<Rightarrow> duration \<Rightarrow> 't option) \<Rightarrow> 't deadline \<Rightarrow> duration \<Rightarrow> 'e \<Rightarrow>
       ('t, 'e) scheduler \<Rightarrow> ((scheduling_error + action_key) \<times> ('t, 'e) scheduler) option" where
  "local_schedule_keyed_periodic_event ls tadd deadline period ev s =
     schedule_keyed_periodic_event tadd deadline period ev (ls_address ls) s"

section \<open>Invariant\<close>

abbreviation queued :: "('t::linorder, 'e) scheduler \<Rightarrow> (('t \<times> channel_id) \<times> 'e action) list" where
  "queued s \<equiv> pq_contents (sched_queue s)"

definition positive_period :: "'e action \<Rightarrow> bool" where
  "positive_period a \<longleftrightarrow> (case action_next a of None \<Rightarrow> True | Some (_, p) \<Rightarrow> 0 < p)"

text \<open>
  Everything in the queue lies in the future: this is what every call keeps. That recurring actions
  advance time is a property of the actions that were scheduled; \<^verbatim>\<open>schedule\<close> does not check it.
\<close>

definition sched_wf :: "('t::linorder, 'e) scheduler \<Rightarrow> bool" where
  "sched_wf s \<longleftrightarrow> pq_invar (sched_queue s) \<and> (\<forall>(k, a) \<in> set (queued s). sched_time s < fst k)"

definition sched_ok :: "('t::linorder, 'e) scheduler \<Rightarrow> bool" where
  "sched_ok s \<longleftrightarrow> pq_invar (sched_queue s) \<and>
     (\<forall>(k, a) \<in> set (queued s). sched_time s < fst k \<and> positive_period a)"

lemma sched_ok_iff: "sched_ok s \<longleftrightarrow> sched_wf s \<and> (\<forall>(k, a) \<in> set (queued s). positive_period a)"
  by (auto simp: sched_ok_def sched_wf_def)

text \<open>What the invariant needs of a successful or refused scheduling call.\<close>

lemma enqueue_wf:
  assumes "sched_wf s" "enqueue key a s = Some s'" "sched_time s < fst key"
  shows "sched_wf s'" "queued s' = fifo_insert key a (queued s)" "sched_time s' = sched_time s"
    "key_flags s' = key_flags s"
proof -
  from assms(2) obtain q where q: "pq_insert key a (sched_queue s) = Some q" "s' = s\<lparr>sched_queue := q\<rparr>"
    by (auto simp: enqueue_def split: bind_splits)
  then have "pq_next_epoch (sched_queue s) \<noteq> - 1" by (auto simp: pq_insert_def)
  with pq.insert_law [of "sched_queue s" key a] assms(1) q have
    "pq_invar q" "pq_contents q = fifo_insert key a (queued s)"
    by (auto simp: sched_wf_def)
  with q assms show "sched_wf s'" "queued s' = fifo_insert key a (queued s)"
    "sched_time s' = sched_time s" "key_flags s' = key_flags s"
    by (auto simp: sched_wf_def)
qed

lemma enqueue_ok:
  assumes "sched_ok s" "enqueue key a s = Some s'" "sched_time s < fst key" "positive_period a"
  shows "sched_ok s'" "queued s' = fifo_insert key a (queued s)" "sched_time s' = sched_time s"
    "key_flags s' = key_flags s"
proof -
  have wf: "sched_wf s" using assms(1) by (simp add: sched_ok_iff)
  note e = enqueue_wf [OF wf assms(2,3)]
  show "queued s' = fifo_insert key a (queued s)" "sched_time s' = sched_time s" "key_flags s' = key_flags s"
    by (rule e)+
  show "sched_ok s'" using e(1,2) assms(1,4) by (auto simp: sched_ok_iff)
qed

lemma sched_wf_flags [simp]: "sched_wf (s\<lparr>key_flags := fs\<rparr>) = sched_wf s"
  by (simp add: sched_wf_def)

lemma sched_ok_flags [simp]: "sched_ok (s\<lparr>key_flags := fs\<rparr>) = sched_ok s"
  by (simp add: sched_ok_def)

text \<open>The calls a model can make on the scheduler while the simulation runs.\<close>

inductive api_step ::
    "('t::linorder \<Rightarrow> duration \<Rightarrow> 't option) \<Rightarrow> ('t, 'e) scheduler \<Rightarrow> ('t, 'e) scheduler \<Rightarrow> bool"
  for tadd where
  api_schedule: "schedule tadd dl a s = Some (r, s') \<Longrightarrow> api_step tadd s s'"
| api_event: "schedule_event tadd dl ev ch s = Some (r, s') \<Longrightarrow> api_step tadd s s'"
| api_keyed: "schedule_keyed_event tadd dl ev ch s = Some (r', s') \<Longrightarrow> api_step tadd s s'"
| api_periodic: "schedule_periodic_event tadd dl p ev ch s = Some (r, s') \<Longrightarrow> api_step tadd s s'"
| api_keyed_periodic:
    "schedule_keyed_periodic_event tadd dl p ev ch s = Some (r', s') \<Longrightarrow> api_step tadd s s'"
| api_cancel: "api_step tadd s (key_cancel k s)"
| api_drop: "api_step tadd s (auto_key_drop k s)"

inductive api_run ::
    "('t::linorder \<Rightarrow> duration \<Rightarrow> 't option) \<Rightarrow> ('t, 'e) scheduler \<Rightarrow> ('t, 'e) scheduler \<Rightarrow> bool"
  for tadd where
  api_done: "api_run tadd s s"
| api_more: "api_step tadd s s1 \<Longrightarrow> api_run tadd s1 s2 \<Longrightarrow> api_run tadd s s2"

text \<open>
  The shape shared by all scheduling calls: refuse, or enqueue one future action, which advances time
  if it recurs, unless it was queued by \<^verbatim>\<open>schedule\<close> under channel 0.
\<close>

definition refused_or_enqueued :: "('t::linorder, 'e) scheduler \<Rightarrow> ('t, 'e) scheduler \<Rightarrow> bool" where
  "refused_or_enqueued s s' \<longleftrightarrow> s' = s \<or>
     (\<exists>key a fs. sched_time s < fst key \<and> (positive_period a \<or> snd key = 0) \<and>
        (\<exists>new. fs = key_flags s @ new \<and> True \<notin> set new) \<and> enqueue key a (s\<lparr>key_flags := fs\<rparr>) = Some s')"

lemma positive_period_simps [simp]:
  "positive_period (OnceAction f)" "positive_period (KeyedOnceAction gen k)"
  "positive_period (PeriodicAction f p) \<longleftrightarrow> 0 < p"
  "positive_period (KeyedPeriodicAction gen p k) \<longleftrightarrow> 0 < p"
  by (simp_all add: positive_period_def)

lemma refused_or_enqueued_intros:
  "refused_or_enqueued s s"
  "enqueue key a s = Some s' \<Longrightarrow> sched_time s < fst key \<Longrightarrow> positive_period a \<or> snd key = 0 \<Longrightarrow> refused_or_enqueued s s'"
  "enqueue key a (snd (key_new s)) = Some s' \<Longrightarrow> sched_time s < fst key \<Longrightarrow> positive_period a \<or> snd key = 0 \<Longrightarrow>
     refused_or_enqueued s s'"
proof -
  show "refused_or_enqueued s s" by (simp add: refused_or_enqueued_def)
  show "refused_or_enqueued s s'"
    if "enqueue key a s = Some s'" "sched_time s < fst key" "positive_period a \<or> snd key = 0"
    unfolding refused_or_enqueued_def using that
    by (intro disjI2 exI [of _ key] exI [of _ a] exI [of _ "key_flags s"]) simp
  show "refused_or_enqueued s s'"
    if "enqueue key a (snd (key_new s)) = Some s'" "sched_time s < fst key" "positive_period a \<or> snd key = 0"
    unfolding refused_or_enqueued_def using that
    by (intro disjI2 exI [of _ key] exI [of _ a] exI [of _ "key_flags s @ [False]"])
      (simp add: key_new_def)
qed

lemmas schedule_defs = schedule_def schedule_event_def schedule_keyed_event_def
  schedule_periodic_event_def schedule_keyed_periodic_event_def

lemma schedule_calls:
  "schedule tadd dl a s = Some (r, s') \<Longrightarrow> refused_or_enqueued s s'"
  "schedule_event tadd dl ev ch s = Some (r, s') \<Longrightarrow> refused_or_enqueued s s'"
  "schedule_keyed_event tadd dl ev ch s = Some (r', s') \<Longrightarrow> refused_or_enqueued s s'"
  "schedule_periodic_event tadd dl p ev ch s = Some (r, s') \<Longrightarrow> refused_or_enqueued s s'"
  "schedule_keyed_periodic_event tadd dl p ev ch s = Some (r', s') \<Longrightarrow> refused_or_enqueued s s'"
  by (auto simp: schedule_defs Let_def case_prod_beta not_le
      split: bind_splits if_splits intro: refused_or_enqueued_intros)

lemma key_is_cancelled_append:
  assumes "True \<notin> set new"
  shows "key_is_cancelled (fs @ new) k = key_is_cancelled fs k"
proof -
  have "\<not> new ! j" if "j < length new" for j
    using assms nth_mem [OF that] by (metis (full_types))
  then show ?thesis by (auto simp: key_is_cancelled_def nth_append)
qed

lemma key_is_cancelled_update:
  "key_is_cancelled fs k \<Longrightarrow> key_is_cancelled (fs[j := True]) k"
  by (cases "k = j") (auto simp: key_is_cancelled_def)

text \<open>What one call, and any sequence of calls, keeps.\<close>

definition calls_keep :: "('t::linorder, 'e) scheduler \<Rightarrow> ('t, 'e) scheduler \<Rightarrow> bool" where
  "calls_keep s s' \<longleftrightarrow> sched_wf s' \<and> sched_time s' = sched_time s \<and> mset (queued s) \<subseteq># mset (queued s') \<and>
     (\<forall>(k, a) \<in> set (queued s'). positive_period a \<or> snd k = 0 \<or> (k, a) \<in> set (queued s))"

lemma refused_or_enqueued_keeps:
  assumes "refused_or_enqueued s s'" "sched_wf s"
  shows "calls_keep s s'"
proof -
  consider "s' = s" | key a new where "sched_time s < fst key" "positive_period a \<or> snd key = 0"
    "enqueue key a (s\<lparr>key_flags := key_flags s @ new\<rparr>) = Some s'"
    using assms(1) unfolding refused_or_enqueued_def by blast
  then show ?thesis
  proof cases
    case 2
    let ?s = "s\<lparr>key_flags := key_flags s @ new\<rparr>"
    have "sched_wf ?s" "sched_time ?s < fst key" using assms(2) 2(1) by simp_all
    from enqueue_wf [OF this(1) 2(3) this(2)] 2(2) show ?thesis
      by (auto simp: calls_keep_def)
  qed (use assms(2) in \<open>auto simp: calls_keep_def\<close>)
qed

lemma refused_or_enqueued_flags:
  assumes "refused_or_enqueued s s'"
  shows "key_is_cancelled (key_flags s') k = key_is_cancelled (key_flags s) k"
  using assms by (auto simp: refused_or_enqueued_def enqueue_def key_is_cancelled_append split: bind_splits)

lemma api_step_shape:
  "api_step tadd s s' \<Longrightarrow>
     refused_or_enqueued s s' \<or> (\<exists>j. s' = s\<lparr>key_flags := (key_flags s)[j := True]\<rparr>)"
  by (induction rule: api_step.induct)
    (simp_all add: schedule_calls, auto simp: key_cancel_def auto_key_drop_def)

lemma api_step_keeps:
  assumes "api_step tadd s s'" "sched_wf s"
  shows "calls_keep s s'"
  using api_step_shape [OF assms(1)] refused_or_enqueued_keeps [OF _ assms(2)] assms(2)
  by (auto simp: calls_keep_def)

lemma api_run_keeps: "api_run tadd s s' \<Longrightarrow> sched_wf s \<Longrightarrow> calls_keep s s'"
proof (induction rule: api_run.induct)
  case (api_more s s1 s2)
  note k1 = api_step_keeps [OF api_more.hyps(1) api_more.prems]
  then have k2: "calls_keep s1 s2" using api_more.IH by (simp add: calls_keep_def)
  have "mset (queued s) \<subseteq># mset (queued s2)" using k1 k2 by (auto simp: calls_keep_def intro: subset_mset.order_trans)
  with k1 k2 show ?case by (fastforce simp: calls_keep_def)
qed (auto simp: calls_keep_def)

text \<open>Nobody takes a cancellation back.\<close>

lemma api_step_cancelled:
  "api_step tadd s s' \<Longrightarrow> key_is_cancelled (key_flags s) k \<Longrightarrow> key_is_cancelled (key_flags s') k"
  using api_step_shape [of tadd s s'] refused_or_enqueued_flags [of s s' k] by (auto simp: key_is_cancelled_update)

lemma api_run_cancelled:
  "api_run tadd s s' \<Longrightarrow> key_is_cancelled (key_flags s) k \<Longrightarrow> key_is_cancelled (key_flags s') k"
  by (induction rule: api_run.induct) (auto dest: api_step_cancelled)

end
