(* ===== verification/Simulation.thy ===== *)
theory Simulation
  imports Scheduler
begin

text \<open>
  The stepping of simulation time, \<^verbatim>\<open>asynchronix/src/simulation.rs\<close>, and the sequential
  composition of futures, \<^verbatim>\<open>asynchronix/src/util/seq_futures.rs\<close>.

  \<open>step_to_next_bounded\<close> is split at the point where the source releases the queue: the
  model computes the tasks handed to the executor (a \<open>plan\<close>), the new time and the queue, as the
  source does while it holds the mutex. What the executor then runs is a relation
  (\<open>executor_run\<close>): the tasks are interleaved arbitrarily, a task's futures run in sequence, and
  a model that receives an event may make any calls on the scheduler (\<open>api_run\<close>). The loops are
  \<open>partial_function\<close>s, so that not returning and panicking are both \<open>None\<close>; that they return
  is proved.
\<close>

section \<open>Sequential futures\<close>

record 'f seq_future =
  sf_inner :: "'f list"
  sf_idx :: usize

definition seq_new :: "'f seq_future" where
  "seq_new = \<lparr>sf_inner = [], sf_idx = 0\<rparr>"

definition seq_push :: "'f \<Rightarrow> 'f seq_future \<Rightarrow> 'f seq_future" where
  "seq_push f sf = sf\<lparr>sf_inner := sf_inner sf @ [f]\<rparr>"

text \<open>
  Polling an inner future is a parameter: it returns whether the future is ready, the future
  and the rest of the world. \<open>Some True\<close> is \<^verbatim>\<open>Poll::Ready\<close>, \<open>None\<close> the intended panic when
  polling after completion.
\<close>

function seq_poll ::
    "('f \<Rightarrow> 'w \<Rightarrow> bool \<times> 'f \<times> 'w) \<Rightarrow> 'f seq_future \<Rightarrow> 'w \<Rightarrow> (bool \<times> 'f seq_future \<times> 'w) option" where
  "seq_poll poll sf w =
     do {
       f \<leftarrow> nth_opt (sf_inner sf) (sf_idx sf);
       let (ready, f', w') = poll f w;
       let sf = sf\<lparr>sf_inner := (sf_inner sf)[sf_idx sf := f']\<rparr>;
       if ready then
         let sf = sf\<lparr>sf_idx := sf_idx sf + 1\<rparr> in
         if sf_idx sf = length (sf_inner sf) then Some (True, sf, w')
         else seq_poll poll sf w'
       else Some (False, sf, w')
     }"
  by pat_completeness auto
termination
  by (relation "measure (\<lambda>(poll, sf, w). length (sf_inner sf) - sf_idx sf)") (auto simp: panic_simps)

declare seq_poll.simps [simp del]

section \<open>Pulling the next action\<close>

type_synonym 't sched_key = "'t \<times> channel_id"

definition pull_next_action ::
    "('t::linorder \<Rightarrow> duration \<Rightarrow> 't option) \<Rightarrow> ('t, 'e) scheduler_queue \<Rightarrow>
       ('e action \<times> ('t, 'e) scheduler_queue) option" where
  "pull_next_action tadd q =
     (case pq_pull q of
        (None, _) \<Rightarrow> None
      | (Some ((time, channel), action), q) \<Rightarrow>
          (case action_next action of
             Some (action_clone, period) \<Rightarrow>
               do {
                 t \<leftarrow> tadd time period;
                 q \<leftarrow> pq_insert (t, channel) action_clone q;
                 Some (action, q)
               }
           | None \<Rightarrow> Some (action, q)))"

function peek_next_key ::
    "'t::linorder \<Rightarrow> bool list \<Rightarrow> ('t, 'e) scheduler_queue \<Rightarrow>
       't sched_key option \<times> ('t, 'e) scheduler_queue" where
  "peek_next_key upper_time_bound flags q =
     (case pq_peek q of
        Some (key, action) \<Rightarrow>
          if fst key \<le> upper_time_bound then
            if \<not> action_is_cancelled flags action then (Some key, q)
            else peek_next_key upper_time_bound flags (snd (pq_pull q))
          else (None, q)
      | None \<Rightarrow> (None, q))"
  by pat_completeness auto

lemma pull_shrinks: "pq_peek q = Some x \<Longrightarrow> length (pq_heap (snd (pq_pull q))) < length (pq_heap q)"
  by (auto simp: pq_peek_pull pq_pull_def dest!: heap_pop_mset [THEN arg_cong [of _ _ size]]
      split: option.splits prod.splits)

termination peek_next_key
  by (relation "measure (\<lambda>(b, flags, q). length (pq_heap q))") (auto dest: pull_shrinks)

declare peek_next_key.simps [simp del]

section \<open>One step\<close>

datatype 'e task = SingleTask "'e fut" | SeqTask "'e fut seq_future"

datatype 'e plan = RunFirst "'e fut" | RunAll "'e task list"

text \<open>
  The inner loop, which gathers the actions under the same key (same time, same mailbox) into
  one compound future: one round of it, and the loop, which returns the compound future, the next
  key and the queue.
\<close>

definition gather_round ::
    "('t::linorder \<Rightarrow> duration \<Rightarrow> 't option) \<Rightarrow> 't \<Rightarrow> bool list \<Rightarrow>
       'e fut seq_future \<Rightarrow> ('t, 'e) scheduler_queue \<Rightarrow>
       ('e fut seq_future \<times> 't sched_key option \<times> ('t, 'e) scheduler_queue) option" where
  "gather_round tadd bound flags action_sequence q =
     do {
       (action, q) \<leftarrow> pull_next_action tadd q;
       let action_sequence = seq_push (into_future action) action_sequence;
       let (next_key, q) = peek_next_key bound flags q;
       Some (action_sequence, next_key, q)
     }"

partial_function (option) gather ::
    "('t::linorder \<Rightarrow> duration \<Rightarrow> 't option) \<Rightarrow> 't \<Rightarrow> bool list \<Rightarrow> 't sched_key \<Rightarrow>
       'e fut seq_future \<Rightarrow> ('t, 'e) scheduler_queue \<Rightarrow>
       ('e fut seq_future \<times> 't sched_key option \<times> ('t, 'e) scheduler_queue) option" where
  "gather tadd bound flags current_key action_sequence q =
     do {
       (action_sequence, next_key, q) \<leftarrow> gather_round tadd bound flags action_sequence q;
       if next_key \<noteq> Some current_key then Some (action_sequence, next_key, q)
       else gather tadd bound flags current_key action_sequence q
     }"

text \<open>The outer loop; \<open>spawned\<close> holds the tasks spawned so far.\<close>

partial_function (option) step_loop ::
    "bool \<Rightarrow> ('t::linorder \<Rightarrow> duration \<Rightarrow> 't option) \<Rightarrow> 't \<Rightarrow> bool list \<Rightarrow> bool \<Rightarrow> 't sched_key \<Rightarrow>
       'e task list \<Rightarrow> ('t, 'e) scheduler_queue \<Rightarrow>
       ('e plan \<times> 't \<times> ('t, 'e) scheduler_queue) option" where
  "step_loop inline tadd bound flags first current_key spawned q =
     do {
       (action, q) \<leftarrow> pull_next_action tadd q;
       let (next_key, q) = peek_next_key bound flags q;
       if first \<and> (case next_key of None \<Rightarrow> True | Some k \<Rightarrow> fst k > fst current_key) \<and> inline
       then Some (RunFirst (into_future action), fst current_key, q)
       else do {
         (task, next_key, q) \<leftarrow>
           (if next_key \<noteq> Some current_key
            then Some (SingleTask (into_future action), next_key, q)
            else do {
              (action_sequence, next_key, q) \<leftarrow>
                gather tadd bound flags current_key (seq_push (into_future action) seq_new) q;
              Some (SeqTask action_sequence, next_key, q)
            });
         let spawned = spawned @ [task];
         (case next_key of
            Some k \<Rightarrow>
              if fst k = fst current_key
              then step_loop inline tadd bound flags False k spawned q
              else Some (RunAll spawned, fst current_key, q)
          | None \<Rightarrow> Some (RunAll spawned, fst current_key, q))
       }
     }"

text \<open>The outer \<open>option\<close> is the panic; the inner one the result of the source.\<close>

definition step_to_next_bounded ::
    "bool \<Rightarrow> ('t::linorder \<Rightarrow> duration \<Rightarrow> 't option) \<Rightarrow> 't \<Rightarrow> ('t, 'e) scheduler \<Rightarrow>
       (('e plan \<times> 't) option \<times> ('t, 'e) scheduler) option" where
  "step_to_next_bounded inline tadd upper_time_bound s =
     (case peek_next_key upper_time_bound (key_flags s) (sched_queue s) of
        (None, q) \<Rightarrow> Some (None, s\<lparr>sched_queue := q\<rparr>)
      | (Some current_key, q) \<Rightarrow>
          do {
            (plan, time, q) \<leftarrow>
              step_loop inline tadd upper_time_bound (key_flags s) True current_key [] q;
            Some (Some (plan, time), s\<lparr>sched_queue := q, sched_time := fst current_key\<rparr>)
          })"

section \<open>The queue operations on the contents of the queue\<close>

text \<open>The key a peek returns for a queue with the given contents.\<close>

definition head_key :: "'t::linorder \<Rightarrow> ('t sched_key \<times> 'e action) list \<Rightarrow> 't sched_key option" where
  "head_key b L = (case L of [] \<Rightarrow> None | (k, a) # _ \<Rightarrow> if fst k \<le> b then Some k else None)"

definition skippable :: "'t::linorder \<Rightarrow> bool list \<Rightarrow> 't sched_key \<times> 'e action \<Rightarrow> bool" where
  "skippable b flags e \<longleftrightarrow> fst (fst e) \<le> b \<and> action_is_cancelled flags (snd e)"

lemma sorted_pq_contents: "sorted (map fst (pq_contents q))"
  by (simp add: pq_contents_def sorted_fifo_of)

lemma pq_pull_contents:
  assumes "pq_invar q" "pq_contents q = e # L"
  obtains q' where "pq_pull q = (Some e, q')" "pq_invar q'" "pq_contents q' = L"
    "pq_next_epoch q' = pq_next_epoch q"
  using pq.pull_law [OF assms(1)] assms(2) by auto

lemma peek_next_key_spec:
  "pq_invar q \<Longrightarrow> \<exists>q'. peek_next_key b flags q = (head_key b (pq_contents q'), q') \<and> pq_invar q' \<and>
     pq_next_epoch q' = pq_next_epoch q \<and> pq_contents q' = dropWhile (skippable b flags) (pq_contents q)"
proof (induction b flags q rule: peek_next_key.induct)
  case (1 b flags q)
  show ?case
  proof (cases "pq_contents q")
    case Nil
    with 1(2) pq.peek_law [OF 1(2)] show ?thesis
      by (subst peek_next_key.simps) (simp add: head_key_def)
  next
    case (Cons e L)
    obtain k a where e: "e = (k, a)" by (cases e)
    have peek: "pq_peek q = Some (k, a)" using pq.peek_law [OF 1(2)] Cons e by simp
    show ?thesis
    proof (cases "skippable b flags e")
      case True
      obtain q' where q': "pq_pull q = (Some e, q')" "pq_invar q'" "pq_contents q' = L"
        "pq_next_epoch q' = pq_next_epoch q"
        using pq_pull_contents [OF 1(2) Cons] .
      have "peek_next_key b flags q = peek_next_key b flags q'"
        using peek True e q'(1) by (subst peek_next_key.simps) (simp add: skippable_def)
      with 1(1) [OF peek refl] True e q' Cons show ?thesis
        by (simp add: skippable_def)
    next
      case False
      with peek e Cons 1(2) show ?thesis
        by (subst peek_next_key.simps) (auto simp: skippable_def head_key_def)
    qed
  qed
qed

text \<open>Re-inserting the recurrence of a processed action.\<close>

definition reinsert ::
    "('t::linorder \<Rightarrow> duration \<Rightarrow> 't option) \<Rightarrow> 't sched_key \<times> 'e action \<Rightarrow>
       ('t sched_key \<times> 'e action) list \<Rightarrow> ('t sched_key \<times> 'e action) list" where
  "reinsert tadd e L =
     (case action_next (snd e) of
        None \<Rightarrow> L
      | Some (a, p) \<Rightarrow> fifo_insert (the (tadd (fst (fst e)) p), snd (fst e)) a L)"

lemma pull_next_action_spec:
  assumes inv: "pq_invar q" and c: "pq_contents q = ((t, ch), a) # L"
    and room: "unat (pq_next_epoch q) + 1 < 2 ^ 64"
    and over: "\<And>a' p. action_next a = Some (a', p) \<Longrightarrow> tadd t p \<noteq> None"
  shows "\<exists>q'. pull_next_action tadd q = Some (a, q') \<and> pq_invar q' \<and>
    pq_contents q' = reinsert tadd ((t, ch), a) L \<and> unat (pq_next_epoch q') \<le> unat (pq_next_epoch q) + 1"
proof -
  obtain q1 where q1: "pq_pull q = (Some ((t, ch), a), q1)" "pq_invar q1" "pq_contents q1 = L"
    "pq_next_epoch q1 = pq_next_epoch q"
    using pq_pull_contents [OF inv c] .
  show ?thesis
  proof (cases "action_next a")
    case None
    with q1 show ?thesis by (simp add: pull_next_action_def reinsert_def)
  next
    case (Some x)
    obtain a' p where x: "x = (a', p)" by (cases x)
    with over Some obtain t' where t': "tadd t p = Some t'" by auto
    have ne: "pq_next_epoch q1 \<noteq> - 1"
    proof
      assume "pq_next_epoch q1 = - 1"
      then have "unat (pq_next_epoch q) = 2 ^ 64 - 1" using q1(4) unat_max [where 'a = 64] by simp
      with room show False by simp
    qed
    from pq.insert_law [OF q1(2) ne, of "(t', ch)" a'] obtain q2 where
      "pq_insert (t', ch) a' q1 = Some q2" "pq_invar q2" "pq_contents q2 = fifo_insert (t', ch) a' L"
      "pq_next_epoch q2 = pq_next_epoch q1 + 1"
      using q1(3) by auto
    with q1 Some x t' unat_plus_one [OF ne] show ?thesis
      by (simp add: pull_next_action_def reinsert_def)
  qed
qed

lemma fifo_insert_front: "\<forall>x \<in> set xs. k < fst x \<Longrightarrow> fifo_insert k v xs = (k, v) # xs"
  by (cases xs) auto

lemma filter_fifo_insert_in:
  "sorted (map fst xs) \<Longrightarrow> P (k, v) \<Longrightarrow> filter P (fifo_insert k v xs) = fifo_insert k v (filter P xs)"
proof (induction k v xs rule: fifo_insert.induct)
  case (2 k v k' v' xs)
  show ?case
  proof (cases "k < k'")
    case True
    then have "\<forall>x \<in> set ((k', v') # xs). k < fst x" using 2(2) by (auto intro: less_le_trans)
    then have "fifo_insert k v (filter P ((k', v') # xs)) = (k, v) # filter P ((k', v') # xs)"
      by (intro fifo_insert_front) auto
    with True 2(3) show ?thesis by simp
  next
    case False
    with 2 show ?thesis by simp
  qed
qed simp

lemma filter_fifo_insert_out: "\<not> P (k, v) \<Longrightarrow> filter P (fifo_insert k v xs) = filter P xs"
  by (induction k v xs rule: fifo_insert.induct) auto

section \<open>What a step at time \<open>t\<close> does\<close>

text \<open>The actions due at \<open>t\<close>, and the others, without the cancelled ones.\<close>

definition due :: "'t \<Rightarrow> bool list \<Rightarrow> ('t sched_key \<times> 'e action) list \<Rightarrow> ('t sched_key \<times> 'e action) list" where
  "due t flags L = filter (\<lambda>e. fst (fst e) = t \<and> \<not> action_is_cancelled flags (snd e)) L"

definition kept :: "'t \<Rightarrow> bool list \<Rightarrow> ('t sched_key \<times> 'e action) list \<Rightarrow> ('t sched_key \<times> 'e action) list" where
  "kept t flags L = filter (\<lambda>e. fst (fst e) \<noteq> t \<and> \<not> action_is_cancelled flags (snd e)) L"

definition at_time :: "'t \<Rightarrow> ('t sched_key \<times> 'e action) list \<Rightarrow> nat" where
  "at_time t L = length (filter (\<lambda>e. fst (fst e) = t) L)"

text \<open>Processing the actions \<open>es\<close> leads from contents \<open>L\<close> to \<open>L'\<close>.\<close>

definition advance ::
    "('t::linorder \<Rightarrow> duration \<Rightarrow> 't option) \<Rightarrow> 't \<Rightarrow> bool list \<Rightarrow> ('t sched_key \<times> 'e action) list \<Rightarrow>
       ('t sched_key \<times> 'e action) list \<Rightarrow> ('t sched_key \<times> 'e action) list \<Rightarrow> bool" where
  "advance tadd t flags L es L' \<longleftrightarrow>
     due t flags L = es @ due t flags L' \<and> kept t flags L' = fold (reinsert tadd) es (kept t flags L)"

lemma advance_trans:
  "advance tadd t flags L es L' \<Longrightarrow> advance tadd t flags L' es' L'' \<Longrightarrow>
     advance tadd t flags L (es @ es') L''"
  by (simp add: advance_def)

text \<open>The loop invariant of a step at time \<open>t\<close>.\<close>

definition stepping ::
    "('t::linorder \<Rightarrow> duration \<Rightarrow> 't option) \<Rightarrow> 't \<Rightarrow> ('t, 'e) scheduler_queue \<Rightarrow> bool" where
  "stepping tadd t q \<longleftrightarrow> pq_invar q \<and>
     (\<forall>e \<in> set (pq_contents q). t \<le> fst (fst e) \<and> positive_period (snd e) \<and>
        (\<forall>a p. fst (fst e) = t \<longrightarrow> action_next (snd e) = Some (a, p) \<longrightarrow> tadd t p \<noteq> None)) \<and>
     unat (pq_next_epoch q) + at_time t (pq_contents q) < 2 ^ 64"

lemma due_dropWhile: "due t flags (dropWhile (skippable b flags) L) = due t flags L"
  by (induction L) (auto simp: due_def skippable_def)

lemma kept_dropWhile: "kept t flags (dropWhile (skippable b flags) L) = kept t flags L"
  by (induction L) (auto simp: kept_def skippable_def)

lemma reinsert_later:
  assumes tadd: "time_add_ok tadd" and pos: "positive_period a"
    and nxt: "action_next a = Some (a', p)" and over: "tadd t p \<noteq> None"
  shows "t < the (tadd t p)" "a' = a" "0 < p"
proof -
  show p: "0 < p" using pos nxt by (simp add: positive_period_def)
  with tadd over show "t < the (tadd t p)" by (auto simp: time_add_ok_def)
  show "a' = a" using nxt by (rule action_next_same)
qed

lemma advance_pull:
  assumes tadd: "time_add_ok tadd" and st: "stepping tadd t q" and c: "pq_contents q = ((t, ch), a) # L"
    and live: "\<not> action_is_cancelled flags a"
  shows "advance tadd t flags (pq_contents q) [((t, ch), a)] (reinsert tadd ((t, ch), a) L)"
    and "at_time t (reinsert tadd ((t, ch), a) L) + 1 = at_time t (pq_contents q)"
    and "\<forall>e \<in> set (reinsert tadd ((t, ch), a) L). (t, ch) \<le> fst e \<and> t \<le> fst (fst e) \<and> positive_period (snd e) \<and>
      (\<forall>a p. fst (fst e) = t \<longrightarrow> action_next (snd e) = Some (a, p) \<longrightarrow> tadd t p \<noteq> None)"
proof -
  have sorted: "sorted (map fst L)" and ge: "\<forall>e \<in> set L. (t, ch) \<le> fst e"
    using sorted_pq_contents [of q] c by auto
  have "advance tadd t flags (pq_contents q) [((t, ch), a)] (reinsert tadd ((t, ch), a) L) \<and>
    at_time t (reinsert tadd ((t, ch), a) L) + 1 = at_time t (pq_contents q) \<and>
    (\<forall>e \<in> set (reinsert tadd ((t, ch), a) L). (t, ch) \<le> fst e \<and> t \<le> fst (fst e) \<and> positive_period (snd e) \<and>
      (\<forall>a p. fst (fst e) = t \<longrightarrow> action_next (snd e) = Some (a, p) \<longrightarrow> tadd t p \<noteq> None))"
  proof (cases "action_next a")
    case None
    with st c live ge show ?thesis
      by (auto simp: advance_def due_def kept_def at_time_def reinsert_def stepping_def)
  next
    case (Some x)
    obtain a' p where x: "action_next a = Some (a', p)" using Some by (cases x) auto
    have "tadd t p \<noteq> None" "positive_period a" using st c x by (auto simp: stepping_def)
    note later = reinsert_later [OF tadd this(2) x this(1)]
    have ne: "the (tadd t p) \<noteq> t" using later(1) by simp
    have r: "reinsert tadd ((t, ch), a) L' = fifo_insert (the (tadd t p), ch) a L'" for L'
      using x later(2) by (simp add: reinsert_def)
    have "(t, ch) \<le> (the (tadd t p), ch)" using later(1) by (simp add: less_eq_prod_def)
    with st c live ge later(1) ne sorted x show ?thesis
      by (auto simp: advance_def due_def kept_def at_time_def r stepping_def
          filter_fifo_insert_in filter_fifo_insert_out)
  qed
  then show "advance tadd t flags (pq_contents q) [((t, ch), a)] (reinsert tadd ((t, ch), a) L)"
    "at_time t (reinsert tadd ((t, ch), a) L) + 1 = at_time t (pq_contents q)"
    "\<forall>e \<in> set (reinsert tadd ((t, ch), a) L). (t, ch) \<le> fst e \<and> t \<le> fst (fst e) \<and> positive_period (snd e) \<and>
      (\<forall>a p. fst (fst e) = t \<longrightarrow> action_next (snd e) = Some (a, p) \<longrightarrow> tadd t p \<noteq> None)"
    by blast+
qed

lemma pull_peek:
  assumes tadd: "time_add_ok tadd" and st: "stepping tadd t q" and c: "pq_contents q = ((t, ch), a) # L"
    and live: "\<not> action_is_cancelled flags a"
  obtains q1 q2 where "pull_next_action tadd q = Some (a, q1)"
    "peek_next_key b flags q1 = (head_key b (pq_contents q2), q2)"
    "stepping tadd t q2" "at_time t (pq_contents q2) < at_time t (pq_contents q)"
    "advance tadd t flags (pq_contents q) [((t, ch), a)] (pq_contents q2)"
    "\<forall>e \<in> set (pq_contents q2). (t, ch) \<le> fst e"
    "\<forall>e L'. pq_contents q2 = e # L' \<longrightarrow> \<not> skippable b flags e"
proof -
  note adv = advance_pull [OF tadd st c live]
  have "1 \<le> at_time t (pq_contents q)" using c by (simp add: at_time_def)
  with st have "unat (pq_next_epoch q) + 1 < 2 ^ 64" by (simp add: stepping_def)
  moreover have "tadd t p \<noteq> None" if "action_next a = Some (a', p)" for a' p
    using st c that by (auto simp: stepping_def)
  ultimately obtain q1 where q1: "pull_next_action tadd q = Some (a, q1)" "pq_invar q1"
    "pq_contents q1 = reinsert tadd ((t, ch), a) L" "unat (pq_next_epoch q1) \<le> unat (pq_next_epoch q) + 1"
    using pull_next_action_spec [of q t ch a L tadd] st c by (auto simp: stepping_def)
  from peek_next_key_spec [OF q1(2), of b flags] obtain q2 where
    q2: "peek_next_key b flags q1 = (head_key b (pq_contents q2), q2)" "pq_invar q2"
    "pq_next_epoch q2 = pq_next_epoch q1" "pq_contents q2 = dropWhile (skippable b flags) (pq_contents q1)"
    by blast
  have sub: "set (pq_contents q2) \<subseteq> set (pq_contents q1)" using q2(4) by (auto dest: set_dropWhileD)
  have "length (filter P (dropWhile S xs)) \<le> length (filter P xs)" for P S and xs :: "('a sched_key \<times> 'b action) list"
    by (induction xs) auto
  then have le: "at_time t (pq_contents q2) \<le> at_time t (pq_contents q1)"
    using q2(4) by (simp add: at_time_def)
  have "stepping tadd t q2"
    unfolding stepping_def using q2(2,3) q1 sub adv(2,3) le st by (auto simp: stepping_def)
  moreover have "advance tadd t flags (pq_contents q) [((t, ch), a)] (pq_contents q2)"
    using adv(1) q1(3) q2(4) by (simp add: advance_def due_dropWhile kept_dropWhile)
  moreover have "\<forall>e \<in> set (pq_contents q2). (t, ch) \<le> fst e" using adv(3) sub q1(3) by auto
  moreover have "\<forall>e L'. pq_contents q2 = e # L' \<longrightarrow> \<not> skippable b flags e"
    using q2(4) by (metis hd_dropWhile list.distinct(1) list.sel(1))
  moreover have "at_time t (pq_contents q2) < at_time t (pq_contents q)" using le adv(2) q1(3) by simp
  ultimately show ?thesis using that q1(1) q2(1) by blast
qed

text \<open>A queue whose first entry is not cancelled and within the bound.\<close>

definition ready :: "'t::linorder \<Rightarrow> bool list \<Rightarrow> 't sched_key \<Rightarrow> ('t sched_key \<times> 'e action) list \<Rightarrow> bool" where
  "ready b flags k L \<longleftrightarrow> (\<exists>a L'. L = (k, a) # L' \<and> fst k \<le> b \<and> \<not> action_is_cancelled flags a)"

lemma head_key_ready:
  "head_key b L = Some k \<Longrightarrow> \<forall>e L'. L = e # L' \<longrightarrow> \<not> skippable b flags e \<Longrightarrow> ready b flags k L"
  by (auto simp: head_key_def ready_def skippable_def split: list.splits prod.splits if_splits)

lemma gather_spec:
  assumes tadd: "time_add_ok tadd"
  shows "stepping tadd (fst key) q \<Longrightarrow> ready b flags key (pq_contents q) \<Longrightarrow>
    \<exists>es q'. gather tadd b flags key sf q =
        Some (sf\<lparr>sf_inner := sf_inner sf @ map (\<lambda>e. into_future (snd e)) es\<rparr>, head_key b (pq_contents q'), q') \<and>
      stepping tadd (fst key) q' \<and> (\<forall>e \<in> set es. fst e = key) \<and>
      advance tadd (fst key) flags (pq_contents q) es (pq_contents q') \<and>
      at_time (fst key) (pq_contents q') < at_time (fst key) (pq_contents q) \<and>
      (\<forall>e \<in> set (pq_contents q'). key \<le> fst e) \<and> head_key b (pq_contents q') \<noteq> Some key \<and>
      (\<forall>e L'. pq_contents q' = e # L' \<longrightarrow> \<not> skippable b flags e)"
proof (induction "at_time (fst key) (pq_contents q)" arbitrary: q sf rule: less_induct)
  case less
  obtain t ch where key: "key = (t, ch)" by (cases key)
  from less.prems(2) key obtain a L where c: "pq_contents q = ((t, ch), a) # L"
    and live: "\<not> action_is_cancelled flags a"
    by (auto simp: ready_def)
  have st: "stepping tadd t q" using less.prems(1) key by simp
  obtain q1 q2 where pull: "pull_next_action tadd q = Some (a, q1)"
    and peek: "peek_next_key b flags q1 = (head_key b (pq_contents q2), q2)"
    and st2: "stepping tadd t q2" and lt: "at_time t (pq_contents q2) < at_time t (pq_contents q)"
    and adv: "advance tadd t flags (pq_contents q) [((t, ch), a)] (pq_contents q2)"
    and ge: "\<forall>e \<in> set (pq_contents q2). (t, ch) \<le> fst e"
    and skip: "\<forall>e L'. pq_contents q2 = e # L' \<longrightarrow> \<not> skippable b flags e"
    using pull_peek [OF tadd st c live] by blast
  let ?sf = "seq_push (into_future a) sf"
  show ?case
  proof (cases "head_key b (pq_contents q2) = Some key")
    case False
    then have "gather tadd b flags key sf q = Some (?sf, head_key b (pq_contents q2), q2)"
      using pull peek by (subst gather.simps) (simp add: gather_round_def)
    with False key st2 lt adv ge skip show ?thesis
      by (intro exI [of _ "[((t, ch), a)]"] exI [of _ q2]) (simp add: seq_push_def)
  next
    case True
    have "gather tadd b flags key sf q = gather tadd b flags key ?sf q2"
      using pull peek True by (subst gather.simps) (simp add: gather_round_def)
    moreover from less.hyps [of q2 ?sf] lt st2 head_key_ready [OF True skip] key obtain es q' where
      es: "gather tadd b flags key ?sf q2 =
          Some (?sf\<lparr>sf_inner := sf_inner ?sf @ map (\<lambda>e. into_future (snd e)) es\<rparr>, head_key b (pq_contents q'), q')"
      "stepping tadd t q'" "\<forall>e \<in> set es. fst e = key" "advance tadd t flags (pq_contents q2) es (pq_contents q')"
      "at_time t (pq_contents q') < at_time t (pq_contents q2)"
      "\<forall>e \<in> set (pq_contents q'). key \<le> fst e" "head_key b (pq_contents q') \<noteq> Some key"
      "\<forall>e L'. pq_contents q' = e # L' \<longrightarrow> \<not> skippable b flags e"
      by auto
    moreover have "advance tadd t flags (pq_contents q) (((t, ch), a) # es) (pq_contents q')"
      using advance_trans [OF adv es(4)] by simp
    ultimately show ?thesis using key lt
      by (intro exI [of _ "((t, ch), a) # es"] exI [of _ q']) (simp add: seq_push_def)
  qed
qed

section \<open>The whole step\<close>

primrec task_futs :: "'e task \<Rightarrow> 'e fut list" where
  "task_futs (SingleTask f) = [f]"
| "task_futs (SeqTask sf) = sf_inner sf"

primrec plan_futs :: "'e plan \<Rightarrow> 'e fut list list" where
  "plan_futs (RunFirst f) = [[f]]"
| "plan_futs (RunAll ts) = map task_futs ts"

text \<open>
  The groups of a step: each is not empty and has one key, and the keys of the groups increase
  strictly, so that all actions for one mailbox are in the same group.
\<close>

definition grouped :: "('t::linorder sched_key \<times> 'e action) list list \<Rightarrow> bool" where
  "grouped gs \<longleftrightarrow> (\<forall>g \<in> set gs. g \<noteq> [] \<and> (\<exists>k. \<forall>e \<in> set g. fst e = k)) \<and>
     sorted_wrt (<) (map (\<lambda>g. fst (hd g)) gs)"

lemma grouped_Cons:
  assumes "grouped gs" "g \<noteq> []" "\<forall>e \<in> set g. fst e = k" "\<forall>g' \<in> set gs. k < fst (hd g')"
  shows "grouped (g # gs)"
proof -
  have "fst (hd g) = k" using assms(2,3) by simp
  with assms show ?thesis by (auto simp: grouped_def)
qed

lemma head_later:
  assumes sorted: "sorted (map fst L)" and ge: "\<forall>e \<in> set L. key \<le> fst e" and b: "fst key \<le> b"
    and head: "\<And>k. head_key b L = Some k \<Longrightarrow> fst k \<noteq> fst key"
  shows "\<forall>e \<in> set L. fst key < fst (fst e)"
proof (cases L)
  case (Cons e L')
  have "fst key < fst (fst e)"
  proof (cases "fst (fst e) \<le> b")
    case True
    with head [of "fst e"] Cons have "fst (fst e) \<noteq> fst key" by (cases e) (simp add: head_key_def)
    moreover have "key \<le> fst e" using ge Cons by simp
    ultimately show ?thesis by (cases key, cases "fst e") (auto simp: less_eq_prod_def)
  qed (use b in simp)
  moreover have "fst (fst e) \<le> fst (fst e')" if "e' \<in> set L'" for e'
  proof -
    have "fst e \<le> fst e'" using sorted Cons that by auto
    then show ?thesis by (cases "fst e", cases "fst e'") (auto simp: less_eq_prod_def)
  qed
  ultimately show ?thesis using Cons by (auto intro: less_le_trans)
qed simp

text \<open>One round of the outer loop: the group of actions under \<open>key\<close> becomes one task.\<close>

definition round_task ::
    "('t::linorder \<Rightarrow> duration \<Rightarrow> 't option) \<Rightarrow> 't \<Rightarrow> bool list \<Rightarrow> 't sched_key \<Rightarrow> 'e action \<Rightarrow>
       't sched_key option \<Rightarrow> ('t, 'e) scheduler_queue \<Rightarrow>
       ('e task \<times> 't sched_key option \<times> ('t, 'e) scheduler_queue) option" where
  "round_task tadd b flags key action next_key q =
     (if next_key \<noteq> Some key then Some (SingleTask (into_future action), next_key, q)
      else do {
        (action_sequence, next_key, q) \<leftarrow>
          gather tadd b flags key (seq_push (into_future action) seq_new) q;
        Some (SeqTask action_sequence, next_key, q)
      })"

lemma round_task_spec:
  assumes tadd: "time_add_ok tadd" and st: "stepping tadd (fst key) q"
    and rd: "ready b flags key (pq_contents q)"
  obtains a q1 q2 task g q' where "pull_next_action tadd q = Some (a, q1)"
    "peek_next_key b flags q1 = (head_key b (pq_contents q2), q2)"
    "round_task tadd b flags key a (head_key b (pq_contents q2)) q2 = Some (task, head_key b (pq_contents q'), q')"
    "task_futs task = map (\<lambda>e. into_future (snd e)) g" "g \<noteq> []" "\<forall>e \<in> set g. fst e = key"
    "stepping tadd (fst key) q'" "advance tadd (fst key) flags (pq_contents q) g (pq_contents q')"
    "at_time (fst key) (pq_contents q') < at_time (fst key) (pq_contents q)"
    "\<forall>e \<in> set (pq_contents q'). key \<le> fst e" "head_key b (pq_contents q') \<noteq> Some key"
    "\<forall>e L'. pq_contents q' = e # L' \<longrightarrow> \<not> skippable b flags e"
    "head_key b (pq_contents q2) \<noteq> Some key \<longrightarrow> q' = q2 \<and> g = [(key, a)]"
proof -
  obtain t ch where key: "key = (t, ch)" by (cases key)
  from rd key obtain a L where c: "pq_contents q = ((t, ch), a) # L"
    and live: "\<not> action_is_cancelled flags a"
    by (auto simp: ready_def)
  have st': "stepping tadd t q" using st key by simp
  obtain q1 q2 where pull: "pull_next_action tadd q = Some (a, q1)"
    and peek: "peek_next_key b flags q1 = (head_key b (pq_contents q2), q2)"
    and st2: "stepping tadd t q2" and lt: "at_time t (pq_contents q2) < at_time t (pq_contents q)"
    and adv: "advance tadd t flags (pq_contents q) [((t, ch), a)] (pq_contents q2)"
    and ge: "\<forall>e \<in> set (pq_contents q2). (t, ch) \<le> fst e"
    and skip: "\<forall>e L'. pq_contents q2 = e # L' \<longrightarrow> \<not> skippable b flags e"
    using pull_peek [OF tadd st' c live] by blast
  show ?thesis
  proof (cases "head_key b (pq_contents q2) = Some key")
    case False
    show ?thesis
      by (rule that [OF pull peek, where task = "SingleTask (into_future a)" and q' = q2 and g = "[((t, ch), a)]"])
        (use False key st2 lt adv ge skip in \<open>simp_all add: round_task_def\<close>)
  next
    case True
    let ?sf = "seq_push (into_future a) seq_new"
    from gather_spec [OF tadd, of key q2 b flags ?sf] st2 head_key_ready [OF True skip] key obtain es q' where
      es: "gather tadd b flags key ?sf q2 =
          Some (?sf\<lparr>sf_inner := sf_inner ?sf @ map (\<lambda>e. into_future (snd e)) es\<rparr>, head_key b (pq_contents q'), q')"
      "stepping tadd t q'" "\<forall>e \<in> set es. fst e = key" "advance tadd t flags (pq_contents q2) es (pq_contents q')"
      "at_time t (pq_contents q') < at_time t (pq_contents q2)"
      "\<forall>e \<in> set (pq_contents q'). key \<le> fst e" "head_key b (pq_contents q') \<noteq> Some key"
      "\<forall>e L'. pq_contents q' = e # L' \<longrightarrow> \<not> skippable b flags e"
      by auto
    have adv': "advance tadd t flags (pq_contents q) (((t, ch), a) # es) (pq_contents q')"
      using advance_trans [OF adv es(4)] by simp
    let ?task = "SeqTask (?sf\<lparr>sf_inner := sf_inner ?sf @ map (\<lambda>e. into_future (snd e)) es\<rparr>)"
    show ?thesis
      by (rule that [OF pull peek, where task = ?task and q' = q' and g = "((t, ch), a) # es"])
        (use True key lt adv' es in \<open>simp_all add: round_task_def seq_push_def seq_new_def\<close>)
  qed
qed

lemma step_loop_unfold:
  "step_loop inline tadd bound flags first current_key spawned q =
     do {
       (action, q) \<leftarrow> pull_next_action tadd q;
       let (next_key, q) = peek_next_key bound flags q;
       if first \<and> (case next_key of None \<Rightarrow> True | Some k \<Rightarrow> fst k > fst current_key) \<and> inline
       then Some (RunFirst (into_future action), fst current_key, q)
       else do {
         (task, next_key, q) \<leftarrow> round_task tadd bound flags current_key action next_key q;
         (case next_key of
            Some k \<Rightarrow>
              if fst k = fst current_key
              then step_loop inline tadd bound flags False k (spawned @ [task]) q
              else Some (RunAll (spawned @ [task]), fst current_key, q)
          | None \<Rightarrow> Some (RunAll (spawned @ [task]), fst current_key, q))
       }
     }"
  unfolding round_task_def by (subst step_loop.simps) (simp only: Let_def)

text \<open>What the outer loop delivers, started under \<open>key\<close>.\<close>

definition stepped ::
    "('t::linorder \<Rightarrow> duration \<Rightarrow> 't option) \<Rightarrow> bool list \<Rightarrow> 't sched_key \<Rightarrow> ('t, 'e) scheduler_queue \<Rightarrow>
       ('t sched_key \<times> 'e action) list list \<Rightarrow> ('t, 'e) scheduler_queue \<Rightarrow> bool" where
  "stepped tadd flags key q gs q' \<longleftrightarrow> grouped gs \<and> (\<forall>g \<in> set gs. key \<le> fst (hd g)) \<and>
     advance tadd (fst key) flags (pq_contents q) (concat gs) (pq_contents q') \<and>
     stepping tadd (fst key) q' \<and> (\<forall>e \<in> set (pq_contents q'). fst key < fst (fst e))"

lemma step_loop_spec:
  assumes tadd: "time_add_ok tadd"
  shows "stepping tadd (fst key) q \<Longrightarrow> ready b flags key (pq_contents q) \<Longrightarrow> (first \<longrightarrow> spawned = []) \<Longrightarrow>
    \<exists>plan gs q'. step_loop inline tadd b flags first key spawned q = Some (plan, fst key, q') \<and>
      plan_futs plan = map task_futs spawned @ map (map (\<lambda>e. into_future (snd e))) gs \<and>
      stepped tadd flags key q gs q'"
proof (induction "at_time (fst key) (pq_contents q)" arbitrary: q key first spawned rule: less_induct)
  case less
  obtain a q1 q2 task g q' where pull: "pull_next_action tadd q = Some (a, q1)"
    and peek: "peek_next_key b flags q1 = (head_key b (pq_contents q2), q2)"
    and task: "round_task tadd b flags key a (head_key b (pq_contents q2)) q2 =
      Some (task, head_key b (pq_contents q'), q')"
    and g: "task_futs task = map (\<lambda>e. into_future (snd e)) g" "g \<noteq> []" "\<forall>e \<in> set g. fst e = key"
    and st': "stepping tadd (fst key) q'"
    and adv: "advance tadd (fst key) flags (pq_contents q) g (pq_contents q')"
    and lt: "at_time (fst key) (pq_contents q') < at_time (fst key) (pq_contents q)"
    and ge: "\<forall>e \<in> set (pq_contents q'). key \<le> fst e" and ne: "head_key b (pq_contents q') \<noteq> Some key"
    and skip: "\<forall>e L'. pq_contents q' = e # L' \<longrightarrow> \<not> skippable b flags e"
    and single: "head_key b (pq_contents q2) \<noteq> Some key \<longrightarrow> q' = q2 \<and> g = [(key, a)]"
    using round_task_spec [OF tadd less.prems(1,2)] .
  have b: "fst key \<le> b" using less.prems(2) by (auto simp: ready_def)
  note later = head_later [OF sorted_pq_contents ge b]
  have hd_g: "fst (hd g) = key" using g(2,3) by simp
  have one: "stepped tadd flags key q [g] q'" if "\<And>k. head_key b (pq_contents q') = Some k \<Longrightarrow> fst k \<noteq> fst key"
    using later [OF that] g hd_g adv st' by (simp add: stepped_def grouped_def)
  show ?case
  proof (cases "first \<and> (case head_key b (pq_contents q2) of None \<Rightarrow> True | Some k \<Rightarrow> fst k > fst key) \<and> inline")
    case True
    then have "head_key b (pq_contents q2) \<noteq> Some key" by auto
    with single have s: "q' = q2" "g = [(key, a)]" by auto
    have "step_loop inline tadd b flags first key spawned q = Some (RunFirst (into_future a), fst key, q')"
      using pull peek True s by (subst step_loop_unfold) simp
    moreover have "fst k \<noteq> fst key" if "head_key b (pq_contents q') = Some k" for k
      using True s that by auto
    then have "stepped tadd flags key q [g] q'" by (rule one)
    ultimately show ?thesis using True less.prems(3) s
      by (intro exI [of _ "RunFirst (into_future a)"] exI [of _ "[g]"] exI [of _ q']) simp
  next
    case False
    have loop: "step_loop inline tadd b flags first key spawned q =
      (case head_key b (pq_contents q') of
         Some k \<Rightarrow> if fst k = fst key then step_loop inline tadd b flags False k (spawned @ [task]) q'
                   else Some (RunAll (spawned @ [task]), fst key, q')
       | None \<Rightarrow> Some (RunAll (spawned @ [task]), fst key, q'))"
      using pull peek False task by (subst step_loop_unfold) (simp, blast)
    show ?thesis
    proof (cases "\<exists>k. head_key b (pq_contents q') = Some k \<and> fst k = fst key")
      case False
      then have "step_loop inline tadd b flags first key spawned q = Some (RunAll (spawned @ [task]), fst key, q')"
        using loop by (auto split: option.splits)
      moreover have "stepped tadd flags key q [g] q'" using False one by blast
      ultimately show ?thesis using g(1)
        by (intro exI [of _ "RunAll (spawned @ [task])"] exI [of _ "[g]"] exI [of _ q']) simp
    next
      case True
      then obtain k where k: "head_key b (pq_contents q') = Some k" "fst k = fst key" by blast
      have rd: "ready b flags k (pq_contents q')" using head_key_ready [OF k(1) skip] .
      then have "key < k" using ge ne k(1) by (auto simp: ready_def less_le)
      from less.hyps [of k q' False "spawned @ [task]"] lt st' rd k(2) obtain plan gs q'' where
        ih: "step_loop inline tadd b flags False k (spawned @ [task]) q' = Some (plan, fst key, q'')"
        "plan_futs plan = map task_futs (spawned @ [task]) @ map (map (\<lambda>e. into_future (snd e))) gs"
        "stepped tadd flags k q' gs q''"
        by auto
      have "grouped (g # gs)"
        using ih(3) g \<open>key < k\<close> by (intro grouped_Cons [of _ _ key]) (auto simp: stepped_def intro: less_le_trans)
      moreover have "advance tadd (fst key) flags (pq_contents q) (g @ concat gs) (pq_contents q'')"
        using advance_trans [OF adv] ih(3) k(2) by (simp add: stepped_def)
      moreover have "\<forall>g' \<in> set (g # gs). key \<le> fst (hd g')"
        using ih(3) hd_g \<open>key < k\<close> by (auto simp: stepped_def)
      ultimately have "stepped tadd flags key q (g # gs) q''"
        using ih(3) k(2) by (simp add: stepped_def)
      with loop k ih(1,2) g(1) show ?thesis
        by (intro exI [of _ plan] exI [of _ "g # gs"] exI [of _ q'']) simp
    qed
  qed
qed

text \<open>A step: what is executed, what remains, and the new time.\<close>

definition live :: "('t::linorder, 'e) scheduler \<Rightarrow> ('t sched_key \<times> 'e action) list" where
  "live s = filter (\<lambda>e. \<not> action_is_cancelled (key_flags s) (snd e)) (queued s)"

text \<open>No recurring action of the queue has a next date beyond the representable times, and the
  epochs last for one more round of insertions.\<close>

definition can_step :: "('t::linorder \<Rightarrow> duration \<Rightarrow> 't option) \<Rightarrow> ('t, 'e) scheduler \<Rightarrow> bool" where
  "can_step tadd s \<longleftrightarrow>
     (\<forall>e \<in> set (queued s). \<forall>a p. action_next (snd e) = Some (a, p) \<longrightarrow> tadd (fst (fst e)) p \<noteq> None) \<and>
     unat (pq_next_epoch (sched_queue s)) + length (queued s) < 2 ^ 64"

lemma live_dropWhile:
  "filter (\<lambda>e. \<not> action_is_cancelled flags (snd e)) (dropWhile (skippable b flags) L) =
     filter (\<lambda>e. \<not> action_is_cancelled flags (snd e)) L"
  by (induction L) (auto simp: skippable_def)

lemma step_none:
  assumes ok: "sched_ok s" and none: "\<forall>e \<in> set (live s). b < fst (fst e)"
  shows "\<exists>s'. step_to_next_bounded inline tadd b s = Some (None, s') \<and> sched_ok s' \<and>
    sched_time s' = sched_time s \<and> key_flags s' = key_flags s \<and> live s' = live s \<and>
    (\<forall>e \<in> set (queued s'). b < fst (fst e))"
proof -
  let ?fl = "key_flags s"
  from peek_next_key_spec [of "sched_queue s" b ?fl] ok obtain q' where
    q': "peek_next_key b ?fl (sched_queue s) = (head_key b (pq_contents q'), q')" "pq_invar q'"
    "pq_contents q' = dropWhile (skippable b ?fl) (queued s)"
    by (auto simp: sched_ok_def)
  have live': "filter (\<lambda>e. \<not> action_is_cancelled ?fl (snd e)) (pq_contents q') = live s"
    using live_dropWhile q'(3) by (simp add: live_def)
  have later: "\<forall>e \<in> set (pq_contents q'). b < fst (fst e)"
  proof (cases "pq_contents q'")
    case (Cons e L)
    have "\<not> skippable b ?fl e"
      using q'(3) Cons by (metis hd_dropWhile list.distinct(1) list.sel(1))
    moreover have "b < fst (fst e)" if "\<not> action_is_cancelled ?fl (snd e)"
      using that none live' [symmetric] Cons by simp
    ultimately have "b < fst (fst e)" by (auto simp: skippable_def)
    moreover have "fst (fst e) \<le> fst (fst e')" if "e' \<in> set L" for e'
    proof -
      have "fst e \<le> fst e'" using sorted_pq_contents [of q'] Cons that by auto
      then show ?thesis by (cases "fst e", cases "fst e'") (auto simp: less_eq_prod_def)
    qed
    ultimately show ?thesis using Cons by (auto intro: less_le_trans)
  qed simp
  then have "head_key b (pq_contents q') = None"
    by (auto simp: head_key_def split: list.splits)
  moreover have "set (pq_contents q') \<subseteq> set (queued s)" using q'(3) by (auto dest: set_dropWhileD)
  ultimately show ?thesis
    using q' ok later live' by (auto simp: step_to_next_bounded_def sched_ok_def live_def)
qed

lemma fold_filter_due:
  "filter (\<lambda>e. \<not> action_is_cancelled flags (snd e)) L = due t flags L @ kept t flags L"
  if "sorted (map fst L)" "\<forall>e \<in> set L. t \<le> fst (fst e)"
  using that
proof (induction L)
  case (Cons e L)
  show ?case
  proof (cases "fst (fst e) = t")
    case True
    with Cons show ?thesis by (auto simp: due_def kept_def)
  next
    case False
    then have "t < fst (fst e)" using Cons.prems by (auto simp: less_le)
    moreover have "fst (fst e) \<le> fst (fst e')" if "e' \<in> set L" for e'
    proof -
      have "fst e \<le> fst e'" using Cons.prems that by auto
      then show ?thesis by (cases "fst e", cases "fst e'") (auto simp: less_eq_prod_def)
    qed
    ultimately have "\<forall>e' \<in> set (e # L). fst (fst e') \<noteq> t" by fastforce
    then show ?thesis by (auto simp: due_def kept_def filter_empty_conv intro!: filter_cong)
  qed
qed (simp add: due_def kept_def)

lemma stepping_start:
  assumes ok: "sched_ok s" and can: "can_step tadd s" and inv: "pq_invar q"
    and epoch: "pq_next_epoch q = pq_next_epoch (sched_queue s)"
    and sub: "set (pq_contents q) \<subseteq> set (queued s)" and len: "length (pq_contents q) \<le> length (queued s)"
    and ge: "\<And>e. e \<in> set (pq_contents q) \<Longrightarrow> t \<le> fst (fst e)"
  shows "stepping tadd t q"
  unfolding stepping_def
proof (intro conjI ballI allI impI)
  show "pq_invar q" by (rule inv)
  have "at_time t (pq_contents q) \<le> length (queued s)"
    using len length_filter_le order_trans unfolding at_time_def by blast
  with can show "unat (pq_next_epoch q) + at_time t (pq_contents q) < 2 ^ 64"
    by (simp add: can_step_def epoch)
  fix e
  assume e: "e \<in> set (pq_contents q)"
  then show "t \<le> fst (fst e)" by (rule ge)
  from e sub have "e \<in> set (queued s)" by blast
  with ok show "positive_period (snd e)" by (cases e) (auto simp: sched_ok_def)
  show "tadd t p \<noteq> None" if "fst (fst e) = t" "action_next (snd e) = Some (a, p)" for a p
    using can \<open>e \<in> set (queued s)\<close> that by (auto simp: can_step_def)
qed

lemma step_some:
  assumes ok: "sched_ok s" and tadd: "time_add_ok tadd" and can: "can_step tadd s"
    and e: "e \<in> set (live s)" "fst (fst e) \<le> b"
  defines "t \<equiv> fst (fst (hd (live s)))"
  shows "\<exists>plan gs s'. step_to_next_bounded inline tadd b s = Some (Some (plan, t), s') \<and>
    plan_futs plan = map (map (\<lambda>e. into_future (snd e))) gs \<and> grouped gs \<and>
    concat gs = due t (key_flags s) (queued s) \<and> sched_time s < t \<and> t \<le> b \<and>
    sched_time s' = t \<and> key_flags s' = key_flags s \<and> sched_ok s' \<and>
    live s' = fold (reinsert tadd) (concat gs) (kept t (key_flags s) (queued s))"
proof -
  let ?fl = "key_flags s"
  from peek_next_key_spec [of "sched_queue s" b ?fl] ok obtain q where
    q: "peek_next_key b ?fl (sched_queue s) = (head_key b (pq_contents q), q)" "pq_invar q"
    "pq_next_epoch q = pq_next_epoch (sched_queue s)"
    "pq_contents q = dropWhile (skippable b ?fl) (queued s)"
    by (auto simp: sched_ok_def)
  have live': "filter (\<lambda>e. \<not> action_is_cancelled ?fl (snd e)) (pq_contents q) = live s"
    using live_dropWhile q(4) by (simp add: live_def)
  obtain e0 L where c: "pq_contents q = e0 # L" using e(1) live' by (cases "pq_contents q") auto
  have sub: "set (pq_contents q) \<subseteq> set (queued s)" using q(4) by (auto dest: set_dropWhileD)
  have ge: "fst (fst e0) \<le> fst (fst e')" if "e' \<in> set (pq_contents q)" for e'
  proof -
    have "fst e0 \<le> fst e'" using sorted_pq_contents [of q] c that by auto
    then show ?thesis by (cases "fst e0", cases "fst e'") (auto simp: less_eq_prod_def)
  qed
  have "e \<in> set (pq_contents q)" using e(1) live' by (metis filter_is_subset subsetD)
  then have b: "fst (fst e0) \<le> b" using ge e(2) by (meson order_trans)
  moreover have "\<not> skippable b ?fl e0" using q(4) c by (metis hd_dropWhile list.distinct(1) list.sel(1))
  ultimately have l0: "\<not> action_is_cancelled ?fl (snd e0)" by (simp add: skippable_def)
  then have "hd (live s) = e0" using live' c by (metis filter.simps(2) list.sel(1))
  then have t: "fst (fst e0) = t" by (simp add: t_def)
  obtain key where key: "key = fst e0" by blast
  have rd: "ready b ?fl key (pq_contents q)" using c b l0 key by (cases e0) (simp add: ready_def)
  have len: "length (pq_contents q) \<le> length (queued s)" using q(4) by (simp add: length_dropWhile_le)
  have st: "stepping tadd (fst key) q"
    using stepping_start [OF ok can q(2,3) sub len] ge key by blast
  from step_loop_spec [OF tadd st rd, of True "[]" inline] obtain plan gs q' where
    loop: "step_loop inline tadd b ?fl True key [] q = Some (plan, t, q')"
    "plan_futs plan = map (map (\<lambda>e. into_future (snd e))) gs" "stepped tadd ?fl key q gs q'"
    using key t by auto
  let ?s = "s\<lparr>sched_queue := q', sched_time := t\<rparr>"
  have later: "\<forall>e \<in> set (pq_contents q'). t < fst (fst e)" and st': "stepping tadd t q'"
    and adv: "advance tadd t ?fl (pq_contents q) (concat gs) (pq_contents q')"
    using loop(3) key t by (auto simp: stepped_def)
  have due': "due t ?fl (pq_contents q') = []" using later by (fastforce simp: due_def filter_empty_conv)
  have "head_key b (pq_contents q) = Some key" using c b key by (cases e0) (simp add: head_key_def)
  then have "step_to_next_bounded inline tadd b s = Some (Some (plan, t), ?s)"
    using q(1) loop(1) key t by (simp add: step_to_next_bounded_def)
  moreover have "concat gs = due t ?fl (queued s)"
    using adv due' q(4) by (simp add: advance_def due_dropWhile)
  moreover have "live ?s = fold (reinsert tadd) (concat gs) (kept t ?fl (queued s))"
    using fold_filter_due [OF sorted_pq_contents, of q' t ?fl] later due' adv q(4)
    by (auto simp: live_def advance_def kept_dropWhile less_imp_le)
  moreover have "sched_ok ?s" using later st' by (auto simp: sched_ok_def stepping_def)
  moreover have "sched_time s < t" using ok sub c t by (cases e0) (auto simp: sched_ok_def)
  moreover have "grouped gs" using loop(3) by (simp add: stepped_def)
  ultimately show ?thesis using loop(2) b t by auto
qed

section \<open>What a step that returns has done\<close>

text \<open>
  The following needs neither positive periods nor enough epochs, only that adding a duration never
  leads back in time: whenever a step returns, nothing due at its time is left in the queue.
\<close>

definition time_forward :: "('t::linorder \<Rightarrow> duration \<Rightarrow> 't option) \<Rightarrow> bool" where
  "time_forward tadd \<longleftrightarrow> (\<forall>t d t'. tadd t d = Some t' \<longrightarrow> t \<le> t')"

definition not_before :: "'t::linorder \<Rightarrow> ('t, 'e) scheduler_queue \<Rightarrow> bool" where
  "not_before t q \<longleftrightarrow> pq_invar q \<and> (\<forall>e \<in> set (pq_contents q). t \<le> fst (fst e))"

lemma pull_next_action_not_before:
  assumes tadd: "time_forward tadd" and q: "not_before t q" and pull: "pull_next_action tadd q = Some (a, q')"
  shows "not_before t q'"
proof -
  have inv: "pq_invar q" using q by (simp add: not_before_def)
  show ?thesis
  proof (cases "pq_contents q")
    case Nil
    then obtain q0 where "pq_pull q = (None, q0)" using pq.pull_law [OF inv] by auto
    with pull show ?thesis by (simp add: pull_next_action_def)
  next
    case (Cons e L)
    obtain t0 ch a0 where e: "e = ((t0, ch), a0)" by (cases e) auto
    obtain q1 where q1: "pq_pull q = (Some e, q1)" "pq_invar q1" "pq_contents q1 = L"
      using pq_pull_contents [OF inv Cons] by blast
    have L: "t \<le> t0" "\<forall>e \<in> set L. t \<le> fst (fst e)" using q Cons e by (auto simp: not_before_def)
    show ?thesis
    proof (cases "action_next a0")
      case None
      with pull q1 e L show ?thesis by (simp add: pull_next_action_def not_before_def)
    next
      case (Some x)
      obtain a' p where x: "x = (a', p)" by (cases x)
      with pull q1(1) e Some obtain t' where t': "tadd t0 p = Some t'" "pq_insert (t', ch) a' q1 = Some q'"
        by (auto simp: pull_next_action_def split: bind_splits)
      then have "pq_next_epoch q1 \<noteq> - 1" by (auto simp: pq_insert_def)
      with pq.insert_law [OF q1(2), of "(t', ch)" a'] t'(2) q1(3)
      have "pq_invar q'" "pq_contents q' = fifo_insert (t', ch) a' L" by auto
      moreover have "t \<le> t'" using tadd t'(1) L(1) unfolding time_forward_def by (meson order_trans)
      ultimately show ?thesis using L(2) by (auto simp: not_before_def)
    qed
  qed
qed

lemma peek_next_key_not_before:
  assumes "not_before t q" "peek_next_key b flags q = (nk, q')"
  shows "not_before t q'" "nk = head_key b (pq_contents q')"
  using peek_next_key_spec [of q b flags] assms by (auto simp: not_before_def dest: set_dropWhileD)

lemma gather_not_before:
  "gather tadd b flags key sf q = Some r \<Longrightarrow> time_forward tadd \<Longrightarrow> not_before t q \<Longrightarrow>
     not_before t (snd (snd r)) \<and> fst (snd r) = head_key b (pq_contents (snd (snd r)))"
proof (induction tadd b flags key sf q r rule: gather.raw_induct [rotated, consumes 1, case_names 1])
  case (1 gather tadd b flags key sf q r)
  obtain a q1 where pull: "pull_next_action tadd q = Some (a, q1)"
    using 1(2) by (auto simp: gather_round_def split: bind_splits)
  obtain nk q2 where peek: "peek_next_key b flags q1 = (nk, q2)" by fastforce
  note q1 = pull_next_action_not_before [OF 1(3,4) pull]
  note q2 = peek_next_key_not_before [OF q1 peek]
  show ?case
  proof (cases "nk = Some key")
    case True
    with 1(2) pull peek have "gather tadd b flags key (seq_push (into_future a) sf) q2 = Some r"
      by (simp add: gather_round_def)
    from 1(1) [OF this 1(3) q2(1)] show ?thesis .
  next
    case False
    with 1(2) pull peek q2 show ?thesis by (auto simp: gather_round_def)
  qed
qed

lemma round_task_not_before:
  assumes "round_task tadd b flags key a nk q = Some (task, nk', q')" "time_forward tadd" "not_before t q"
    and "nk = head_key b (pq_contents q)"
  shows "not_before t q'" "nk' = head_key b (pq_contents q')"
  using assms gather_not_before [OF _ assms(2,3)]
  by (fastforce simp: round_task_def split: if_splits bind_splits)+

lemma step_loop_returns:
  "step_loop inline tadd b flags first key spawned q = Some r \<Longrightarrow> time_forward tadd \<Longrightarrow> not_before (fst key) q \<Longrightarrow>
     fst key \<le> b \<Longrightarrow> fst (snd r) = fst key \<and> pq_invar (snd (snd r)) \<and>
     (\<forall>e \<in> set (pq_contents (snd (snd r))). fst key < fst (fst e))"
proof (induction inline tadd b flags first key spawned q r rule: step_loop.raw_induct [rotated, consumes 1, case_names 1])
  case (1 loop inline tadd b flags first key spawned q r)
  have clear: "pq_invar q' \<and> (\<forall>e \<in> set (pq_contents q'). fst key < fst (fst e))"
    if "not_before (fst key) q'" "\<And>k. head_key b (pq_contents q') = Some k \<Longrightarrow> fst k \<noteq> fst key" for q'
    using head_later [OF sorted_pq_contents, of q' "(fst key, 0)" b] that 1(5)
    by (auto simp: not_before_def less_eq_prod_def)
  obtain a q1 where pull: "pull_next_action tadd q = Some (a, q1)"
    using 1(2) by (auto split: bind_splits)
  obtain nk q2 where peek: "peek_next_key b flags q1 = (nk, q2)" by fastforce
  note q2 = peek_next_key_not_before [OF pull_next_action_not_before [OF 1(3,4) pull] peek]
  show ?case
  proof (cases "first \<and> (case nk of None \<Rightarrow> True | Some k \<Rightarrow> fst k > fst key) \<and> inline")
    case True
    then have "fst k \<noteq> fst key" if "head_key b (pq_contents q2) = Some k" for k using q2(2) that by auto
    from clear [OF q2(1) this] 1(2) pull peek True show ?thesis by auto
  next
    case False
    with 1(2) pull peek have run: "(do {
        (task, nk, q) \<leftarrow> round_task tadd b flags key a nk q2;
        case nk of Some k \<Rightarrow> if fst k = fst key then loop inline tadd b flags False k (spawned @ [task]) q
                            else Some (RunAll (spawned @ [task]), fst key, q)
        | None \<Rightarrow> Some (RunAll (spawned @ [task]), fst key, q) }) = Some r"
      unfolding round_task_def by (auto simp: Let_def)
    then obtain task nk' q' where rt: "round_task tadd b flags key a nk q2 = Some (task, nk', q')"
      by (auto split: bind_splits)
    note q' = round_task_not_before [OF rt 1(3) q2]
    show ?thesis
    proof (cases "\<exists>k. nk' = Some k \<and> fst k = fst key")
      case True
      then obtain k where k: "nk' = Some k" "fst k = fst key" by blast
      with run rt have "loop inline tadd b flags False k (spawned @ [task]) q' = Some r" by simp
      from 1(1) [OF this 1(3)] q'(1) 1(5) k(2) show ?thesis by simp
    next
      case False
      with run rt have "r = (RunAll (spawned @ [task]), fst key, q')" by (auto split: option.splits if_splits)
      moreover have "fst k \<noteq> fst key" if "head_key b (pq_contents q') = Some k" for k using False q'(2) that by auto
      ultimately show ?thesis using clear [OF q'(1)] by auto
    qed
  qed
qed

lemma step_returns:
  assumes step: "step_to_next_bounded inline tadd b s = Some (r, s')" and wf: "sched_wf s" and tadd: "time_forward tadd"
  shows "sched_wf s'" "key_flags s' = key_flags s"
    "case r of None \<Rightarrow> sched_time s' = sched_time s \<and> (\<forall>e \<in> set (queued s'). b < fst (fst e))
     | Some (plan, t) \<Rightarrow> sched_time s < t \<and> t \<le> b \<and> sched_time s' = t"
proof -
  let ?fl = "key_flags s"
  from peek_next_key_spec [of "sched_queue s" b ?fl] wf obtain q where
    q0: "peek_next_key b ?fl (sched_queue s) = (head_key b (pq_contents q), q)" "pq_invar q"
    "pq_contents q = dropWhile (skippable b ?fl) (queued s)"
    by (auto simp: sched_wf_def)
  then have sub: "set (pq_contents q) \<subseteq> set (queued s)" by (auto dest: set_dropWhileD)
  note q = q0(1,2) sub
  have "sched_wf s' \<and> key_flags s' = key_flags s \<and>
    (case r of None \<Rightarrow> sched_time s' = sched_time s \<and> (\<forall>e \<in> set (queued s'). b < fst (fst e))
     | Some (plan, t) \<Rightarrow> sched_time s < t \<and> t \<le> b \<and> sched_time s' = t)"
  proof (cases "pq_contents q")
    case Nil
    with step q(1,2) show ?thesis by (auto simp: step_to_next_bounded_def head_key_def sched_wf_def)
  next
    case (Cons e L)
    have first: "fst (fst e) \<le> fst (fst e')" if "e' \<in> set (pq_contents q)" for e'
    proof -
      have "fst e \<le> fst e'" using sorted_pq_contents [of q] Cons that by auto
      then show ?thesis by (cases "fst e", cases "fst e'") (auto simp: less_eq_prod_def)
    qed
    have now: "sched_time s < fst (fst e)" using wf q(3) Cons by (cases e) (auto simp: sched_wf_def)
    show ?thesis
    proof (cases "fst (fst e) \<le> b")
      case False
      then have "s' = s\<lparr>sched_queue := q\<rparr>" "r = None" "\<forall>e' \<in> set (pq_contents q). b < fst (fst e')"
        using step q(1) Cons first by (cases e; fastforce simp: step_to_next_bounded_def head_key_def)+
      with q wf show ?thesis by (auto simp: sched_wf_def)
    next
      case True
      then have "head_key b (pq_contents q) = Some (fst e)" using Cons by (cases e) (simp add: head_key_def)
      with step q(1) obtain plan t q' where l: "step_loop inline tadd b ?fl True (fst e) [] q = Some (plan, t, q')"
        "r = Some (plan, t)" "s' = s\<lparr>sched_queue := q', sched_time := fst (fst e)\<rparr>"
        by (auto simp: step_to_next_bounded_def split: bind_splits)
      have "not_before (fst (fst e)) q" using q(2) first by (simp add: not_before_def)
      from step_loop_returns [OF l(1) tadd this True] l now True show ?thesis by (auto simp: sched_wf_def)
    qed
  qed
  then show "sched_wf s'" "key_flags s' = key_flags s"
    "case r of None \<Rightarrow> sched_time s' = sched_time s \<and> (\<forall>e \<in> set (queued s'). b < fst (fst e))
     | Some (plan, t) \<Rightarrow> sched_time s < t \<and> t \<le> b \<and> sched_time s' = t"
    by blast+
qed

section \<open>The executor and the stepping of time\<close>

text \<open>
  Running the tasks: any task may proceed by its next future. Its message then waits in the mailbox
  while other models call the scheduler; what is delivered is decided by the cancellation flags when
  the model processes the message, and the model that receives it may call the scheduler. The trace
  records task, future and deliveries.
\<close>

inductive executor_run ::
    "('t::linorder \<Rightarrow> duration \<Rightarrow> 't option) \<Rightarrow> 'e fut list list \<Rightarrow> ('t, 'e) scheduler \<Rightarrow>
       (nat \<times> 'e fut \<times> (channel_id option \<times> 'e) list) list \<Rightarrow> ('t, 'e) scheduler \<Rightarrow> bool"
  for tadd where
  exec_done: "(\<forall>fs \<in> set ts. fs = []) \<Longrightarrow> executor_run tadd ts s [] s"
| exec_more: "i < length ts \<Longrightarrow> ts ! i = f # fs \<Longrightarrow> api_run tadd s s0 \<Longrightarrow> api_run tadd s0 s1 \<Longrightarrow>
    executor_run tadd (ts[i := fs]) s1 tr s2 \<Longrightarrow>
    executor_run tadd ts s ((i, f, delivers (key_flags s0) f) # tr) s2"

text \<open>\<^verbatim>\<open>step_to_next_bounded\<close> with the executor, when it returns.\<close>

inductive sim_step ::
    "bool \<Rightarrow> ('t::linorder \<Rightarrow> duration \<Rightarrow> 't option) \<Rightarrow> 't \<Rightarrow> ('t, 'e) scheduler \<Rightarrow> 't option \<Rightarrow>
       ('t, 'e) scheduler \<Rightarrow> bool"
  for inline tadd bound where
  sim_none: "step_to_next_bounded inline tadd bound s = Some (None, s') \<Longrightarrow>
    sim_step inline tadd bound s None s'"
| sim_some: "step_to_next_bounded inline tadd bound s = Some (Some (plan, t), s1) \<Longrightarrow>
    executor_run tadd (plan_futs plan) s1 tr s' \<Longrightarrow> sim_step inline tadd bound s (Some t) s'"

inductive step_until_unchecked ::
    "bool \<Rightarrow> ('t::linorder \<Rightarrow> duration \<Rightarrow> 't option) \<Rightarrow> 't \<Rightarrow> ('t, 'e) scheduler \<Rightarrow> ('t, 'e) scheduler \<Rightarrow> bool"
  for inline tadd target_time where
  until_reached: "sim_step inline tadd target_time s (Some t) s' \<Longrightarrow> t = target_time \<Longrightarrow>
    step_until_unchecked inline tadd target_time s s'"
| until_none: "sim_step inline tadd target_time s None s' \<Longrightarrow>
    step_until_unchecked inline tadd target_time s (s'\<lparr>sched_time := target_time\<rparr>)"
| until_more: "sim_step inline tadd target_time s (Some t) s1 \<Longrightarrow> t \<noteq> target_time \<Longrightarrow>
    step_until_unchecked inline tadd target_time s1 s2 \<Longrightarrow>
    step_until_unchecked inline tadd target_time s s2"

inductive step_until ::
    "bool \<Rightarrow> ('t::linorder \<Rightarrow> duration \<Rightarrow> 't option) \<Rightarrow> 't \<Rightarrow> ('t, 'e) scheduler \<Rightarrow> scheduling_error + unit \<Rightarrow>
       ('t, 'e) scheduler \<Rightarrow> bool"
  for inline tadd target_time where
  step_until_err: "sched_time s \<ge> target_time \<Longrightarrow>
    step_until inline tadd target_time s (Inl InvalidScheduledTime) s"
| step_until_ok: "\<not> sched_time s \<ge> target_time \<Longrightarrow> step_until_unchecked inline tadd target_time s s' \<Longrightarrow>
    step_until inline tadd target_time s (Inr ()) s'"

inductive step_by ::
    "bool \<Rightarrow> ('t::linorder \<Rightarrow> duration \<Rightarrow> 't option) \<Rightarrow> duration \<Rightarrow> ('t, 'e) scheduler \<Rightarrow>
       ('t, 'e) scheduler \<Rightarrow> bool"
  for inline tadd d where
  step_by_intro: "tadd (sched_time s) d = Some target_time \<Longrightarrow>
    step_until_unchecked inline tadd target_time s s' \<Longrightarrow> step_by inline tadd d s s'"

inductive_cases step_until_okE: "step_until inline tadd t s (Inr u) s'"
inductive_cases step_byE: "step_by inline tadd d s s'"

text \<open>\<^verbatim>\<open>process\<close>: an action is run at the current time, its periodicity is ignored.\<close>

inductive process ::
    "('t::linorder \<Rightarrow> duration \<Rightarrow> 't option) \<Rightarrow> 'e action \<Rightarrow> ('t, 'e) scheduler \<Rightarrow> ('t, 'e) scheduler \<Rightarrow> bool"
  for tadd action where
  process_intro: "executor_run tadd [[into_future action]] s tr s' \<Longrightarrow> process tadd action s s'"

lemma executor_run_keeps: "executor_run tadd ts s tr s' \<Longrightarrow> sched_wf s \<Longrightarrow> sched_wf s' \<and> sched_time s' = sched_time s"
proof (induction rule: executor_run.induct)
  case (exec_more i ts f fs s s0 s1 tr s2)
  from api_run_keeps [OF exec_more.hyps(3) exec_more.prems] have s0: "sched_wf s0" "sched_time s0 = sched_time s"
    by (simp_all add: calls_keep_def)
  from api_run_keeps [OF exec_more.hyps(4) s0(1)] s0 exec_more.IH show ?case by (simp add: calls_keep_def)
qed simp

lemma executor_run_in_order:
  "executor_run tadd ts s tr s' \<Longrightarrow> i < length ts \<Longrightarrow>
     map (\<lambda>x. fst (snd x)) (filter (\<lambda>x. fst x = i) tr) = ts ! i"
proof (induction rule: executor_run.induct)
  case (exec_more j ts f fs s s0 s1 tr s2)
  then show ?case by (cases "i = j") auto
next
  case (exec_done ts s)
  then have "ts ! i = []" by simp
  then show ?case by simp
qed

lemma executor_run_exists: "\<exists>tr. executor_run tadd ts s tr s"
proof (induction "length (concat ts)" arbitrary: ts rule: less_induct)
  case less
  show ?case
  proof (cases "\<forall>fs \<in> set ts. fs = []")
    case True
    then show ?thesis by (blast intro: exec_done)
  next
    case False
    then obtain i f fs where i: "i < length ts" "ts ! i = f # fs"
      by (metis in_set_conv_nth list.exhaust)
    then have "length (concat (ts[i := fs])) < length (concat ts)"
      by (subst id_take_nth_drop [OF i(1)]) (simp add: upd_conv_take_nth_drop)
    from less [OF this] i show ?thesis by (blast intro: exec_more api_done)
  qed
qed

lemma sim_step_returns:
  assumes "sim_step inline tadd b s r s'" "sched_wf s" "time_forward tadd"
  shows "sched_wf s' \<and> (case r of
      None \<Rightarrow> sched_time s' = sched_time s \<and> (\<forall>e \<in> set (queued s'). b < fst (fst e))
    | Some t \<Rightarrow> sched_time s < t \<and> t \<le> b \<and> sched_time s' = t)"
  using assms(1)
proof cases
  case sim_none
  with step_returns [OF sim_none(2) assms(2,3)] show ?thesis by simp
next
  case (sim_some plan t s1 tr)
  with step_returns [OF sim_some(2) assms(2,3)] executor_run_keeps [OF sim_some(3)] show ?thesis by simp
qed

lemma step_until_unchecked_returns:
  assumes "step_until_unchecked inline tadd target s s'" "sched_wf s" "time_forward tadd"
  shows "sched_wf s' \<and> sched_time s' = target"
  using assms
proof (induction rule: step_until_unchecked.induct)
  case (until_reached s t s')
  with sim_step_returns [OF until_reached(1)] show ?case by auto
next
  case (until_none s s')
  with sim_step_returns [OF until_none(1)] show ?case by (auto simp: sched_wf_def)
next
  case (until_more s t s1 s2)
  with sim_step_returns [OF until_more(1)] show ?case by auto
qed

end
