(* ===== verification/Sim_Properties.thy ===== *)
theory Sim_Properties
  imports Simulation
begin

text \<open>
  The properties of the scheduler and of the stepping of simulation time. The witnesses
  instantiate the time by the natural numbers, on which adding a duration never fails.
\<close>

section \<open>Mailbox order\<close>

lemma group_key: "grouped gs \<Longrightarrow> g \<in> set gs \<Longrightarrow> \<forall>e \<in> set g. fst e = fst (hd g)"
  unfolding grouped_def by (metis hd_in_set)

lemma grouped_filter:
  assumes "grouped gs" "g \<in> set gs"
  shows "filter (\<lambda>e. fst e = fst (hd g)) (concat gs) = g"
  using assms
proof (induction gs)
  case (Cons h gs)
  have tail: "grouped gs" using Cons.prems(1) by (simp add: grouped_def)
  have key: "\<forall>e \<in> set h. fst e = fst (hd h)" using group_key [OF Cons.prems(1)] by simp
  have lt: "fst (hd h) < fst (hd g')" if "g' \<in> set gs" for g'
    using Cons.prems(1) that by (auto simp: grouped_def)
  have keys: "\<forall>e \<in> set g'. fst e = fst (hd g')" if "g' \<in> set gs" for g'
    using group_key [OF tail that] .
  show ?case
  proof (cases "g = h")
    case True
    have "filter (\<lambda>e. fst e = fst (hd h)) (concat gs) = []"
      using lt keys by (fastforce simp: filter_empty_conv)
    moreover have "filter (\<lambda>e. fst e = fst (hd h)) h = h"
      using key by (simp add: filter_id_conv)
    ultimately show ?thesis using True by simp
  next
    case False
    then have g: "g \<in> set gs" using Cons.prems(2) by simp
    have "filter (\<lambda>e. fst e = fst (hd g)) h = []"
      using key lt [OF g] by (auto simp: filter_empty_conv)
    with Cons.IH [OF tail g] show ?thesis by simp
  qed
qed simp

section \<open>Properties of the scheduling interface\<close>

text \<open>C27. Whatever sequence of calls models make on the scheduler (scheduling of one-shot, recurring,
  cancellable or source actions, cancellation, dropping of managed keys), the queue keeps only
  actions in the strict future of the simulation time, the simulation time does not move, no queued
  action is lost and no cancellation is undone. A recurring action with a null period gets into the
  queue in one way only, through \<^verbatim>\<open>schedule\<close>, under channel 0: all other calls refuse it.\<close>

theorem api_keeps_invariant:
  assumes "api_run tadd s s'" "sched_wf s"
  shows "sched_wf s' \<and> sched_time s' = sched_time s \<and> mset (queued s) \<subseteq># mset (queued s') \<and>
    (\<forall>(k, a) \<in> set (queued s'). positive_period a \<or> snd k = 0 \<or> (k, a) \<in> set (queued s)) \<and>
    (\<forall>k. key_is_cancelled (key_flags s) k \<longrightarrow> key_is_cancelled (key_flags s') k)"
  using api_run_keeps [OF assms] api_run_cancelled [OF assms(1)] unfolding calls_keep_def by blast

abbreviation nat_add :: "nat \<Rightarrow> duration \<Rightarrow> nat option" where
  "nat_add t d \<equiv> Some (t + d)"

definition init_scheduler :: "(nat, string) scheduler" where
  "init_scheduler = \<lparr>sched_queue = pq_new, sched_time = 0, key_flags = []\<rparr>"

lemma init_scheduler_ok: "sched_ok init_scheduler"
  by (simp add: init_scheduler_def sched_ok_def pq.empty_law)

lemma init_scheduler_wf: "sched_wf init_scheduler"
  using init_scheduler_ok by (simp add: sched_ok_iff)

lemma nat_add_ok: "time_add_ok nat_add" "time_forward nat_add"
  by (simp_all add: time_add_ok_def time_forward_def)

theorem api_keeps_invariant_witness:
  "\<exists>s'. schedule nat_add (DeadlineDuration 5) (PeriodicAction (Broadcast ''tick'') 0) init_scheduler = Some (Inr (), s') \<and>
     sched_wf s' \<and> sched_time s' = 0 \<and> (\<forall>(k, a) \<in> set (queued s'). positive_period a \<or> snd k = 0)"
proof -
  obtain s' where s': "schedule nat_add (DeadlineDuration 5) (PeriodicAction (Broadcast ''tick'') 0) init_scheduler = Some (Inr (), s')"
    by (simp add: schedule_def enqueue_def init_scheduler_def pq_new_def pq_insert_def)
  have "queued init_scheduler = []" by (simp add: init_scheduler_def pq.empty_law)
  with api_keeps_invariant [OF api_more [OF api_schedule [OF s'] api_done] init_scheduler_wf] s'
  show ?thesis by (auto simp: init_scheduler_def)
qed

text \<open>C30. The channel created first has identifier 0, the value under which \<^verbatim>\<open>schedule\<close> queues
  source actions: such an action and an event for the first channel due at the same time get
  the same key, although the source states that channel identifiers are never zero.\<close>

theorem first_channel_collides_with_source_actions:
  fixes s :: "('t::linorder, 'e) scheduler"
  assumes "sched_ok s" "into_time tadd dl (sched_time s) = Some t" "sched_time s < t" "positive_period a"
    and "schedule tadd dl a s = Some (Inr (), s1)"
    and "schedule_event tadd dl ev (fst (channel_new next_channel_id_init)) s1 = Some (Inr (), s2)"
  shows "\<exists>k. queued s2 = fifo_insert k (OnceAction (ProcessEvent (snd k) ev)) (fifo_insert k a (queued s)) \<and>
    k = (t, fst (channel_new next_channel_id_init))"
proof -
  have e1: "enqueue (t, 0) a s = Some s1" using assms(2,3,5) by (auto simp: schedule_def split: bind_splits if_splits)
  note o1 = enqueue_ok [OF assms(1) e1 _ assms(4)]
  have ok1: "sched_ok s1" "queued s1 = fifo_insert (t, 0) a (queued s)" "sched_time s1 = sched_time s"
    using o1 assms(3) by simp_all
  have "enqueue (t, 0) (OnceAction (ProcessEvent 0 ev)) s1 = Some s2"
    using assms(2,3,6) ok1(3)
    by (auto simp: schedule_event_def channel_new_def next_channel_id_init_def split: bind_splits if_splits)
  from enqueue_ok(2) [OF ok1(1) this] assms(3) ok1 show ?thesis
    by (simp add: channel_new_def next_channel_id_init_def)
qed

theorem first_channel_collides_witness:
  "\<exists>s1 s2. schedule nat_add (DeadlineDuration 5) (OnceAction (Broadcast ''src'')) init_scheduler = Some (Inr (), s1) \<and>
     schedule_event nat_add (DeadlineDuration 5) ''ev'' 0 s1 = Some (Inr (), s2) \<and>
     queued s2 = [((5, 0), OnceAction (Broadcast ''src'')), ((5, 0), OnceAction (ProcessEvent 0 ''ev''))]"
proof -
  let ?a = "OnceAction (Broadcast ''src'')"
  obtain s1 where s1: "schedule nat_add (DeadlineDuration 5) ?a init_scheduler = Some (Inr (), s1)"
    "pq_next_epoch (sched_queue s1) = 1" "sched_time s1 = 0"
    by (simp add: schedule_def enqueue_def init_scheduler_def pq_new_def pq_insert_def)
  then obtain s2 where s2: "schedule_event nat_add (DeadlineDuration 5) ''ev'' 0 s1 = Some (Inr (), s2)"
    by (simp add: schedule_event_def enqueue_def pq_insert_def)
  have q0: "queued init_scheduler = []" "sched_time init_scheduler = 0"
    by (simp_all add: init_scheduler_def pq.empty_law)
  from first_channel_collides_with_source_actions [OF init_scheduler_ok, of nat_add "DeadlineDuration 5" 5 ?a s1
      "''ev''" s2] s1 s2 q0
  have "queued s2 = [((5, 0), ?a), ((5, 0), OnceAction (ProcessEvent 0 ''ev''))]"
    by (simp add: channel_new_def next_channel_id_init_def)
  with s1 s2 show ?thesis by blast
qed

section \<open>Properties of a step\<close>


lemma one_event_state:
  "\<exists>s. schedule_event nat_add (DeadlineDuration 5) ''e'' 1 init_scheduler = Some (Inr (), s) \<and>
     sched_ok s \<and> can_step nat_add s \<and> sched_time s = 0 \<and> key_flags s = [] \<and>
     queued s = [((5, 1), OnceAction (ProcessEvent 1 ''e''))]"
proof -
  obtain s where s: "schedule_event nat_add (DeadlineDuration 5) ''e'' 1 init_scheduler = Some (Inr (), s)"
    "pq_next_epoch (sched_queue s) = 1"
    by (simp add: schedule_event_def enqueue_def init_scheduler_def pq_new_def pq_insert_def)
  have "enqueue (5, 1) (OnceAction (ProcessEvent 1 ''e'')) init_scheduler = Some s"
    using s(1) by (auto simp: schedule_event_def init_scheduler_def split: bind_splits if_splits)
  from enqueue_ok [OF init_scheduler_ok this] have "sched_ok s" "sched_time s = 0" "key_flags s = []"
    "queued s = [((5, 1), OnceAction (ProcessEvent 1 ''e''))]"
    by (simp_all add: init_scheduler_def pq.empty_law)
  with s show ?thesis by (auto simp: can_step_def)
qed


text \<open>C25. Events due at the same time for the same mailbox are processed in the order in which they were
  scheduled: in every run of the executor, whatever the interleaving of the tasks and whatever the
  models schedule or cancel meanwhile, one task processes exactly the futures of that mailbox, in
  queue order.\<close>

theorem same_mailbox_in_scheduling_order:
  assumes "sched_ok s" "time_add_ok tadd" "can_step tadd s"
    and "step_to_next_bounded inline tadd b s = Some (Some (plan, t), s1)"
    and "executor_run tadd (plan_futs plan) s1 tr s2"
    and "((t, ch), a) \<in> set (due t (key_flags s) (queued s))"
  shows "\<exists>i. map (\<lambda>x. fst (snd x)) (filter (\<lambda>x. fst x = i) tr) =
    map (\<lambda>e. into_future (snd e)) (filter (\<lambda>e. fst e = (t, ch)) (due t (key_flags s) (queued s)))"
proof -
  have "\<exists>e \<in> set (live s). fst (fst e) \<le> b"
  proof (rule ccontr)
    assume "\<not> ?thesis"
    then have "\<forall>e \<in> set (live s). b < fst (fst e)" by (auto simp: not_le)
    from step_none [OF assms(1) this, of inline tadd] assms(4) show False by auto
  qed
  then obtain e where "e \<in> set (live s)" "fst (fst e) \<le> b" by blast
  from step_some [OF assms(1-3) this, of inline] assms(4) obtain gs where
    gs: "plan_futs plan = map (map (\<lambda>e. into_future (snd e))) gs" "grouped gs"
    "concat gs = due t (key_flags s) (queued s)"
    by auto
  from assms(6) gs(3) obtain g where g: "g \<in> set gs" "((t, ch), a) \<in> set g"
    by (metis set_concat UN_iff)
  have "fst (hd g) = (t, ch)" using group_key [OF gs(2) g(1)] g(2) by (metis fst_conv)
  with grouped_filter [OF gs(2) g(1)] have fg: "filter (\<lambda>e. fst e = (t, ch)) (concat gs) = g" by simp
  from g(1) obtain i where i: "i < length gs" "gs ! i = g" by (auto simp: in_set_conv_nth)
  from executor_run_in_order [OF assms(5), of i] i gs(1)
  have "map (\<lambda>x. fst (snd x)) (filter (\<lambda>x. fst x = i) tr) = map (\<lambda>e. into_future (snd e)) g" by simp
  with fg gs(3) show ?thesis by metis
qed

theorem same_mailbox_witness:
  "\<exists>s plan s1 tr i. schedule_event nat_add (DeadlineDuration 5) ''e'' 1 init_scheduler = Some (Inr (), s) \<and>
     step_to_next_bounded False nat_add 9 s = Some (Some (plan, 5), s1) \<and>
     executor_run nat_add (plan_futs plan) s1 tr s1 \<and>
     map (\<lambda>x. fst (snd x)) (filter (\<lambda>x. fst x = i) tr) = [ProcessEvent 1 ''e'']"
proof -
  obtain s where s: "schedule_event nat_add (DeadlineDuration 5) ''e'' 1 init_scheduler = Some (Inr (), s)"
    "sched_ok s" "can_step nat_add s" "key_flags s = []"
    "queued s = [((5, 1), OnceAction (ProcessEvent 1 ''e''))]"
    using one_event_state by blast
  have live: "live s = [((5, 1), OnceAction (ProcessEvent 1 ''e''))]" using s by (simp add: live_def)
  have "\<exists>plan s1. step_to_next_bounded False nat_add 9 s = Some (Some (plan, 5), s1)"
    using step_some [OF s(2) nat_add_ok(1) s(3), of "((5, 1), OnceAction (ProcessEvent 1 ''e''))" 9 False] live
    by auto
  then obtain plan s1 where step: "step_to_next_bounded False nat_add 9 s = Some (Some (plan, 5), s1)" by blast
  obtain tr where tr: "executor_run nat_add (plan_futs plan) s1 tr s1" using executor_run_exists by blast
  have due: "due 5 (key_flags s) (queued s) = [((5, 1), OnceAction (ProcessEvent 1 ''e''))]"
    using s by (simp add: due_def)
  have "\<exists>i. map (\<lambda>x. fst (snd x)) (filter (\<lambda>x. fst x = i) tr) = [ProcessEvent 1 ''e'']"
    using same_mailbox_in_scheduling_order [OF s(2) nat_add_ok(1) s(3) step tr, of 1 "OnceAction (ProcessEvent 1 ''e'')"]
    unfolding due by simp
  with s(1) step tr show ?thesis by (elim exE, intro exI conjI)
qed

section \<open>Cancellation\<close>

text \<open>C28. An event whose key is cancelled before the executor runs is not delivered, even if its future
  has been handed to the executor already; with the exclusion of cancelled actions from the tasks
  of a step, a cancelled event never reaches its model.\<close>

theorem cancelled_event_not_delivered:
  assumes "executor_run tadd ts s tr s'" "key_is_cancelled (key_flags s) k"
    and "(i, SendKeyedEvent k ch e, ds) \<in> set tr"
  shows "ds = []"
  using assms
proof (induction rule: executor_run.induct)
  case (exec_more j ts f fs s s0 s1 tr s2)
  note k0 = api_run_cancelled [OF exec_more.hyps(3) exec_more.prems(1)]
  note k1 = api_run_cancelled [OF exec_more.hyps(4) k0]
  from k0 exec_more.IH [OF k1] exec_more.prems(2) show ?case by auto
qed simp

theorem cancelled_event_witness:
  "\<exists>s tr. s = key_cancel 0 (snd (key_new init_scheduler)) \<and>
     executor_run nat_add [[SendKeyedEvent 0 1 ''e'']] s tr s \<and> tr = [(0, SendKeyedEvent 0 1 ''e'', [])]"
proof -
  let ?s = "key_cancel 0 (snd (key_new init_scheduler))" and ?f = "SendKeyedEvent 0 1 ''e''"
  have run: "executor_run nat_add [[?f]] ?s [(0, ?f, delivers (key_flags ?s) ?f)] ?s"
    by (rule exec_more [where fs = "[]"]) (auto intro: api_done exec_done)
  have "key_is_cancelled (key_flags ?s) 0"
    by (simp add: key_cancel_def key_new_def key_is_cancelled_def init_scheduler_def)
  from cancelled_event_not_delivered [OF run this, of 0 1 "''e''" "delivers (key_flags ?s) ?f"]
  have "delivers (key_flags ?s) ?f = []" by simp
  with run show ?thesis by auto
qed

section \<open>Stepping to a target time\<close>

lemma step_until_err_eq:
  "sched_time s \<ge> t \<Longrightarrow> step_until inline tadd t s r s' \<longleftrightarrow> r = Inl InvalidScheduledTime \<and> s' = s"
  by (auto simp: step_until.simps)

text \<open>C26. Stepping to a target time is refused exactly when the target is not in the future, and then
  changes nothing. Otherwise, when it completes, the simulation time equals the target, whether or
  not an action was due then, and everything left in the queue is due strictly later; this holds
  whatever the models schedule or cancel on the way, recurring actions with a null period included.\<close>

theorem step_until_reaches_target:
  assumes "sched_wf s" "time_forward tadd" "step_until inline tadd target s r s'"
  shows "if target \<le> sched_time s then r = Inl InvalidScheduledTime \<and> s' = s
    else r = Inr () \<and> sched_time s' = target \<and> sched_wf s'"
  using assms(3)
proof cases
  case step_until_err
  then show ?thesis by simp
next
  case step_until_ok
  with step_until_unchecked_returns [OF _ assms(1,2)] show ?thesis by auto
qed

theorem step_until_reaches_target_witness:
  "\<exists>s'. step_until True nat_add 7 init_scheduler (Inr ()) s' \<and> sched_time s' = 7 \<and> sched_wf s'"
proof -
  let ?s = "init_scheduler"
  have q: "queued ?s = []" by (simp add: init_scheduler_def pq.empty_law)
  then obtain s1 where "step_to_next_bounded True nat_add 7 ?s = Some (None, s1)"
    using step_none [OF init_scheduler_ok, of 7 True nat_add] by (auto simp: live_def)
  then have "step_until_unchecked True nat_add 7 ?s (s1\<lparr>sched_time := 7\<rparr>)"
    by (intro until_none sim_none)
  then have run: "step_until True nat_add 7 ?s (Inr ()) (s1\<lparr>sched_time := 7\<rparr>)"
    by (intro step_until_ok) (simp_all add: init_scheduler_def)
  from step_until_reaches_target [OF init_scheduler_wf nat_add_ok(2) run] run show ?thesis
    by (auto simp: init_scheduler_def split: if_splits)
qed

section \<open>Null periods\<close>

text \<open>
  \<open>Scheduler::schedule\<close> accepts any action, also a recurring one with period zero as
  \<^verbatim>\<open>EventSource::periodic_event\<close> creates it. Every pull re-inserts it under the key it had. To tell a
  loop that goes on from a panic, the rounds of the loop are counted: \<open>gather_rounds n\<close> is the state
  after \<open>n\<close> rounds, each of which found the same key again, and \<open>step_rounds n\<close> is a step that has
  entered the loop under its first key and completed \<open>n\<close> rounds of it.
\<close>

primrec gather_rounds ::
    "nat \<Rightarrow> ('t::linorder \<Rightarrow> duration \<Rightarrow> 't option) \<Rightarrow> 't \<Rightarrow> bool list \<Rightarrow> 't sched_key \<Rightarrow>
       'e fut seq_future \<Rightarrow> ('t, 'e) scheduler_queue \<Rightarrow> ('e fut seq_future \<times> ('t, 'e) scheduler_queue) option" where
  "gather_rounds 0 tadd bound flags key sf q = Some (sf, q)"
| "gather_rounds (Suc n) tadd bound flags key sf q =
     do {
       (sf, next_key, q) \<leftarrow> gather_round tadd bound flags sf q;
       if next_key = Some key then gather_rounds n tadd bound flags key sf q else None
     }"

definition step_rounds ::
    "nat \<Rightarrow> ('t::linorder \<Rightarrow> duration \<Rightarrow> 't option) \<Rightarrow> 't \<Rightarrow> ('t, 'e) scheduler \<Rightarrow>
       ('e fut seq_future \<times> ('t, 'e) scheduler_queue) option" where
  "step_rounds n tadd bound s =
     (case peek_next_key bound (key_flags s) (sched_queue s) of
        (None, q) \<Rightarrow> None
      | (Some key, q) \<Rightarrow>
          do {
            (action, q) \<leftarrow> pull_next_action tadd q;
            let (next_key, q) = peek_next_key bound (key_flags s) q;
            if next_key = Some key
            then gather_rounds n tadd bound (key_flags s) key (seq_push (into_future action) seq_new) q
            else None
          })"

text \<open>After completed rounds, the loop goes on from where they ended.\<close>

lemma gather_after_rounds:
  "gather_rounds n tadd b flags key sf q = Some (sf', q') \<Longrightarrow> gather tadd b flags key sf q = gather tadd b flags key sf' q'"
proof (induction n arbitrary: sf q)
  case (Suc n)
  then obtain sf1 q1 where "gather_round tadd b flags sf q = Some (sf1, Some key, q1)"
    "gather_rounds n tadd b flags key sf1 q1 = Some (sf', q')"
    by (auto split: bind_splits if_splits)
  with Suc.IH show ?case by (subst gather.simps) simp
qed simp

text \<open>The queue in which a null-period action comes first, and what a round makes of it.\<close>

definition null_first :: "'t::linorder \<Rightarrow> 'e action \<Rightarrow> ('t, 'e) scheduler_queue \<Rightarrow> bool" where
  "null_first t a q \<longleftrightarrow> pq_invar q \<and>
     (\<exists>L. pq_contents q = ((t, 0), a) # L \<and> (\<forall>e \<in> set L. t < fst (fst e)))"

lemma pull_null_period:
  assumes q: "null_first t a q" and a: "action_next a = Some (a, 0)" "tadd t 0 = Some t"
  shows "if pq_next_epoch q = - 1 then pull_next_action tadd q = None
    else \<exists>q'. pull_next_action tadd q = Some (a, q') \<and> null_first t a q' \<and>
      unat (pq_next_epoch q') = Suc (unat (pq_next_epoch q))"
proof -
  obtain L where L: "pq_invar q" "pq_contents q = ((t, 0), a) # L" "\<forall>e \<in> set L. t < fst (fst e)"
    using q by (auto simp: null_first_def)
  obtain q1 where q1: "pq_pull q = (Some ((t, 0), a), q1)" "pq_invar q1" "pq_contents q1 = L"
    "pq_next_epoch q1 = pq_next_epoch q"
    using pq_pull_contents [OF L(1,2)] .
  have front: "fifo_insert (t, 0) a L = ((t, 0), a) # L"
    by (rule fifo_insert_front) (use L(3) in \<open>auto simp: less_prod_def\<close>)
  show ?thesis
  proof (cases "pq_next_epoch q = - 1")
    case True
    with pq.insert_panic_law [of q1] q1 a show ?thesis by (simp add: pull_next_action_def)
  next
    case False
    with pq.insert_law [OF q1(2), of "(t, 0)" a] q1 front obtain q2 where
      "pq_insert (t, 0) a q1 = Some q2" "pq_invar q2" "pq_contents q2 = ((t, 0), a) # L" "pq_next_epoch q2 = pq_next_epoch q + 1"
      by auto
    with False q1 a L(3) unat_plus_one [OF False] show ?thesis by (simp add: pull_next_action_def null_first_def)
  qed
qed

lemma peek_null_period:
  assumes "null_first t a q" "t \<le> b" "\<not> action_is_cancelled flags a"
  shows "\<exists>q'. peek_next_key b flags q = (Some (t, 0), q') \<and> null_first t a q' \<and> pq_next_epoch q' = pq_next_epoch q"
  using peek_next_key_spec [of q b flags] assms by (auto simp: null_first_def skippable_def head_key_def)

lemma gather_round_null_period:
  assumes "null_first t a q" "action_next a = Some (a, 0)" "tadd t 0 = Some t" "t \<le> b" "\<not> action_is_cancelled flags a"
  shows "if pq_next_epoch q = - 1 then gather_round tadd b flags sf q = None
    else \<exists>q'. gather_round tadd b flags sf q = Some (seq_push (into_future a) sf, Some (t, 0), q') \<and>
      null_first t a q' \<and> unat (pq_next_epoch q') = Suc (unat (pq_next_epoch q))"
proof (cases "pq_next_epoch q = - 1")
  case True
  with pull_null_period [of t a q tadd] assms show ?thesis by (simp add: gather_round_def)
next
  case False
  with pull_null_period [of t a q tadd] assms obtain q1 where q1: "pull_next_action tadd q = Some (a, q1)"
    "null_first t a q1" "unat (pq_next_epoch q1) = Suc (unat (pq_next_epoch q))"
    by auto
  from peek_null_period [OF q1(2) assms(4,5)] False q1 show ?thesis by (auto simp: gather_round_def)
qed

lemma last_epoch: "(e :: u64) = - 1 \<longleftrightarrow> unat e + 1 = 2 ^ 64"
proof -
  have "unat (- 1 :: u64) = 2 ^ 64 - 1" using unat_max [where 'a = 64] by simp
  then show ?thesis unfolding word_unat_eq_iff by simp
qed

lemma gather_rounds_null_period:
  assumes "null_first t a q" "action_next a = Some (a, 0)" "tadd t 0 = Some t" "t \<le> b" "\<not> action_is_cancelled flags a"
  shows "map_option (sf_inner \<circ> fst) (gather_rounds n tadd b flags (t, 0) sf q) =
    (if unat (pq_next_epoch q) + n < 2 ^ 64 then Some (sf_inner sf @ replicate n (into_future a)) else None)"
  using assms(1)
proof (induction n arbitrary: sf q)
  case 0
  then show ?case using unsigned_less [of "pq_next_epoch q"] by simp
next
  case (Suc n)
  note round = gather_round_null_period [of t a q tadd b flags sf, OF Suc.prems assms(2-5)]
  show ?case
  proof (cases "pq_next_epoch q = - 1")
    case True
    with round show ?thesis using last_epoch [of "pq_next_epoch q"] by simp
  next
    case False
    with round obtain q' where q': "gather_round tadd b flags sf q = Some (seq_push (into_future a) sf, Some (t, 0), q')"
      "null_first t a q'" "unat (pq_next_epoch q') = Suc (unat (pq_next_epoch q))"
      by auto
    with Suc.IH [OF q'(2), of "seq_push (into_future a) sf"] show ?thesis by (simp add: seq_push_def)
  qed
qed

text \<open>The loop never leaves: its rounds go on until the epochs are used up.\<close>

lemma gather_null_period:
  assumes "null_first t a q" "action_next a = Some (a, 0)" "tadd t 0 = Some t" "t \<le> b" "\<not> action_is_cancelled flags a"
  shows "gather tadd b flags (t, 0) sf q = None"
  using assms(1)
proof (induction "2 ^ 64 - unat (pq_next_epoch q)" arbitrary: q sf rule: less_induct)
  case less
  note round = gather_round_null_period [of t a q tadd b flags sf, OF less.prems assms(2-5)]
  show ?case
  proof (cases "pq_next_epoch q = - 1")
    case True
    with round show ?thesis by (subst gather.simps) simp
  next
    case False
    with round obtain q' where q': "gather_round tadd b flags sf q = Some (seq_push (into_future a) sf, Some (t, 0), q')"
      "null_first t a q'" "unat (pq_next_epoch q') = Suc (unat (pq_next_epoch q))"
      by auto
    have "unat (pq_next_epoch q') < 2 ^ 64" using unsigned_less [of "pq_next_epoch q'"] by simp
    with less.hyps [OF _ q'(2)] q' show ?thesis by (subst gather.simps) simp
  qed
qed

text \<open>C29. \<^verbatim>\<open>schedule\<close> accepts an action that recurs with a null period, which the other scheduling functions
  refuse, and the step that reaches it does not return. If the action is due before everything else in
  the queue, the loop that gathers the actions of one mailbox pulls it and re-inserts it under the same
  key in every round: after any number of rounds the compound future holds that many more copies of it
  and the loop goes on, as long as there are insertion epochs left (of \<open>2 ^ 64\<close>); then it panics.\<close>

theorem null_period_step_never_returns:
  fixes s :: "('t::linorder, 'e) scheduler"
  assumes "sched_wf s" "pq_next_epoch (sched_queue s) \<noteq> - 1"
    and t: "into_time tadd dl (sched_time s) = Some t" "sched_time s < t" "t \<le> b" "tadd t 0 = Some t"
    and a: "action_next a = Some (a, 0)" "\<not> action_is_cancelled (key_flags s) a"
    and first: "\<forall>e \<in> set (queued s). t < fst (fst e)"
  shows "\<exists>s'. schedule tadd dl a s = Some (Inr (), s') \<and> step_to_next_bounded inline tadd b s' = None \<and>
    (\<forall>n. map_option (sf_inner \<circ> fst) (step_rounds n tadd b s') =
      (if unat (pq_next_epoch (sched_queue s')) + n + 1 < 2 ^ 64 then Some (replicate (n + 1) (into_future a)) else None))"
proof -
  from pq.insert_law [of "sched_queue s" "(t, 0)" a] assms(1,2) obtain q where
    q: "pq_insert (t, 0) a (sched_queue s) = Some q" "pq_invar q" "pq_contents q = fifo_insert (t, 0) a (queued s)"
    by (auto simp: sched_wf_def)
  have "fifo_insert (t, 0) a (queued s) = ((t, 0), a) # queued s"
    by (rule fifo_insert_front) (use first in \<open>auto simp: less_prod_def\<close>)
  then have nf: "null_first t a q" using q(2,3) first by (simp add: null_first_def)
  let ?s = "s\<lparr>sched_queue := q\<rparr>" and ?fl = "key_flags s"
  have sched: "schedule tadd dl a s = Some (Inr (), ?s)" using t q(1) by (simp add: schedule_def enqueue_def)
  from peek_null_period [OF nf t(3) a(2)] obtain q1 where
    q1: "peek_next_key b ?fl q = (Some (t, 0), q1)" "null_first t a q1" "pq_next_epoch q1 = pq_next_epoch q"
    by blast
  note pull = pull_null_period [of t a q1 tadd, OF q1(2) a(1) t(4)]
  show ?thesis
  proof (cases "pq_next_epoch q1 = - 1")
    case True
    then have "step_loop inline tadd b ?fl True (t, 0) [] q1 = None" using pull by (subst step_loop.simps) simp
    moreover have "unat (pq_next_epoch q) + 1 = 2 ^ 64" using True q1(3) last_epoch [of "pq_next_epoch q"] by simp
    moreover have "step_rounds n tadd b ?s = None" for n using True pull q1(1) by (simp add: step_rounds_def)
    ultimately show ?thesis using sched q1(1) by (auto simp: step_to_next_bounded_def)
  next
    case False
    with pull obtain q2 where q2: "pull_next_action tadd q1 = Some (a, q2)" "null_first t a q2"
      "unat (pq_next_epoch q2) = Suc (unat (pq_next_epoch q))"
      using q1(3) by auto
    from peek_null_period [OF q2(2) t(3) a(2)] obtain q3 where
      q3: "peek_next_key b ?fl q2 = (Some (t, 0), q3)" "null_first t a q3" "pq_next_epoch q3 = pq_next_epoch q2"
      by blast
    note loop = gather_null_period [of t a q3 tadd b ?fl, OF q3(2) a(1) t(4,3) a(2)]
    have "step_loop inline tadd b ?fl True (t, 0) [] q1 = None" using loop q2(1) q3(1) by (subst step_loop.simps) simp
    moreover have "step_rounds n tadd b ?s = gather_rounds n tadd b ?fl (t, 0) (seq_push (into_future a) seq_new) q3" for n
      using q1(1) q2(1) q3(1) by (simp add: step_rounds_def)
    ultimately show ?thesis
      using sched q1(1) q2(3) q3(3) gather_rounds_null_period [of t a q3 tadd b ?fl, OF q3(2) a(1) t(4,3) a(2)]
      by (auto simp: step_to_next_bounded_def seq_push_def seq_new_def)
  qed
qed

theorem null_period_witness:
  "\<exists>s'. schedule nat_add (DeadlineDuration 1) (PeriodicAction (Broadcast ''tick'') 0) init_scheduler = Some (Inr (), s') \<and>
     step_to_next_bounded True nat_add 10 s' = None \<and>
     map_option (sf_inner \<circ> fst) (step_rounds 2 nat_add 10 s') = Some (replicate (2 + 1) (Broadcast ''tick''))"
proof -
  let ?a = "PeriodicAction (Broadcast ''tick'') 0"
  have i: "queued init_scheduler = []" "sched_time init_scheduler = 0" "pq_next_epoch (sched_queue init_scheduler) = 0"
    by (simp_all add: init_scheduler_def pq.empty_law)
  obtain s' where s': "schedule nat_add (DeadlineDuration 1) ?a init_scheduler = Some (Inr (), s')"
    "pq_next_epoch (sched_queue s') = 1"
    by (simp add: schedule_def enqueue_def init_scheduler_def pq_new_def pq_insert_def)
  from null_period_step_never_returns [OF init_scheduler_wf, of nat_add "DeadlineDuration 1" 1 10 ?a True] i s'
  have "step_to_next_bounded True nat_add 10 s' = None"
    "map_option (sf_inner \<circ> fst) (step_rounds 2 nat_add 10 s') = Some (replicate (2 + 1) (Broadcast ''tick''))"
    by (simp_all del: One_nat_def replicate.simps)
  with s'(1) show ?thesis by blast
qed

end
