(* ===== verification/Sim_Rng.thy ===== *)
theory Sim_Rng
  imports Prelude
begin

text \<open>
  Deterministic randomness of the simulator, \<^verbatim>\<open>examples/lib/sim_rng.rs\<close>: the SplitMix64 streams
  of a run, their derivation from seed and tag, the run's construction counter and memo table, and
  the multiply-rotate hasher; and the generator of the executor,
  \<^verbatim>\<open>asynchronix/src/util/rng.rs\<close>. All arithmetic is on 64-bit (for the multiply-shift, 128-bit)
  words. The mixing function is shown to be a bijection, which is what keeps the streams of
  different owners apart.
\<close>

section \<open>Mixing\<close>

definition mix64 :: "u64 \<Rightarrow> u64" where
  "mix64 z =
     (let z = z + 0x9E3779B97F4A7C15;
          z = (z XOR drop_bit 30 z) * 0xBF58476D1CE4E5B9;
          z = (z XOR drop_bit 27 z) * 0x94D049BB133111EB
      in z XOR drop_bit 31 z)"

definition tag :: "u64 list \<Rightarrow> u64" where
  "tag parts = fold (\<lambda>p acc. mix64 (acc XOR mix64 p)) parts 0x243F6A8885A308D3"

definition tag_str :: "bytes \<Rightarrow> u64" where
  "tag_str s = fold (\<lambda>b h. (h XOR ucast b) * 0x00000100000001B3) s 0xCBF29CE484222325"

section \<open>Streams\<close>

record sim_rng =
  rng_state :: u64

definition sim_rng_new :: "u64 \<Rightarrow> sim_rng" where
  "sim_rng_new seed = \<lparr>rng_state = mix64 seed\<rparr>"

definition for_seed :: "u64 \<Rightarrow> u64 \<Rightarrow> sim_rng" where
  "for_seed seed tg = sim_rng_new (seed XOR mix64 tg)"

definition next_u64 :: "sim_rng \<Rightarrow> u64 \<times> sim_rng" where
  "next_u64 r =
     (let r = r\<lparr>rng_state := rng_state r + 0x9E3779B97F4A7C15\<rparr>;
          z = rng_state r;
          z = (z XOR drop_bit 30 z) * 0xBF58476D1CE4E5B9;
          z = (z XOR drop_bit 27 z) * 0x94D049BB133111EB
      in (z XOR drop_bit 31 z, r))"

definition next_u32 :: "sim_rng \<Rightarrow> u32 \<times> sim_rng" where
  "next_u32 r = (let (x, r) = next_u64 r in (ucast (drop_bit 32 x), r))"

text \<open>The bytes written over a destination of \<open>n\<close> bytes, in chunks of eight.\<close>

fun fill_bytes :: "nat \<Rightarrow> sim_rng \<Rightarrow> bytes \<times> sim_rng" where
  "fill_bytes n r =
     (if n = 0 then ([], r)
      else
        let (x, r) = next_u64 r;
            b = take (min 8 n) (to_le_bytes 8 x);
            (bs, r) = fill_bytes (n - min 8 n) r
        in (b @ bs, r))"

declare fill_bytes.simps [simp del]

section \<open>The run\<close>

definition default_seed :: u64 where
  "default_seed = 0x51573D57A5EED001"

record run_rng =
  run_seed :: u64
  run_counter :: u64
  run_once :: "string \<Rightarrow> u64 option"

definition run_new :: "u64 \<Rightarrow> run_rng" where
  "run_new seed = \<lparr>run_seed = seed, run_counter = 0, run_once = (\<lambda>_. None)\<rparr>"

definition run_stream :: "run_rng \<Rightarrow> u64 \<Rightarrow> sim_rng" where
  "run_stream run tg = for_seed (run_seed run) tg"

definition next_stream :: "bytes \<Rightarrow> run_rng \<Rightarrow> sim_rng \<times> run_rng" where
  "next_stream tag_name run =
     (let n = run_counter run;
          run = run\<lparr>run_counter := n + 1\<rparr>
      in (run_stream run (tag [tag_str tag_name, n]), run))"

definition run_once_draw :: "string \<Rightarrow> (run_rng \<Rightarrow> u64 \<times> run_rng) \<Rightarrow> run_rng \<Rightarrow> u64 \<times> run_rng" where
  "run_once_draw key draw run =
     (case run_once run key of
        Some v \<Rightarrow> (v, run)
      | None \<Rightarrow>
          let (v, run) = draw run
          in (v, run\<lparr>run_once := (run_once run)(key \<mapsto> v)\<rparr>))"

text \<open>The thread's current run; the accessors panic in model code.\<close>

definition assert_setup :: "bool \<Rightarrow> unit option" where
  "assert_setup in_model_context = assert_opt (\<not> in_model_context)"

definition current_run :: "bool \<Rightarrow> run_rng \<Rightarrow> run_rng option" where
  "current_run in_model run = do { assert_setup in_model; Some run }"

definition stream :: "bool \<Rightarrow> u64 \<Rightarrow> run_rng \<Rightarrow> sim_rng option" where
  "stream in_model tg run = map_option (\<lambda>run. run_stream run tg) (current_run in_model run)"

definition global_next_stream :: "bool \<Rightarrow> bytes \<Rightarrow> run_rng \<Rightarrow> (sim_rng \<times> run_rng) option" where
  "global_next_stream in_model tag_name run =
     map_option (next_stream tag_name) (current_run in_model run)"

definition set_global_seed :: "bool \<Rightarrow> u64 \<Rightarrow> run_rng \<Rightarrow> run_rng option" where
  "set_global_seed in_model seed run = do { assert_setup in_model; Some (run_new seed) }"

definition global_seed :: "bool \<Rightarrow> run_rng \<Rightarrow> u64 option" where
  "global_seed in_model run = map_option run_seed (current_run in_model run)"

section \<open>The multiply-rotate hasher\<close>

record fast_hasher =
  fh_hash :: u64

definition fh_add :: "u64 \<Rightarrow> fast_hasher \<Rightarrow> fast_hasher" where
  "fh_add w h = h\<lparr>fh_hash := (fh_hash h + w) * 0xf1357aea2e62a9c5\<rparr>"

fun fh_write :: "bytes \<Rightarrow> fast_hasher \<Rightarrow> fast_hasher" where
  "fh_write bytes h =
     (if 8 \<le> length bytes then fh_write (drop 8 bytes) (fh_add (from_le_bytes (take 8 bytes)) h)
      else if bytes \<noteq> [] then
        let b = bytes @ replicate (8 - length bytes) 0
        in fh_add (from_le_bytes b XOR push_bit 56 (of_nat (length bytes))) h
      else h)"

declare fh_write.simps [simp del]

text \<open>The fixed-width writes; the signed ones first reinterpret their argument as unsigned of the same
  width, which is the identity on words.\<close>

definition fh_write_u8 :: "u8 \<Rightarrow> fast_hasher \<Rightarrow> fast_hasher" where
  "fh_write_u8 i h = fh_add (ucast i) h"

definition fh_write_u16 :: "u16 \<Rightarrow> fast_hasher \<Rightarrow> fast_hasher" where
  "fh_write_u16 i h = fh_add (ucast i) h"

definition fh_write_u32 :: "u32 \<Rightarrow> fast_hasher \<Rightarrow> fast_hasher" where
  "fh_write_u32 i h = fh_add (ucast i) h"

definition fh_write_u64 :: "u64 \<Rightarrow> fast_hasher \<Rightarrow> fast_hasher" where
  "fh_write_u64 i h = fh_add i h"

definition fh_finish :: "fast_hasher \<Rightarrow> u64" where
  "fh_finish h = word_rotl 26 (fh_hash h)"

section \<open>The executor's generator\<close>

record wy_rng =
  wy_seed :: u64

definition wy_gen :: "wy_rng \<Rightarrow> u64 \<times> wy_rng" where
  "wy_gen r =
     (let seed = wy_seed r + 0xA0761D6478BD642F;
          r = r\<lparr>wy_seed := seed\<rparr>;
          t = (ucast seed :: 128 word) * ucast (seed XOR 0xE7037ED1A0B428DB)
      in (ucast t XOR ucast (drop_bit 64 t), r))"

definition gen_bounded :: "u64 \<Rightarrow> wy_rng \<Rightarrow> u64 \<times> wy_rng" where
  "gen_bounded upper_bound r =
     (let (x, r) = wy_gen r
      in (ucast (drop_bit 64 ((ucast x :: 128 word) * ucast upper_bound)), r))"

section \<open>Bijectivity of the mixing function\<close>

lemma xorshift_inj:
  fixes y z :: "'a::len word"
  assumes "0 < n" "z XOR drop_bit n z = y XOR drop_bit n y"
  shows "z = y"
proof (rule bit_word_eqI)
  fix k
  assume "k < LENGTH('a)"
  then show "bit z k \<longleftrightarrow> bit y k"
  proof (induction "LENGTH('a) - k" arbitrary: k rule: less_induct)
    case less
    have "bit (z XOR drop_bit n z) k \<longleftrightarrow> bit (y XOR drop_bit n y) k" using assms(2) by simp
    then have eq: "(bit z k \<noteq> bit z (n + k)) \<longleftrightarrow> (bit y k \<noteq> bit y (n + k))"
      by (simp add: bit_xor_iff bit_drop_bit_eq)
    show ?case
    proof (cases "n + k < LENGTH('a)")
      case True
      have "bit z (n + k) \<longleftrightarrow> bit y (n + k)" using less.hyps [of "n + k"] True assms(1) by simp
      with eq show ?thesis by blast
    next
      case False
      then have "\<not> bit z (n + k)" "\<not> bit y (n + k)" using bit_imp_le_length by blast+
      with eq show ?thesis by blast
    qed
  qed
qed

lemma mult_unit_inj:
  fixes x y :: "'a::len word"
  assumes "c * d = 1" "x * c = y * c"
  shows "x = y"
proof -
  have "x * c * d = y * c * d" using assms(2) by simp
  then show ?thesis using assms(1) by (simp add: mult.assoc)
qed

lemma mix_units:
  "(0xBF58476D1CE4E5B9 :: u64) * 0x96DE1B173F119089 = 1"
  "(0x94D049BB133111EB :: u64) * 0x319642B2D24D8EC3 = 1"
  "(0x9E3779B97F4A7C15 :: u64) * 0xF1DE83E19937733D = 1"
  by simp_all

lemmas mix_mult_inj = mix_units [THEN mult_unit_inj]

lemma next_u64_mix64: "fst (next_u64 r) = mix64 (rng_state r)"
  by (simp add: next_u64_def mix64_def Let_def)

lemma next_u64_state: "rng_state (snd (next_u64 r)) = rng_state r + 0x9E3779B97F4A7C15"
  by (simp add: next_u64_def Let_def)

lemma mix64_inj: "mix64 x = mix64 y \<Longrightarrow> x = y"
  unfolding mix64_def Let_def
  by (drule xorshift_inj [rotated], simp, drule mix_mult_inj(2), drule xorshift_inj [rotated], simp,
      drule mix_mult_inj(1), drule xorshift_inj [rotated], simp, simp)

lemma mix64_eq_iff [simp]: "mix64 x = mix64 y \<longleftrightarrow> x = y"
  using mix64_inj by blast

lemma xor_cancel: "(a :: 'a::len word) XOR b = a XOR c \<longleftrightarrow> b = c"
  by (metis bit.xor_left_self)

lemma for_seed_inj: "for_seed s t = for_seed s t' \<longleftrightarrow> t = t'"
  by (simp add: for_seed_def sim_rng_new_def xor_cancel)

lemma tag_snoc: "tag (ps @ [p]) = mix64 (tag ps XOR mix64 p)"
  by (simp add: tag_def)

lemma tag_last_inj: "tag (ps @ [p]) = tag (ps @ [q]) \<longleftrightarrow> p = q"
  by (simp add: tag_snoc xor_cancel)

section \<open>Sequences of draws\<close>

primrec draws :: "nat \<Rightarrow> sim_rng \<Rightarrow> u64 list" where
  "draws 0 r = []"
| "draws (Suc n) r = (let (x, r) = next_u64 r in x # draws n r)"

lemma draws_eq: "draws n r = map (\<lambda>k. mix64 (rng_state r + of_nat k * 0x9E3779B97F4A7C15)) [0..<n]"
proof (induction n arbitrary: r)
  case (Suc n)
  have "draws (Suc n) r = mix64 (rng_state r) # draws n (snd (next_u64 r))"
    by (simp add: case_prod_beta next_u64_mix64)
  also have "\<dots> = mix64 (rng_state r + of_nat 0 * 0x9E3779B97F4A7C15) #
      map (\<lambda>k. mix64 (rng_state r + of_nat (Suc k) * 0x9E3779B97F4A7C15)) [0..<n]"
    by (simp add: Suc next_u64_state algebra_simps)
  also have "\<dots> = map (\<lambda>k. mix64 (rng_state r + of_nat k * 0x9E3779B97F4A7C15)) (0 # map Suc [0..<n])"
    by (simp add: comp_def)
  finally show ?case by (simp only: map_Suc_upt upt_conv_Cons zero_less_Suc)
qed simp

lemma of_nat_u64_inj: "i < 2 ^ 64 \<Longrightarrow> j < 2 ^ 64 \<Longrightarrow> (of_nat i :: u64) = of_nat j \<longleftrightarrow> i = j"
  by (simp add: word_of_nat_eq_iff take_bit_nat_eq_self)

primrec next_streams :: "nat \<Rightarrow> bytes \<Rightarrow> run_rng \<Rightarrow> sim_rng list" where
  "next_streams 0 name run = []"
| "next_streams (Suc n) name run = (let (r, run) = next_stream name run in r # next_streams n name run)"

lemma next_streams_eq:
  "next_streams n name run =
     map (\<lambda>k. for_seed (run_seed run) (tag [tag_str name, run_counter run + of_nat k])) [0..<n]"
proof (induction n arbitrary: run)
  case (Suc n)
  have "next_streams (Suc n) name run =
      for_seed (run_seed run) (tag [tag_str name, run_counter run + of_nat 0]) #
      map (\<lambda>k. for_seed (run_seed run) (tag [tag_str name, run_counter run + of_nat (Suc k)])) [0..<n]"
    by (simp add: Suc next_stream_def run_stream_def Let_def algebra_simps)
  also have "\<dots> = map (\<lambda>k. for_seed (run_seed run) (tag [tag_str name, run_counter run + of_nat k])) (0 # map Suc [0..<n])"
    by (simp add: comp_def)
  finally show ?case by (simp only: map_Suc_upt upt_conv_Cons zero_less_Suc)
qed simp

lemma length_fill_bytes: "length (fst (fill_bytes n r)) = n"
proof (induction n r rule: fill_bytes.induct)
  case (1 n r)
  then show ?case
    by (subst fill_bytes.simps) (auto simp: Let_def case_prod_beta prod_eq_iff)
qed

lemma unat_ucast_128: "unat (ucast (x :: u64) :: 128 word) = unat x"
proof -
  have "unat x < 2 ^ 64" using unsigned_less [of x] by simp
  then have "unat x < 2 ^ 128" by (rule less_le_trans) simp
  then show ?thesis by (simp add: unsigned_ucast_eq take_bit_nat_eq_self)
qed

lemma multiply_shift:
  fixes x u :: u64
  shows "unat (ucast (drop_bit 64 ((ucast x :: 128 word) * ucast u)) :: u64) = unat x * unat u div 2 ^ 64"
proof -
  let ?m = "(ucast x :: 128 word) * ucast u"
  have bx: "unat x < 2 ^ 64" and bu: "unat u < 2 ^ 64"
    using unsigned_less [of x] unsigned_less [of u] by simp_all
  have lt: "unat x * unat u < 2 ^ 64 * 2 ^ 64" using bx bu by (intro mult_strict_mono) auto
  then have m: "unat ?m = unat x * unat u"
    by (simp add: unat_word_ariths unat_ucast_128)
  have "unat x * unat u div 2 ^ 64 < 2 ^ 64" using lt by (simp add: less_mult_imp_div_less)
  then have "take_bit 64 (drop_bit 64 (unat ?m)) = unat x * unat u div 2 ^ 64"
    by (simp add: m drop_bit_eq_div take_bit_nat_eq_self)
  moreover have "unat (ucast (drop_bit 64 ?m) :: u64) = take_bit 64 (unat (drop_bit 64 ?m))"
    by (simp add: unsigned_ucast_eq)
  moreover have "unat (drop_bit 64 ?m) = drop_bit 64 (unat ?m)"
    by (simp add: unat_drop_bit_eq)
  ultimately show ?thesis by simp
qed

section \<open>Properties\<close>

text \<open>C31. The streams of one run are separated by their tags: with the same seed, two owners get the same
  generator state exactly if their tags are equal; the mixing function is a bijection on 64 bits.\<close>

theorem stream_determined_by_tag:
  "run_stream run t = run_stream run t' \<longleftrightarrow> t = t'"
  by (simp add: run_stream_def for_seed_inj)

text \<open>C32. A stream has full period: no value repeats within \<open>2 ^ 64\<close> consecutive 64-bit draws.\<close>

theorem draws_never_repeat:
  assumes "n \<le> 2 ^ 64"
  shows "distinct (draws n r)"
proof -
  let ?G = "0x9E3779B97F4A7C15 :: u64"
  have "inj_on (\<lambda>k. mix64 (rng_state r + of_nat k * ?G)) {0..<n}"
  proof (rule inj_onI)
    fix i j
    assume ij: "i \<in> {0..<n}" "j \<in> {0..<n}"
      and "mix64 (rng_state r + of_nat i * ?G) = mix64 (rng_state r + of_nat j * ?G)"
    then have "of_nat i * ?G = of_nat j * ?G" by (simp only: mix64_eq_iff add_left_cancel)
    then have "(of_nat i :: u64) = of_nat j" by (rule mix_mult_inj(3))
    with ij assms of_nat_u64_inj [of i j] show "i = j" by simp
  qed
  then show ?thesis unfolding draws_eq distinct_map by simp
qed

theorem draws_never_repeat_witness: "distinct (draws 3 (sim_rng_new 7))"
  by (rule draws_never_repeat) simp

text \<open>Consecutive construction-time streams of a run under one name are pairwise different, for
  up to \<open>2 ^ 64\<close> of them.\<close>

lemma next_streams_differ:
  assumes "n \<le> 2 ^ 64"
  shows "distinct (next_streams n name run)"
proof -
  have "tag [tag_str name, p] = tag [tag_str name, q] \<longleftrightarrow> p = q" for p q
    using tag_last_inj [of "[tag_str name]" p q] by simp
  moreover have "i = j" if "i < n" "j < n" "(of_nat i :: u64) = of_nat j" for i j
    using that assms by (simp add: of_nat_u64_inj)
  ultimately show ?thesis
    by (auto simp: next_streams_eq distinct_map inj_on_def for_seed_inj)
qed

lemma next_streams_differ_example: "distinct (next_streams 2 [0x61] (run_new default_seed))"
  by (rule next_streams_differ) simp

text \<open>The bounded generator of the executor stays below its bound.\<close>

lemma gen_bounded_in_range:
  assumes "0 < upper_bound"
  shows "fst (gen_bounded upper_bound r) < upper_bound"
proof -
  obtain x r' where x: "wy_gen r = (x, r')" by force
  have "unat x < 2 ^ 64" using unsigned_less [of x] by simp
  then have "unat x * unat upper_bound < 2 ^ 64 * unat upper_bound"
    using assms by (simp add: word_less_nat_alt)
  then have "unat x * unat upper_bound div 2 ^ 64 < unat upper_bound"
    by (simp add: less_mult_imp_div_less mult.commute)
  with x show ?thesis by (simp add: gen_bounded_def word_less_nat_alt multiply_shift)
qed

lemma gen_bounded_in_range_example: "fst (gen_bounded 6 \<lparr>wy_seed = 12345\<rparr>) < 6"
  by (rule gen_bounded_in_range) simp

text \<open>A memoised draw is made once per run and key: later calls return the first value, change
  nothing, and do not consult the generator.\<close>

lemma once_draws_once:
  "run_once_draw key draw' (snd (run_once_draw key draw run)) =
     (fst (run_once_draw key draw run), snd (run_once_draw key draw run))"
  by (auto simp: run_once_draw_def case_prod_beta split: option.splits)

end
