(* ===== verification/Nada_Report.thy ===== *)
theory Nada_Report
  imports Prelude
begin

text \<open>
  The NADA receiver report that rides in a tracking packet, \<^verbatim>\<open>examples/lib/nada_report.rs\<close>. The
  floating-point fields are only carried, never computed with, so they are their 64-bit patterns;
  the signed fields are words of their width.
\<close>

definition MAGIC :: bytes where
  "MAGIC = [0x4E, 0x41, 0x44, 0x32]"

definition LEN :: nat where
  "LEN = 49"

record nada_timer_report =
  seq :: u32
  xcurr :: u64
  rmode :: u8
  recv :: u64
  plr :: u64
  d_tilde :: u64
  d_queue :: u64

definition encode :: "nada_timer_report \<Rightarrow> bytes" where
  "encode r =
     (let b = replicate LEN 0;
          b = copy_at 0 MAGIC b;
          b = copy_at 4 (to_le_bytes 4 (seq r)) b;
          b = copy_at 8 (to_le_bytes 8 (xcurr r)) b;
          b = b[16 := rmode r];
          b = copy_at 17 (to_le_bytes 8 (recv r)) b;
          b = copy_at 25 (to_le_bytes 8 (plr r)) b;
          b = copy_at 33 (to_le_bytes 8 (d_tilde r)) b;
          b = copy_at 41 (to_le_bytes 8 (d_queue r)) b
      in b)"

definition decode :: "bytes \<Rightarrow> nada_timer_report option" where
  "decode b =
     (if length b < LEN \<or> slice 0 4 b \<noteq> MAGIC then None
      else Some \<lparr>seq = from_le_bytes (slice 4 8 b), xcurr = from_le_bytes (slice 8 16 b),
        rmode = b ! 16, recv = from_le_bytes (slice 17 25 b), plr = from_le_bytes (slice 25 33 b),
        d_tilde = from_le_bytes (slice 33 41 b), d_queue = from_le_bytes (slice 41 49 b)\<rparr>)"

lemma length_MAGIC [simp]: "length MAGIC = 4"
  by (simp add: MAGIC_def)

text \<open>The layout that the successive copies produce.\<close>

definition layout :: "nada_timer_report \<Rightarrow> bytes" where
  "layout r = MAGIC @ to_le_bytes 4 (seq r) @ to_le_bytes 8 (xcurr r) @ [rmode r] @
     to_le_bytes 8 (recv r) @ to_le_bytes 8 (plr r) @ to_le_bytes 8 (d_tilde r) @ to_le_bytes 8 (d_queue r)"

lemma encode_layout: "encode r = layout r"
proof -
  have "encode r =
    copy_at 41 (to_le_bytes 8 (d_queue r)) (copy_at 33 (to_le_bytes 8 (d_tilde r))
    (copy_at 25 (to_le_bytes 8 (plr r)) (copy_at 17 (to_le_bytes 8 (recv r))
    ((copy_at 8 (to_le_bytes 8 (xcurr r)) (copy_at 4 (to_le_bytes 4 (seq r))
    (copy_at 0 MAGIC ([] @ replicate 49 0))))[16 := rmode r]))))"
    by (simp add: encode_def LEN_def)
  also have "\<dots> = layout r"
    by (simp add: copy_at_append [of "[]" 0] copy_at_def list_update_append layout_def numeral_eq_Suc)
  finally show ?thesis .
qed

lemma length_layout: "length (layout r) = LEN"
  by (simp add: layout_def LEN_def)

lemma report_inverse: "decode (encode r @ rest) = Some r"
  by (simp add: encode_layout decode_def length_layout)
    (simp add: layout_def slice_appends slice_Cons nth_append byte_roundtrips LEN_def)

text \<open>Decoding what \<open>encode\<close> wrote gives the report back, whatever bytes follow it in the packet.\<close>

lemma report_roundtrip: "decode (encode r @ rest) = Some r"
  by (rule report_inverse)

lemma layout_of_decoded:
  assumes "LEN \<le> length b" "slice 0 4 b = MAGIC" "decode b = Some r"
  shows "layout r = slice 0 49 b"
proof -
  have "[b ! 16] @ slice 17 49 b = slice 16 49 b"
    using slice_single [of 16 b] slice_join [of 16 17 49 b] assms(1) by (simp add: LEN_def)
  then have "b ! 16 # slice 17 49 b = slice 16 49 b" by simp
  with assms show ?thesis
    by (auto simp: layout_def decode_def LEN_def to_from_le_slice slice_join simp flip: assms(2))
qed

text \<open>C33. Nothing but an encoded report decodes: a packet yields a report exactly if it starts with the
  report's encoding, so a short packet or a packet without the magic number yields none.\<close>

theorem decode_only_encodings: "decode b = Some r \<longleftrightarrow> (\<exists>rest. b = encode r @ rest)"
proof
  assume d: "decode b = Some r"
  then have "LEN \<le> length b" "slice 0 4 b = MAGIC" by (auto simp: decode_def split: if_splits)
  then have "layout r = slice 0 49 b" using d by (rule layout_of_decoded)
  then have "b = encode r @ drop 49 b" using slice_rest [of 49 b] by (simp add: encode_layout)
  then show "\<exists>rest. b = encode r @ rest" ..
next
  assume "\<exists>rest. b = encode r @ rest"
  then show "decode b = Some r" using report_inverse by blast
qed

end
