(* ===== verification/Chunked_Parser.thy ===== *)
theory Chunked_Parser
  imports Prelude
begin

text \<open>
  The contract shared by the incremental bitstream parsers of \<^verbatim>\<open>examples/lib/mod.rs\<close>: a state with a
  byte buffer, an operation that appends received data, one iteration of the extraction loop, and
  the loop. An iteration panics (\<open>None\<close>), finds nothing complete (\<open>Some None\<close>), or consumes bytes and
  emits outputs. The contract says that an iteration decided on the present bytes is not revised
  when more bytes arrive; its consequence is that the way a stream is cut into reads does not
  matter.
\<close>

text \<open>A caller that reads a stream in pieces: each piece is appended and the loop is run.\<close>

primrec feed ::
  "('s \<Rightarrow> ('o list \<times> 's) option) \<Rightarrow> (bytes \<Rightarrow> 's \<Rightarrow> 's) \<Rightarrow> bytes list \<Rightarrow> 's \<Rightarrow> ('o list \<times> 's) option" where
  "feed run_loop append_data [] s = Some ([], s)"
| "feed run_loop append_data (c # cs) s =
     (case run_loop (append_data c s) of
        None \<Rightarrow> None
      | Some (out, s') \<Rightarrow> map_option (apfst (append out)) (feed run_loop append_data cs s'))"

locale chunked_parser =
  fixes iteration :: "'s \<Rightarrow> ('o list \<times> 's) option option"
    and run_loop :: "'s \<Rightarrow> ('o list \<times> 's) option"
    and append_data :: "bytes \<Rightarrow> 's \<Rightarrow> 's"
    and buffered :: "'s \<Rightarrow> nat"
  assumes append_append: "append_data b (append_data a s) = append_data (a @ b) s"
    and iteration_stable:
      "iteration s = Some (Some (out, s')) \<Longrightarrow>
         iteration (append_data d s) = Some (Some (out, append_data d s'))"
    and iteration_shrinks: "iteration s = Some (Some (out, s')) \<Longrightarrow> buffered s' < buffered s"
    and run_loop_unfold:
      "run_loop s =
         (case iteration s of
            None \<Rightarrow> None
          | Some None \<Rightarrow> Some ([], s)
          | Some (Some (out, s')) \<Rightarrow> map_option (apfst (append out)) (run_loop s'))"
begin

text \<open>Running the loop early does not change what is emitted in total, nor the final state.\<close>

lemma run_loop_append:
  assumes "run_loop s = Some (out, s')"
  shows "run_loop (append_data d s) = map_option (apfst (append out)) (run_loop (append_data d s'))"
  using assms
proof (induction "buffered s" arbitrary: s out rule: less_induct)
  case less
  show ?case
  proof (cases "iteration s")
    case None
    with less.prems show ?thesis by (simp add: run_loop_unfold [of s])
  next
    case (Some r)
    show ?thesis
    proof (cases r)
      case None
      with Some less.prems have "out = []" "s' = s" by (simp_all add: run_loop_unfold [of s])
      then show ?thesis by (cases "run_loop (append_data d s)") (simp_all add: apfst_def map_prod_def case_prod_beta)
    next
      case r: (Some os)
      obtain o1 s1 where os: "os = (o1, s1)" by force
      with Some r have it: "iteration s = Some (Some (o1, s1))" by simp
      with less.prems obtain o2 where o2: "run_loop s1 = Some (o2, s')" "out = o1 @ o2"
        by (auto simp: run_loop_unfold [of s])
      have "run_loop (append_data d s1) = map_option (apfst (append o2)) (run_loop (append_data d s'))"
        by (rule less.hyps [OF iteration_shrinks [OF it] o2(1)])
      with iteration_stable [OF it, of d] o2(2) show ?thesis
        by (cases "run_loop (append_data d s')") (auto simp: run_loop_unfold [of "append_data d s"])
    qed
  qed
qed

lemma feed_whole:
  assumes "feed run_loop append_data (c # cs) s = Some (out, s')"
  shows "run_loop (append_data (concat (c # cs)) s) = Some (out, s')"
  using assms
proof (induction cs arbitrary: c s out)
  case Nil
  then show ?case by (auto split: option.splits)
next
  case (Cons d cs)
  then obtain o1 s1 o2 where o1: "run_loop (append_data c s) = Some (o1, s1)"
    and o2: "feed run_loop append_data (d # cs) s1 = Some (o2, s')" "out = o1 @ o2"
    by (auto split: option.splits)
  have "run_loop (append_data (concat (c # d # cs)) s) =
      run_loop (append_data (concat (d # cs)) (append_data c s))"
    by (simp add: append_append)
  also have "\<dots> = map_option (apfst (append o1)) (run_loop (append_data (concat (d # cs)) s1))"
    by (rule run_loop_append [OF o1])
  also have "\<dots> = Some (out, s')"
    using Cons.IH [OF o2(1)] o2(2) by simp
  finally show ?case .
qed

end

end
