(* ===== verification/Hevc_Parser.thy ===== *)
theory Hevc_Parser
  imports Chunked_Parser
begin

text \<open>
  The HEVC parser of \<^verbatim>\<open>examples/lib/mod.rs\<close>: start-code search, NAL unit extraction with its capture
  of the parameter sets, and the assembly of frames that persists over calls. Index and length
  arithmetic is on \<^verbatim>\<open>usize\<close>; an underflow or an index out of range is a panic. (Without overflow
  checks the underflow of \<^verbatim>\<open>buffer.len() - 3\<close> wraps and the scan then indexes out of range, which
  panics as well.)
\<close>

section \<open>Definitions\<close>

record nal_unit =
  nal_type :: u8
  nal_data :: bytes
  nal_is_keyframe :: bool

record hevc_parser =
  hevc_buffer :: bytes
  hevc_vps :: "bytes option"
  hevc_sps :: "bytes option"
  hevc_pps :: "bytes option"
  pending_frame :: bytes
  pending_has_vcl :: bool

definition hevc_new :: hevc_parser where
  "hevc_new = \<lparr>hevc_buffer = [], hevc_vps = None, hevc_sps = None, hevc_pps = None,
     pending_frame = [], pending_has_vcl = False\<rparr>"

definition hevc_add_data :: "bytes \<Rightarrow> hevc_parser \<Rightarrow> hevc_parser" where
  "hevc_add_data d p = p\<lparr>hevc_buffer := hevc_buffer p @ d\<rparr>"

definition reset_for_new_chunk :: "hevc_parser \<Rightarrow> hevc_parser" where
  "reset_for_new_chunk p = p\<lparr>hevc_buffer := [], pending_frame := [], pending_has_vcl := False\<rparr>"

definition is_start_code :: "bytes \<Rightarrow> nat \<Rightarrow> bool" where
  "is_start_code b i \<longleftrightarrow>
     (b ! i = 0 \<and> b ! (i + 1) = 0 \<and> b ! (i + 2) = 1) \<or>
     (i < length b - 4 \<and> b ! i = 0 \<and> b ! (i + 1) = 0 \<and> b ! (i + 2) = 0 \<and> b ! (i + 3) = 1)"

definition find_next_start_code :: "bytes \<Rightarrow> nat \<Rightarrow> nat option option" where
  "find_next_start_code b start_pos =
     (if b \<noteq> [] then do {
        hi \<leftarrow> checked_sub (length b) 3;
        Some (find (is_start_code b) [start_pos..<hi])
      } else Some None)"

definition start_code_len :: "bytes \<Rightarrow> nat \<Rightarrow> nat" where
  "start_code_len b start_pos =
     (if start_pos + 3 < length b \<and> b ! (start_pos + 2) = 0 \<and> b ! (start_pos + 3) = 1 then 4 else 3)"

definition store_parameter_set :: "u8 \<Rightarrow> bytes \<Rightarrow> hevc_parser \<Rightarrow> hevc_parser" where
  "store_parameter_set ty full_nal p =
     (if ty = 32 then p\<lparr>hevc_vps := Some full_nal\<rparr>
      else if ty = 33 then p\<lparr>hevc_sps := Some full_nal\<rparr>
      else if ty = 34 then p\<lparr>hevc_pps := Some full_nal\<rparr>
      else p)"

definition nal_type_of :: "u8 \<Rightarrow> u8" where
  "nal_type_of nal_header = drop_bit 1 nal_header AND 0x3F"

definition next_nal_unit :: "hevc_parser \<Rightarrow> (nal_unit option \<times> hevc_parser) option" where
  "next_nal_unit p =
     (let b = hevc_buffer p in do {
        first \<leftarrow> find_next_start_code b 0;
        case first of
          None \<Rightarrow> Some (None, p)
        | Some start_pos \<Rightarrow> do {
            let header_pos = start_pos + start_code_len b start_pos;
            next_start \<leftarrow> find_next_start_code b header_pos;
            case next_start of
              None \<Rightarrow> Some (None, p)
            | Some nal_end \<Rightarrow>
                if header_pos \<ge> length b then Some (None, p)
                else do {
                  nal_header \<leftarrow> nth_opt b header_pos;
                  let ty = nal_type_of nal_header;
                  data \<leftarrow> slice_opt header_pos nal_end b;
                  full_nal \<leftarrow> slice_opt start_pos nal_end b;
                  let p = store_parameter_set ty full_nal p;
                  let p = p\<lparr>hevc_buffer := drop nal_end b\<rparr>;
                  Some (Some \<lparr>nal_type = ty, nal_data = data, nal_is_keyframe = 16 \<le> ty \<and> ty \<le> 21\<rparr>, p)
                }
          }
      })"

text \<open>The body of the loop in \<^verbatim>\<open>get_frames\<close>: the frames it pushes and the new state.\<close>

definition push_nal :: "nal_unit \<Rightarrow> hevc_parser \<Rightarrow> bytes list \<times> hevc_parser" where
  "push_nal nal p =
     (let is_vcl = nal_type nal \<le> 31;
          (out, p) =
            (if is_vcl \<and> pending_has_vcl p then
               (if pending_frame p \<noteq> [] then ([pending_frame p], p\<lparr>pending_frame := [], pending_has_vcl := False\<rparr>)
                else ([], p\<lparr>pending_has_vcl := False\<rparr>))
             else ([], p));
          p = (if is_vcl then p\<lparr>pending_has_vcl := True\<rparr> else p)
      in (out, p\<lparr>pending_frame := pending_frame p @ [0, 0, 0, 1] @ nal_data nal\<rparr>))"

definition frame_iteration :: "hevc_parser \<Rightarrow> (bytes list \<times> hevc_parser) option option" where
  "frame_iteration p =
     (case next_nal_unit p of
        None \<Rightarrow> None
      | Some (None, p') \<Rightarrow> Some None
      | Some (Some nal, p') \<Rightarrow> Some (Some (push_nal nal p')))"

lemma push_nal_buffer [simp]: "hevc_buffer (snd (push_nal nal p)) = hevc_buffer p"
  by (simp add: push_nal_def Let_def)

lemma find_next_start_code_Some:
  "find_next_start_code b s = Some (Some i) \<longleftrightarrow>
     b \<noteq> [] \<and> s \<le> i \<and> i + 3 < length b \<and> is_start_code b i \<and> (\<forall>j. s \<le> j \<longrightarrow> j < i \<longrightarrow> \<not> is_start_code b j)"
  by (auto simp: find_next_start_code_def find_upt_Some checked_sub_def less_diff_conv)

lemma next_nal_unit_consumes:
  assumes "next_nal_unit p = Some (Some nal, p')"
  shows "length (hevc_buffer p') < length (hevc_buffer p)"
  using assms
  by (auto simp: next_nal_unit_def Let_def find_next_start_code_Some start_code_len_def
      split: option.splits if_splits bind_splits)

lemma frame_iteration_consumes:
  "frame_iteration p = Some (Some (out, p')) \<Longrightarrow> length (hevc_buffer p') < length (hevc_buffer p)"
  by (auto simp: frame_iteration_def dest!: next_nal_unit_consumes split: option.splits prod.splits)
    (metis push_nal_buffer snd_conv)

function get_frames :: "hevc_parser \<Rightarrow> (bytes list \<times> hevc_parser) option" where
  "get_frames p =
     (case frame_iteration p of
        None \<Rightarrow> None
      | Some None \<Rightarrow> Some ([], p)
      | Some (Some (out, p')) \<Rightarrow> map_option (apfst (append out)) (get_frames p'))"
  by auto
termination get_frames
  by (relation "measure (length \<circ> hevc_buffer)") (auto dest: sym intro: frame_iteration_consumes)

declare get_frames.simps [simp del]

definition flush_final_frame :: "hevc_parser \<Rightarrow> bytes option \<times> hevc_parser" where
  "flush_final_frame p =
     (let had_vcl = pending_has_vcl p;
          frame = pending_frame p;
          p = p\<lparr>pending_has_vcl := False, pending_frame := []\<rparr>
      in (if had_vcl \<and> frame \<noteq> [] then Some frame else None, p))"

definition get_parameter_sets :: "hevc_parser \<Rightarrow> bytes option \<times> bytes option \<times> bytes option" where
  "get_parameter_sets p = (hevc_vps p, hevc_sps p, hevc_pps p)"

definition update_vps :: "bytes \<Rightarrow> hevc_parser \<Rightarrow> hevc_parser" where
  "update_vps v p = p\<lparr>hevc_vps := Some v\<rparr>"

definition update_sps :: "bytes \<Rightarrow> hevc_parser \<Rightarrow> hevc_parser" where
  "update_sps v p = p\<lparr>hevc_sps := Some v\<rparr>"

definition update_pps :: "bytes \<Rightarrow> hevc_parser \<Rightarrow> hevc_parser" where
  "update_pps v p = p\<lparr>hevc_pps := Some v\<rparr>"

section \<open>Decisions are stable under more data\<close>

lemma is_start_code_append:
  "i + 3 < length b \<Longrightarrow> is_start_code b i \<Longrightarrow> is_start_code (b @ d) i"
  by (auto simp: is_start_code_def nth_append)

lemma is_start_code_append_before:
  "i + 4 < length b \<Longrightarrow> is_start_code (b @ d) i \<longleftrightarrow> is_start_code b i"
  by (auto simp: is_start_code_def nth_append)

lemma find_next_start_code_append:
  "find_next_start_code b s = Some (Some i) \<Longrightarrow> find_next_start_code (b @ d) s = Some (Some i)"
  by (auto simp: find_next_start_code_Some is_start_code_append is_start_code_append_before)

lemma start_code_len_append:
  "i + 3 < length b \<Longrightarrow> start_code_len (b @ d) i = start_code_len b i"
  by (simp add: start_code_len_def nth_append)

lemma start_code_len_bounds: "3 \<le> start_code_len b i" "start_code_len b i \<le> 4"
  by (simp_all add: start_code_len_def)

text \<open>What a returned NAL unit is, in terms of the two start codes that delimit it.\<close>

lemma next_nal_unit_Some:
  "next_nal_unit p = Some (Some nal, p') \<longleftrightarrow>
     (\<exists>s e. find_next_start_code (hevc_buffer p) 0 = Some (Some s) \<and>
        find_next_start_code (hevc_buffer p) (s + start_code_len (hevc_buffer p) s) = Some (Some e) \<and>
        (let b = hevc_buffer p; h = s + start_code_len b s; ty = nal_type_of (b ! h) in
         nal = \<lparr>nal_type = ty, nal_data = slice h e b, nal_is_keyframe = 16 \<le> ty \<and> ty \<le> 21\<rparr> \<and>
         p' = (store_parameter_set ty (slice s e b) p)\<lparr>hevc_buffer := drop e b\<rparr>))"
  (is "?l \<longleftrightarrow> ?r")
proof
  assume ?l
  then show ?r
    by (auto simp: next_nal_unit_def Let_def slice_opt_def nth_opt_def
        split: option.splits if_splits bind_splits)
next
  assume ?r
  then obtain s e where s: "find_next_start_code (hevc_buffer p) 0 = Some (Some s)"
    and e: "find_next_start_code (hevc_buffer p) (s + start_code_len (hevc_buffer p) s) = Some (Some e)"
    and r: "(let b = hevc_buffer p; h = s + start_code_len b s; ty = nal_type_of (b ! h) in
         nal = \<lparr>nal_type = ty, nal_data = slice h e b, nal_is_keyframe = 16 \<le> ty \<and> ty \<le> 21\<rparr> \<and>
         p' = (store_parameter_set ty (slice s e b) p)\<lparr>hevc_buffer := drop e b\<rparr>)"
    by blast
  from e have "s + start_code_len (hevc_buffer p) s \<le> e" "e < length (hevc_buffer p)"
    by (simp_all add: find_next_start_code_Some)
  with s e r show ?l
    by (simp add: next_nal_unit_def Let_def slice_opt_def nth_opt_def)
qed

lemma store_parameter_set_buffer:
  "(store_parameter_set ty full p)\<lparr>hevc_buffer := b\<rparr> = store_parameter_set ty full (p\<lparr>hevc_buffer := b\<rparr>)"
  by (simp add: store_parameter_set_def)

lemma next_nal_unit_stable:
  assumes "next_nal_unit p = Some (Some nal, p')"
  shows "next_nal_unit (hevc_add_data d p) = Some (Some nal, hevc_add_data d p')"
proof -
  let ?b = "hevc_buffer p"
  from assms obtain s e where s: "find_next_start_code ?b 0 = Some (Some s)"
    and e: "find_next_start_code ?b (s + start_code_len ?b s) = Some (Some e)"
    and nal: "nal = \<lparr>nal_type = nal_type_of (?b ! (s + start_code_len ?b s)),
      nal_data = slice (s + start_code_len ?b s) e ?b,
      nal_is_keyframe = 16 \<le> nal_type_of (?b ! (s + start_code_len ?b s)) \<and>
        nal_type_of (?b ! (s + start_code_len ?b s)) \<le> 21\<rparr>"
    and p': "p' = (store_parameter_set (nal_type_of (?b ! (s + start_code_len ?b s))) (slice s e ?b) p)
      \<lparr>hevc_buffer := drop e ?b\<rparr>"
    unfolding next_nal_unit_Some Let_def by blast
  from s have "s + 3 < length ?b" by (simp add: find_next_start_code_Some)
  then have len: "start_code_len (?b @ d) s = start_code_len ?b s" by (rule start_code_len_append)
  from e have "s + start_code_len ?b s < length ?b" "e < length ?b" by (simp_all add: find_next_start_code_Some)
  then show ?thesis
    using find_next_start_code_append [OF s, of d] find_next_start_code_append [OF e, of d] nal p'
    unfolding next_nal_unit_Some hevc_add_data_def
    by (intro exI [of _ s] exI [of _ e])
      (simp add: len nth_append slice_append_left store_parameter_set_buffer store_parameter_set_def)
qed

lemma push_nal_add_data:
  "push_nal nal (hevc_add_data d p) = apsnd (hevc_add_data d) (push_nal nal p)"
  by (simp add: push_nal_def hevc_add_data_def Let_def)

lemma frame_iteration_stable:
  "frame_iteration p = Some (Some (out, p')) \<Longrightarrow>
     frame_iteration (hevc_add_data d p) = Some (Some (out, hevc_add_data d p'))"
  by (auto simp: frame_iteration_def next_nal_unit_stable push_nal_add_data split: option.splits prod.splits)

interpretation hevc: chunked_parser frame_iteration get_frames hevc_add_data "length \<circ> hevc_buffer"
proof
  show "hevc_add_data b (hevc_add_data a p) = hevc_add_data (a @ b) p" for a b p
    by (simp add: hevc_add_data_def)
qed (simp_all add: frame_iteration_stable frame_iteration_consumes get_frames.simps)

section \<open>Panics\<close>

lemma find_next_start_code_None:
  "find_next_start_code b s = None \<longleftrightarrow> length b \<in> {1, 2}"
proof -
  have "b \<noteq> [] \<and> length b < 3 \<longleftrightarrow> length b \<in> {1, 2}" by (auto simp flip: length_greater_0_conv)
  then show ?thesis by (auto simp: find_next_start_code_def checked_sub_def)
qed

lemma next_nal_unit_panics: "next_nal_unit p = None \<longleftrightarrow> length (hevc_buffer p) \<in> {1, 2}"
proof (cases "length (hevc_buffer p) \<in> {1, 2}")
  case True
  then have "find_next_start_code (hevc_buffer p) 0 = None" by (simp only: find_next_start_code_None)
  with True show ?thesis by (simp add: next_nal_unit_def Let_def)
next
  case False
  then have "find_next_start_code (hevc_buffer p) s \<noteq> None" for s by (simp add: find_next_start_code_None)
  with False show ?thesis
    by (auto simp: next_nal_unit_def Let_def nth_opt_def slice_opt_def find_next_start_code_Some
        split: option.splits bind_splits if_splits) (metis option.distinct(1))
qed

text \<open>After a NAL unit was taken at least four bytes remain, the start code that ended it.\<close>

lemma next_nal_unit_remainder:
  "next_nal_unit p = Some (Some nal, p') \<Longrightarrow> 4 \<le> length (hevc_buffer p')"
  by (auto simp: next_nal_unit_Some Let_def find_next_start_code_Some)

lemma get_frames_panics: "get_frames p = None \<longleftrightarrow> length (hevc_buffer p) \<in> {1, 2}"
proof (induction p rule: get_frames.induct)
  case (1 p)
  show ?case
  proof (cases "next_nal_unit p")
    case None
    then show ?thesis
      using next_nal_unit_panics [of p] by (simp add: get_frames.simps [of p] frame_iteration_def)
  next
    case (Some r)
    obtain u p' where r: "r = (u, p')" by force
    have ok: "length (hevc_buffer p) \<notin> {1, 2}" using Some next_nal_unit_panics [of p] by simp
    show ?thesis
    proof (cases u)
      case None
      with Some r ok show ?thesis by (simp add: get_frames.simps [of p] frame_iteration_def)
    next
      case (Some nal)
      obtain out q where q: "push_nal nal p' = (out, q)" by force
      have it: "frame_iteration p = Some (Some (out, q))"
        using \<open>next_nal_unit p = Some r\<close> r Some q by (simp add: frame_iteration_def)
      have "hevc_buffer q = hevc_buffer p'" using push_nal_buffer [of nal p'] q by simp
      moreover have "4 \<le> length (hevc_buffer p')"
        using next_nal_unit_remainder \<open>next_nal_unit p = Some r\<close> r Some by blast
      ultimately have "get_frames q \<noteq> None" using 1 [OF it refl refl] by auto
      with it ok show ?thesis by (auto simp: get_frames.simps [of p])
    qed
  qed
qed

section \<open>Frames\<close>

text \<open>The byte stream of a list of NAL units, and the grouping of NAL units into frames: a frame ends
  where a second VCL unit would be added.\<close>

definition annexb :: "bytes list \<Rightarrow> bytes" where
  "annexb nals = concat (map (\<lambda>n. [0, 0, 0, 1] @ n) nals)"

definition vcl :: "bytes \<Rightarrow> bool" where
  "vcl n \<longleftrightarrow> nal_type_of (hd n) \<le> 31"

fun group_nals :: "bytes list \<Rightarrow> bytes list \<Rightarrow> bytes list list \<times> bytes list" where
  "group_nals cur [] = ([], cur)"
| "group_nals cur (n # ns) =
     (if vcl n \<and> (\<exists>m\<in>set cur. vcl m) then
        let (gs, rest) = group_nals [n] ns in (cur # gs, rest)
      else group_nals (cur @ [n]) ns)"

definition no_start_code :: "bytes \<Rightarrow> bool" where
  "no_start_code n \<longleftrightarrow> (\<forall>i < length n - 2. \<not> (n ! i = 0 \<and> n ! (i + 1) = 0 \<and> n ! (i + 2) = 1))"

definition nal_ok :: "bytes \<Rightarrow> bool" where
  "nal_ok n \<longleftrightarrow> n \<noteq> [] \<and> no_start_code n"

lemma group_nals_concat: "group_nals cur ns = (gs, rest) \<Longrightarrow> concat gs @ rest = cur @ ns"
  by (induction cur ns arbitrary: gs rest rule: group_nals.induct)
    (auto split: if_splits prod.splits)

lemma length_filter_0: "\<not> (\<exists>m\<in>set xs. P m) \<longleftrightarrow> length (filter P xs) = 0"
  by (auto simp: filter_empty_conv)

lemma group_nals_one_vcl:
  assumes "group_nals cur ns = (gs, rest)" "length (filter vcl cur) \<le> 1"
  shows "(\<forall>g\<in>set gs. length (filter vcl g) = 1) \<and> length (filter vcl rest) \<le> 1"
  using assms
proof (induction cur ns arbitrary: gs rest rule: group_nals.induct)
  case (2 cur n ns)
  show ?case
  proof (cases "vcl n \<and> (\<exists>m\<in>set cur. vcl m)")
    case True
    then have "length (filter vcl cur) \<noteq> 0" using length_filter_0 [of cur vcl] by auto
    then have "length (filter vcl cur) = 1" using 2(4) by linarith
    with 2 True show ?thesis by (auto split: prod.splits)
  next
    case False
    then have "length (filter vcl (cur @ [n])) \<le> 1"
      using length_filter_0 [of cur vcl] 2(4) by auto
    with 2 False show ?thesis by auto
  qed
qed auto

text \<open>Extraction of the first unit of a stream.\<close>

lemma not_start_code_inside:
  assumes "no_start_code n" "j < length n"
  shows "\<not> is_start_code ([0, 0, 0, 1] @ n @ [0, 0, 0, 1] @ t) (j + 4)"
proof -
  let ?b = "[0, 0, 0, 1] @ n @ [0, 0, 0, 1] @ t"
  have at: "?b ! (k + 4) = (if k < length n then n ! k else ([0, 0, 0, 1] @ t) ! (k - length n))" for k
    by (simp add: nth_append)
  have zero: "([0, 0, 0, 1] @ t) ! k = (0 :: u8)" if "k < 3" for k
    using that by (auto simp: less_Suc_eq numeral_3_eq_3)
  have no: "\<not> (?b ! (k + 4) = 0 \<and> ?b ! (k + 5) = 0 \<and> ?b ! (k + 6) = 1)" if "k \<le> length n" for k
  proof (cases "k + 2 < length n")
    case True
    with assms(1) at [of k] at [of "k + 1"] at [of "k + 2"] show ?thesis
      by (auto simp: no_start_code_def algebra_simps)
  next
    case False
    have "?b ! (k + 6) = 0" using False that at [of "k + 2"] zero [of "k + 2 - length n"] by auto
    then show ?thesis by simp
  qed
  show ?thesis
    using no [of j] no [of "j + 1"] assms(2) by (auto simp: is_start_code_def algebra_simps)
qed

lemma next_nal_unit_first:
  assumes b: "hevc_buffer p = [0, 0, 0, 1] @ n @ [0, 0, 0, 1] @ t" and n: "nal_ok n" and t: "t \<noteq> []"
  shows "next_nal_unit p = Some (Some \<lparr>nal_type = nal_type_of (hd n), nal_data = n,
      nal_is_keyframe = 16 \<le> nal_type_of (hd n) \<and> nal_type_of (hd n) \<le> 21\<rparr>,
    (store_parameter_set (nal_type_of (hd n)) ([0, 0, 0, 1] @ n) p)\<lparr>hevc_buffer := [0, 0, 0, 1] @ t\<rparr>)"
proof -
  let ?b = "hevc_buffer p"
  have s: "find_next_start_code ?b 0 = Some (Some 0)"
    using t by (simp add: find_next_start_code_Some b is_start_code_def)
  have l: "start_code_len ?b 0 = 4" by (simp add: start_code_len_def b)
  have "is_start_code ?b (4 + length n)"
    using t by (simp add: is_start_code_def b nth_append)
  moreover have "\<not> is_start_code ?b i" if "4 \<le> i" "i < 4 + length n" for i
    using not_start_code_inside [of n "i - 4" t] that n by (simp add: b nal_ok_def)
  ultimately have e: "find_next_start_code ?b 4 = Some (Some (4 + length n))"
    using t by (simp add: find_next_start_code_Some b)
  have "?b ! 4 = hd n" using n by (simp add: b nal_ok_def nth_append hd_conv_nth)
  moreover have "slice 4 (4 + length n) ?b = n" "slice 0 (4 + length n) ?b = [0, 0, 0, 1] @ n"
    "drop (4 + length n) ?b = [0, 0, 0, 1] @ t"
    by (simp_all add: b slice_def numeral_eq_Suc)
  ultimately show ?thesis
    unfolding next_nal_unit_Some Let_def
    by (intro exI [of _ 0] exI [of _ "4 + length n"]) (simp add: s l e)
qed

lemma next_nal_unit_last:
  assumes "hevc_buffer p = [0, 0, 0, 1] @ t" "t \<noteq> []" "find_next_start_code ([0, 0, 0, 1] @ t) 4 = Some None"
  shows "next_nal_unit p = Some (None, p)"
proof -
  have "find_next_start_code ([0, 0, 0, 1] @ t) 0 = Some (Some 0)"
    using assms(2) by (simp add: find_next_start_code_Some is_start_code_def)
  then show ?thesis using assms by (simp add: next_nal_unit_def start_code_len_def)
qed

lemma annexb_simps [simp]:
  "annexb [] = []" "annexb (n # ns) = [0, 0, 0, 1] @ n @ annexb ns" "annexb (xs @ ys) = annexb xs @ annexb ys"
  by (simp_all add: annexb_def)

lemma annexb_empty: "annexb xs = [] \<longleftrightarrow> xs = []"
  by (cases xs) simp_all

lemma push_nal_groups:
  assumes "pending_frame p = annexb cur" "pending_has_vcl p \<longleftrightarrow> (\<exists>m\<in>set cur. vcl m)"
    "nal_type u = nal_type_of (hd n)" "nal_data u = n"
  shows "push_nal u p =
    (if vcl n \<and> (\<exists>m\<in>set cur. vcl m)
     then ([annexb cur], p\<lparr>pending_frame := annexb [n], pending_has_vcl := True\<rparr>)
     else ([], p\<lparr>pending_frame := annexb (cur @ [n]), pending_has_vcl := pending_has_vcl p \<or> vcl n\<rparr>))"
  using assms by (auto simp: push_nal_def Let_def vcl_def annexb_empty)

lemma stream_tail: "\<exists>t'. t' \<noteq> [] \<and> annexb ns @ [0, 0, 0, 1] @ t = [0, 0, 0, 1] @ t'"
  if "t \<noteq> []" "\<forall>n\<in>set ns. nal_ok n" for ns t
  using that by (cases ns) (auto simp: nal_ok_def)

lemma store_parameter_set_pending [simp]:
  "pending_frame (store_parameter_set ty f p) = pending_frame p"
  "pending_has_vcl (store_parameter_set ty f p) = pending_has_vcl p"
  by (simp_all add: store_parameter_set_def)

lemma get_frames_stream:
  assumes "\<forall>n\<in>set nals. nal_ok n" "t \<noteq> []" "find_next_start_code ([0, 0, 0, 1] @ t) 4 = Some None"
    "hevc_buffer p = annexb nals @ [0, 0, 0, 1] @ t"
    "pending_frame p = annexb cur" "pending_has_vcl p \<longleftrightarrow> (\<exists>m\<in>set cur. vcl m)"
  shows "\<exists>p'. get_frames p = Some (map annexb (fst (group_nals cur nals)), p') \<and>
    pending_frame p' = annexb (snd (group_nals cur nals)) \<and> hevc_buffer p' = [0, 0, 0, 1] @ t"
  using assms
proof (induction nals arbitrary: p cur)
  case Nil
  have "next_nal_unit p = Some (None, p)"
    by (rule next_nal_unit_last [OF _ Nil(2) Nil(3)]) (use Nil in simp)
  with Nil show ?case by (simp add: get_frames.simps [of p] frame_iteration_def)
next
  case (Cons n ns)
  obtain t' where t': "t' \<noteq> []" "annexb ns @ [0, 0, 0, 1] @ t = [0, 0, 0, 1] @ t'"
    using stream_tail Cons.prems(1,2) by (metis list.set_intros(2))
  let ?ty = "nal_type_of (hd n)"
  let ?u = "\<lparr>nal_type = ?ty, nal_data = n, nal_is_keyframe = 16 \<le> ?ty \<and> ?ty \<le> 21\<rparr>"
  let ?q = "(store_parameter_set ?ty ([0, 0, 0, 1] @ n) p)\<lparr>hevc_buffer := [0, 0, 0, 1] @ t'\<rparr>"
  have "next_nal_unit p = Some (Some ?u, ?q)"
    by (rule next_nal_unit_first) (use Cons.prems t' in simp_all)
  then have it: "frame_iteration p = Some (Some (push_nal ?u ?q))" by (simp add: frame_iteration_def)
  have push: "push_nal ?u ?q =
    (if vcl n \<and> (\<exists>m\<in>set cur. vcl m)
     then ([annexb cur], ?q\<lparr>pending_frame := annexb [n], pending_has_vcl := True\<rparr>)
     else ([], ?q\<lparr>pending_frame := annexb (cur @ [n]), pending_has_vcl := pending_has_vcl ?q \<or> vcl n\<rparr>))"
    by (rule push_nal_groups) (use Cons.prems in simp_all)
  show ?case
  proof (cases "vcl n \<and> (\<exists>m\<in>set cur. vcl m)")
    case True
    let ?r = "?q\<lparr>pending_frame := annexb [n], pending_has_vcl := True\<rparr>"
    have "\<exists>p'. get_frames ?r = Some (map annexb (fst (group_nals [n] ns)), p') \<and>
      pending_frame p' = annexb (snd (group_nals [n] ns)) \<and> hevc_buffer p' = [0, 0, 0, 1] @ t"
      by (rule Cons.IH) (use Cons.prems t' True in simp_all)
    with True it push show ?thesis
      by (auto simp: get_frames.simps [of p] case_prod_beta)
  next
    case False
    let ?r = "?q\<lparr>pending_frame := annexb (cur @ [n]), pending_has_vcl := pending_has_vcl ?q \<or> vcl n\<rparr>"
    have "\<exists>p'. get_frames ?r = Some (map annexb (fst (group_nals (cur @ [n]) ns)), p') \<and>
      pending_frame p' = annexb (snd (group_nals (cur @ [n]) ns)) \<and> hevc_buffer p' = [0, 0, 0, 1] @ t"
      by (rule Cons.IH) (use Cons.prems t' in auto)
    with False it push show ?thesis
      by (auto simp: get_frames.simps [of p])
  qed
qed

lemma get_frames_keeps_three:
  assumes "get_frames p = Some (out, p')" "3 \<le> length (hevc_buffer p)"
  shows "3 \<le> length (hevc_buffer p')"
  using assms
proof (induction p arbitrary: out rule: get_frames.induct)
  case (1 p)
  show ?case
  proof (cases "frame_iteration p")
    case None
    with 1 show ?thesis by (simp add: get_frames.simps [of p])
  next
    case (Some r)
    show ?thesis
    proof (cases r)
      case None
      with Some 1 show ?thesis by (simp add: get_frames.simps [of p])
    next
      case r: (Some oq)
      obtain o1 q where oq: "oq = (o1, q)" by force
      with Some r have it: "frame_iteration p = Some (Some (o1, q))" by simp
      then have "4 \<le> length (hevc_buffer q)"
        by (auto simp: frame_iteration_def dest!: next_nal_unit_remainder split: option.splits prod.splits)
          (metis push_nal_buffer snd_conv)
      with it 1 show ?thesis by (auto simp: get_frames.simps [of p])
    qed
  qed
qed

lemma feed_returns:
  "3 \<le> length (hevc_buffer p) + length c \<Longrightarrow> feed get_frames hevc_add_data (c # cs) p \<noteq> None"
proof (induction cs arbitrary: c p)
  case Nil
  then show ?case
    using get_frames_panics [of "hevc_add_data c p"] by (auto simp: hevc_add_data_def)
next
  case (Cons d cs)
  let ?p = "hevc_add_data c p"
  have p: "3 \<le> length (hevc_buffer ?p)" using Cons.prems by (simp add: hevc_add_data_def)
  then obtain out q where q: "get_frames ?p = Some (out, q)"
    using get_frames_panics [of ?p] by (cases "get_frames ?p") auto
  have "3 \<le> length (hevc_buffer q)" by (rule get_frames_keeps_three [OF q p])
  then have "feed get_frames hevc_add_data (d # cs) q \<noteq> None" by (intro Cons.IH) simp
  with q show ?case by auto
qed

text \<open>C35. The way a stream is cut into reads does not matter: appending the pieces one by one and
  extracting frames after each gives the same frames and the same final state as extracting once
  from the whole, whenever the first read leaves at least three bytes in the buffer.\<close>

theorem hevc_chunking_irrelevant:
  assumes "3 \<le> length (hevc_buffer p) + length c"
  shows "feed get_frames hevc_add_data (c # cs) p = get_frames (hevc_add_data (concat (c # cs)) p)"
proof -
  obtain out p' where "feed get_frames hevc_add_data (c # cs) p = Some (out, p')"
    using feed_returns [OF assms, of cs] by (metis option.exhaust surj_pair)
  then show ?thesis using hevc.feed_whole by metis
qed

theorem hevc_chunking_witness:
  "feed get_frames hevc_add_data [[0, 0, 0], [1, 2]] hevc_new =
     get_frames (hevc_add_data (concat [[0, 0, 0], [1, 2]]) hevc_new)"
  by (rule hevc_chunking_irrelevant) simp

text \<open>C34. Frames of a well-formed stream, whose NAL units have four-byte start codes: however the stream is
  cut into reads, as long as the first read has at least three bytes (a shorter one panics), the
  emitted frames are consecutive groups of the units in order, each with exactly one VCL unit; the
  units after the last boundary stay pending and the unfinished last unit stays in the buffer.\<close>

theorem hevc_frames_of_stream:
  assumes "\<forall>n\<in>set nals. nal_ok n" "t \<noteq> []" "find_next_start_code ([0, 0, 0, 1] @ t) 4 = Some None"
    and "concat (c # cs) = annexb nals @ [0, 0, 0, 1] @ t" "3 \<le> length c"
  shows "\<exists>groups rest p'.
    feed get_frames hevc_add_data (c # cs) hevc_new = Some (map annexb groups, p') \<and>
    concat groups @ rest = nals \<and> (\<forall>g\<in>set groups. length (filter vcl g) = 1) \<and>
    length (filter vcl rest) \<le> 1 \<and> pending_frame p' = annexb rest \<and> hevc_buffer p' = [0, 0, 0, 1] @ t"
proof -
  obtain groups rest where g: "group_nals [] nals = (groups, rest)" by force
  let ?p = "hevc_add_data (concat (c # cs)) hevc_new"
  have "\<exists>p'. get_frames ?p = Some (map annexb (fst (group_nals [] nals)), p') \<and>
      pending_frame p' = annexb (snd (group_nals [] nals)) \<and> hevc_buffer p' = [0, 0, 0, 1] @ t"
    by (rule get_frames_stream [OF assms(1-3)]) (simp_all only: assms(4), simp_all add: hevc_add_data_def hevc_new_def)
  then obtain p' where p': "get_frames ?p = Some (map annexb groups, p')"
    "pending_frame p' = annexb rest" "hevc_buffer p' = [0, 0, 0, 1] @ t"
    by (auto simp: g)
  have "feed get_frames hevc_add_data (c # cs) hevc_new \<noteq> None"
    by (rule feed_returns) (use assms(5) in simp)
  then have "feed get_frames hevc_add_data (c # cs) hevc_new = get_frames ?p"
    using hevc.feed_whole by (metis option.exhaust surj_pair)
  with p' group_nals_concat [OF g] group_nals_one_vcl [OF g] show ?thesis
    by (intro exI [of _ groups] exI [of _ rest] exI [of _ p']) simp
qed

text \<open>C36. The parser panics on a buffer of one or two bytes, and only then.\<close>

theorem hevc_panics_on_short_buffer:
  "get_frames p = None \<longleftrightarrow> length (hevc_buffer p) \<in> {1, 2}"
  by (rule get_frames_panics)

theorem hevc_frames_of_stream_witness:
  "\<exists>groups rest p'.
    feed get_frames hevc_add_data [[0, 0, 0, 1, 64], [1, 0, 0, 0, 1, 2, 7, 0, 0], [0, 1, 2, 9, 0, 0, 0, 1, 5]] hevc_new =
      Some (map annexb groups, p') \<and>
    concat groups @ rest = [[64, 1], [2, 7], [2, 9]] \<and> (\<forall>g\<in>set groups. length (filter vcl g) = 1) \<and>
    length (filter vcl rest) \<le> 1 \<and> pending_frame p' = annexb rest \<and> hevc_buffer p' = [0, 0, 0, 1] @ [5]"
  by (rule hevc_frames_of_stream)
    (simp_all add: nal_ok_def no_start_code_def find_next_start_code_def is_start_code_def)

end
