(* ===== verification/Av1_Parser.thy ===== *)
theory Av1_Parser
  imports Chunked_Parser
begin

text \<open>
  The AV1 parser of \<^verbatim>\<open>examples/lib/mod.rs\<close>: LEB128 sizes and open bitstream units (OBUs) with a size
  field. Sizes are 64-bit words; at most nine groups of seven bits are read, so that no shift loses
  bits.
\<close>

section \<open>Definitions\<close>

record obu_unit =
  obu_type :: u8
  obu_data :: bytes
  is_sequence_header :: bool

record av1_parser =
  av1_buffer :: bytes
  av1_sequence_header :: "bytes option"

definition av1_new :: av1_parser where
  "av1_new = \<lparr>av1_buffer = [], av1_sequence_header = None\<rparr>"

definition av1_add_data :: "bytes \<Rightarrow> av1_parser \<Rightarrow> av1_parser" where
  "av1_add_data d p = p\<lparr>av1_buffer := av1_buffer p @ d\<rparr>"

definition update_sequence_header :: "bytes \<Rightarrow> av1_parser \<Rightarrow> av1_parser" where
  "update_sequence_header d p = p\<lparr>av1_sequence_header := Some d\<rparr>"

definition get_sequence_header :: "av1_parser \<Rightarrow> bytes option" where
  "get_sequence_header p = av1_sequence_header p"

text \<open>The loop of \<^verbatim>\<open>parse_leb128\<close>; it reads at most nine bytes.\<close>

function leb128_loop :: "bytes \<Rightarrow> nat \<Rightarrow> u64 \<Rightarrow> nat \<Rightarrow> nat \<Rightarrow> (u64 \<times> nat) option" where
  "leb128_loop b offset val bytes_read shift =
     (if offset + bytes_read \<ge> length b then None
      else
        let byte = b ! (offset + bytes_read);
            val = val OR push_bit shift (ucast (byte AND 0x7F));
            bytes_read = bytes_read + 1;
            shift = shift + 7
        in if byte AND 0x80 = 0 then Some (val, bytes_read)
           else if bytes_read > 8 then None
           else leb128_loop b offset val bytes_read shift)"
  by auto
termination leb128_loop
  by (relation "measure (\<lambda>(b, offset, val, bytes_read, shift). length b - bytes_read)") auto

declare leb128_loop.simps [simp del]

definition parse_leb128 :: "bytes \<Rightarrow> nat \<Rightarrow> (u64 \<times> nat) option" where
  "parse_leb128 b offset = leb128_loop b offset 0 0 0"

definition next_obu :: "av1_parser \<Rightarrow> (obu_unit \<times> av1_parser) option" where
  "next_obu p =
     (let b = av1_buffer p in
      if b = [] then None
      else
        let header_byte = b ! 0;
            ty = drop_bit 3 header_byte AND 0xF;
            extension_flag = drop_bit 2 header_byte AND 1;
            has_size_field = drop_bit 1 header_byte AND 1
        in if has_size_field = 0 then None
           else
             let offset = (if extension_flag = 1 then 2 else 1)
             in if extension_flag = 1 \<and> length b < offset then None
                else
                  case parse_leb128 b offset of
                    None \<Rightarrow> None
                  | Some (payload_size, leb_bytes) \<Rightarrow>
                      let total_size = offset + leb_bytes + unat payload_size
                      in if length b < total_size then None
                         else Some (\<lparr>obu_type = ty, obu_data = take total_size b, is_sequence_header = (ty = 1)\<rparr>,
                           p\<lparr>av1_buffer := drop total_size b\<rparr>))"

lemma next_obu_consumes:
  "next_obu p = Some (u, p') \<Longrightarrow> length (av1_buffer p') < length (av1_buffer p)"
  by (auto simp: next_obu_def Let_def split: if_splits option.splits prod.splits)

function get_obu_units :: "av1_parser \<Rightarrow> obu_unit list \<times> av1_parser" where
  "get_obu_units p =
     (case next_obu p of
        None \<Rightarrow> ([], p)
      | Some (u, p') \<Rightarrow> apfst (Cons u) (get_obu_units p'))"
  by auto
termination get_obu_units
  by (relation "measure (length \<circ> av1_buffer)") (auto dest: sym intro: next_obu_consumes)

declare get_obu_units.simps [simp del]

definition av1_get_frames :: "av1_parser \<Rightarrow> bytes list \<times> av1_parser" where
  "av1_get_frames p = apfst (map obu_data) (get_obu_units p)"

section \<open>Decisions are stable under more data\<close>

lemma leb128_loop_append:
  "leb128_loop b off v n s = Some r \<Longrightarrow> leb128_loop (b @ d) off v n s = Some r"
proof (induction b off v n s rule: leb128_loop.induct)
  case (1 b off v n s)
  show ?case
  proof (cases "length b \<le> off + n")
    case True
    with 1(2) show ?thesis by (simp add: leb128_loop.simps [of b])
  next
    case False
    then have "(b @ d) ! (off + n) = b ! (off + n)" "\<not> length (b @ d) \<le> off + n" by (simp_all add: nth_append)
    with 1 False show ?thesis
      by (simp add: leb128_loop.simps [of b off v n s] leb128_loop.simps [of "b @ d" off v n s] Let_def
          split: if_splits)
  qed
qed

lemma leb128_loop_read: "leb128_loop b off v n s = Some (v', n') \<Longrightarrow> n < n' \<and> off + n' \<le> length b"
proof (induction b off v n s rule: leb128_loop.induct)
  case (1 b off v n s)
  then show ?case by (fastforce simp: leb128_loop.simps [of b off v n s] Let_def split: if_splits)
qed

lemma next_obu_stable:
  assumes "next_obu p = Some (u, p')"
  shows "next_obu (av1_add_data d p) = Some (u, av1_add_data d p')"
  using assms
  by (auto simp: next_obu_def av1_add_data_def parse_leb128_def Let_def nth_append
      leb128_loop_append [of "av1_buffer p" _ 0 0 0 _ d]
      split: if_splits option.splits prod.splits dest: leb128_loop_append)

text \<open>The iteration in the shape of the shared contract; the AV1 parser never panics.\<close>

definition obu_iteration :: "av1_parser \<Rightarrow> (obu_unit list \<times> av1_parser) option option" where
  "obu_iteration p = Some (map_option (\<lambda>(u, p'). ([u], p')) (next_obu p))"

interpretation av1: chunked_parser obu_iteration "\<lambda>p. Some (get_obu_units p)" av1_add_data "length \<circ> av1_buffer"
proof
  show "av1_add_data b (av1_add_data a p) = av1_add_data (a @ b) p" for a b p
    by (simp add: av1_add_data_def)
  show "obu_iteration p = Some (Some (out, p')) \<Longrightarrow>
      obu_iteration (av1_add_data d p) = Some (Some (out, av1_add_data d p'))" for p out p' d
    by (auto simp: obu_iteration_def next_obu_stable)
  show "obu_iteration p = Some (Some (out, p')) \<Longrightarrow> (length \<circ> av1_buffer) p' < (length \<circ> av1_buffer) p" for p out p'
    by (auto simp: obu_iteration_def next_obu_consumes)
  show "Some (get_obu_units p) =
      (case obu_iteration p of
         None \<Rightarrow> None
       | Some None \<Rightarrow> Some ([], p)
       | Some (Some (out, p')) \<Rightarrow> map_option (apfst (append out)) (Some (get_obu_units p')))" for p
    by (auto simp: obu_iteration_def get_obu_units.simps [of p] split: option.splits)
qed

section \<open>Sizes and units as written by an encoder\<close>

fun leb128 :: "nat \<Rightarrow> bytes" where
  "leb128 n = (if n < 128 then [of_nat n] else of_nat (n mod 128 + 128) # leb128 (n div 128))"

declare leb128.simps [simp del]

record obu =
  o_type :: nat
  o_extension :: "u8 option"
  o_payload :: bytes

definition obu_ok :: "obu \<Rightarrow> bool" where
  "obu_ok x \<longleftrightarrow> o_type x < 16 \<and> length (o_payload x) < 2 ^ 63"

definition obu_header :: "obu \<Rightarrow> bytes" where
  "obu_header x =
     (of_nat (o_type x * 8 + (if o_extension x = None then 0 else 4) + 2) #
        (case o_extension x of None \<Rightarrow> [] | Some e \<Rightarrow> [e]))"

definition obu_bytes :: "obu \<Rightarrow> bytes" where
  "obu_bytes x = obu_header x @ leb128 (length (o_payload x)) @ o_payload x"

definition unit_of :: "obu \<Rightarrow> obu_unit" where
  "unit_of x = \<lparr>obu_type = of_nat (o_type x), obu_data = obu_bytes x, is_sequence_header = (o_type x = 1)\<rparr>"

lemma byte_split:
  assumes "n < 128"
  shows "(of_nat n :: u8) AND 0x7F = of_nat n" "(of_nat n :: u8) AND 0x80 = 0"
    "(of_nat (n + 128) :: u8) AND 0x7F = of_nat n" "(of_nat (n + 128) :: u8) AND 0x80 \<noteq> 0"
proof -
  have "list_all (\<lambda>n. (of_nat n :: u8) AND 0x7F = of_nat n \<and> (of_nat n :: u8) AND 0x80 = 0 \<and>
    (of_nat (n + 128) :: u8) AND 0x7F = of_nat n \<and> (of_nat (n + 128) :: u8) AND 0x80 \<noteq> 0) [0..<128]"
    by code_simp
  then have all: "n < 128 \<Longrightarrow> (of_nat n :: u8) AND 0x7F = of_nat n \<and> (of_nat n :: u8) AND 0x80 = 0 \<and>
    (of_nat (n + 128) :: u8) AND 0x7F = of_nat n \<and> (of_nat (n + 128) :: u8) AND 0x80 \<noteq> 0" for n
    by (simp only: list_all_iff set_upt atLeastLessThan_iff zero_le simp_thms)
  show "(of_nat n :: u8) AND 0x7F = of_nat n" "(of_nat n :: u8) AND 0x80 = 0"
    "(of_nat (n + 128) :: u8) AND 0x7F = of_nat n" "(of_nat (n + 128) :: u8) AND 0x80 \<noteq> 0"
    using all assms by auto
qed

lemma ucast_small: "n < 256 \<Longrightarrow> (ucast (of_nat n :: u8) :: u64) = of_nat n"
  by (simp add: unsigned_of_nat take_bit_nat_eq_self)

lemma or_shifted: "m < 2 ^ s \<Longrightarrow> (of_nat m :: u64) OR push_bit s (of_nat x) = of_nat (m + x * 2 ^ s)"
proof -
  assume m: "m < 2 ^ s"
  have "\<not> bit m k" if "s \<le> k" for k
  proof -
    have "m < 2 ^ k" by (rule less_le_trans [OF m power_increasing [OF that]]) simp
    then show ?thesis by (simp add: bit_iff_odd)
  qed
  then have "m AND push_bit s x = 0" by (simp add: bit_eq_iff bit_and_iff bit_push_bit_iff)
  then have "m + push_bit s x = m OR push_bit s x" by (rule disjunctive_add_eq_or)
  then have "(of_nat (m + push_bit s x) :: u64) = of_nat m OR of_nat (push_bit s x)"
    by (simp only: of_nat_or_eq)
  then show ?thesis by (simp add: push_bit_of_nat push_bit_nat_def)
qed

lemma leb128_nonempty: "leb128 n \<noteq> []"
  by (subst leb128.simps) simp

lemma leb128_loop_reads:
  assumes "drop (off + k) b = leb128 n @ rest" "s = 7 * k" "m < 2 ^ s" "n * 2 ^ s < 2 ^ 63"
  shows "leb128_loop b off (of_nat m) k s = Some (of_nat (m + n * 2 ^ s), k + length (leb128 n))"
  using assms
proof (induction n arbitrary: k m s rule: leb128.induct)
  case (1 n)
  from 1(2) have "drop (off + k) b \<noteq> []" by (simp add: leb128_nonempty)
  then have in_range: "off + k < length b" by simp
  then have nth: "b ! (off + k) = hd (drop (off + k) b)" by (simp add: hd_drop_conv_nth)
  show ?case
  proof (cases "n < 128")
    case True
    with 1(2) have "leb128 n = [of_nat n]" "b ! (off + k) = of_nat n" by (simp_all add: nth leb128.simps [of n])
    with True in_range 1(4) show ?thesis
      by (simp add: leb128_loop.simps [of b] byte_split ucast_small or_shifted)
  next
    case False
    let ?r = "n mod 128" and ?q = "n div 128"
    have l: "leb128 n = of_nat (?r + 128) # leb128 ?q" using False by (simp add: leb128.simps [of n])
    with 1(2) have byte: "b ! (off + k) = of_nat (?r + 128)" by (simp add: nth)
    have "2 ^ 7 * 2 ^ (7 * k) \<le> n * 2 ^ (7 * k)" using False by (intro mult_le_mono1) simp
    also have "\<dots> < 2 ^ 63" using 1(3,5) by simp
    finally have "2 ^ 7 * 2 ^ (7 * k) < (2 ^ 63 :: nat)" .
    then have "(2 :: nat) ^ (7 + 7 * k) < 2 ^ 63" by (simp only: power_add)
    then have "7 + 7 * k < 63" by (rule power_less_imp_less_exp [rotated]) simp
    then have k: "k + 1 \<le> 8" by simp
    have sum: "m + ?r * 2 ^ s + ?q * 2 ^ (s + 7) = m + n * 2 ^ s"
    proof -
      have "m + r * 2 ^ s + q * 2 ^ (s + 7) = m + (r + 128 * q) * 2 ^ s" for r q :: nat
        by (simp add: power_add algebra_simps)
      from this [of ?r ?q] show ?thesis by simp
    qed
    have "drop (off + (k + 1)) b = tl (drop (off + k) b)" by (simp add: drop_Suc tl_drop)
    then have d: "drop (off + (k + 1)) b = leb128 ?q @ rest" using 1(2) l by simp
    have bound: "m + ?r * 2 ^ s < 2 ^ (s + 7)"
    proof -
      have "?r + 1 \<le> 128" by simp
      then have "(?r + 1) * 2 ^ s \<le> 128 * 2 ^ s" by (rule mult_le_mono1)
      moreover have "(?r + 1) * 2 ^ s = ?r * 2 ^ s + 2 ^ s" "(2 :: nat) ^ (s + 7) = 128 * 2 ^ s"
        by (simp_all add: power_add add_mult_distrib)
      ultimately show ?thesis using 1(4) by linarith
    qed
    have q: "?q * 2 ^ (s + 7) < 2 ^ 63" using sum 1(5) 1(4) by simp
    have IH: "leb128_loop b off (of_nat (m + ?r * 2 ^ s)) (k + 1) (s + 7) =
        Some (of_nat (m + ?r * 2 ^ s + ?q * 2 ^ (s + 7)), k + 1 + length (leb128 ?q))"
      by (rule 1(1) [OF False d _ bound q]) (simp add: 1(3))
    have "leb128_loop b off (of_nat m) k s = leb128_loop b off (of_nat (m + ?r * 2 ^ s)) (k + 1) (s + 7)"
      using in_range k byte_split(3,4) [of ?r] ucast_small [of ?r] or_shifted [OF 1(4), of ?r]
      by (simp add: leb128_loop.simps [of b off "of_nat m"] Let_def byte del: of_nat_add of_nat_mult)
    with IH l show ?thesis by (simp only: sum) simp
  qed
qed

lemma parse_leb128_reads:
  assumes "n < 2 ^ 63"
  shows "parse_leb128 (pre @ leb128 n @ rest) (length pre) = Some (of_nat n, length (leb128 n))"
  using leb128_loop_reads [of "length pre" 0 "pre @ leb128 n @ rest" n rest 0 0] assms
  by (simp add: parse_leb128_def)

lemma header_fields:
  assumes "t < 16"
  shows "drop_bit 3 (of_nat (t * 8 + 2) :: u8) AND 0xF = of_nat t"
    "drop_bit 2 (of_nat (t * 8 + 2) :: u8) AND 1 = 0"
    "drop_bit 1 (of_nat (t * 8 + 2) :: u8) AND 1 = 1"
    "drop_bit 3 (of_nat (t * 8 + 4 + 2) :: u8) AND 0xF = of_nat t"
    "drop_bit 2 (of_nat (t * 8 + 4 + 2) :: u8) AND 1 = 1"
    "drop_bit 1 (of_nat (t * 8 + 4 + 2) :: u8) AND 1 = 1"
    "(of_nat t :: u8) = 1 \<longleftrightarrow> t = 1"
proof -
  have "list_all (\<lambda>t. drop_bit 3 (of_nat (t * 8 + 2) :: u8) AND 0xF = of_nat t \<and>
    drop_bit 2 (of_nat (t * 8 + 2) :: u8) AND 1 = 0 \<and> drop_bit 1 (of_nat (t * 8 + 2) :: u8) AND 1 = 1 \<and>
    drop_bit 3 (of_nat (t * 8 + 4 + 2) :: u8) AND 0xF = of_nat t \<and>
    drop_bit 2 (of_nat (t * 8 + 4 + 2) :: u8) AND 1 = 1 \<and>
    drop_bit 1 (of_nat (t * 8 + 4 + 2) :: u8) AND 1 = 1 \<and> ((of_nat t :: u8) = 1 \<longleftrightarrow> t = 1)) [0..<16]"
    by code_simp
  with assms have "drop_bit 3 (of_nat (t * 8 + 2) :: u8) AND 0xF = of_nat t \<and>
    drop_bit 2 (of_nat (t * 8 + 2) :: u8) AND 1 = 0 \<and> drop_bit 1 (of_nat (t * 8 + 2) :: u8) AND 1 = 1 \<and>
    drop_bit 3 (of_nat (t * 8 + 4 + 2) :: u8) AND 0xF = of_nat t \<and>
    drop_bit 2 (of_nat (t * 8 + 4 + 2) :: u8) AND 1 = 1 \<and>
    drop_bit 1 (of_nat (t * 8 + 4 + 2) :: u8) AND 1 = 1 \<and> ((of_nat t :: u8) = 1 \<longleftrightarrow> t = 1)"
    by (simp only: list_all_iff set_upt atLeastLessThan_iff zero_le simp_thms)
  then show "drop_bit 3 (of_nat (t * 8 + 2) :: u8) AND 0xF = of_nat t"
    "drop_bit 2 (of_nat (t * 8 + 2) :: u8) AND 1 = 0"
    "drop_bit 1 (of_nat (t * 8 + 2) :: u8) AND 1 = 1"
    "drop_bit 3 (of_nat (t * 8 + 4 + 2) :: u8) AND 0xF = of_nat t"
    "drop_bit 2 (of_nat (t * 8 + 4 + 2) :: u8) AND 1 = 1"
    "drop_bit 1 (of_nat (t * 8 + 4 + 2) :: u8) AND 1 = 1"
    "(of_nat t :: u8) = 1 \<longleftrightarrow> t = 1"
    by (simp_all only: simp_thms)
qed

lemma next_obu_first:
  assumes "obu_ok x" "av1_buffer p = obu_bytes x @ rest"
  shows "next_obu p = Some (unit_of x, p\<lparr>av1_buffer := rest\<rparr>)"
proof -
  let ?n = "length (o_payload x)"
  have n: "?n < 2 ^ 63" "o_type x < 16" using assms(1) by (simp_all add: obu_ok_def)
  have "unat (of_nat ?n :: u64) = ?n" using n(1) by (simp add: unat_of_nat)
  moreover have "length (obu_header x) = (if o_extension x = None then 1 else 2)"
    by (simp add: obu_header_def split: option.splits)
  then have "parse_leb128 (av1_buffer p) (if o_extension x = None then 1 else 2) =
      Some (of_nat ?n, length (leb128 ?n))"
    using parse_leb128_reads [OF n(1), of "obu_header x" "o_payload x @ rest"] assms(2)
    by (simp add: obu_bytes_def)
  ultimately show ?thesis
    using assms(2) header_fields [OF n(2)]
    by (cases "o_extension x")
      (simp_all add: next_obu_def Let_def obu_bytes_def obu_header_def unit_of_def del: of_nat_add of_nat_mult)
qed

lemma get_obu_units_stream:
  assumes "\<forall>x\<in>set xs. obu_ok x" "av1_buffer p = concat (map obu_bytes xs)"
  shows "get_obu_units p = (map unit_of xs, p\<lparr>av1_buffer := []\<rparr>)"
  using assms
proof (induction xs arbitrary: p)
  case Nil
  then have "next_obu p = None" by (simp add: next_obu_def)
  with Nil show ?case by (simp add: get_obu_units.simps [of p])
next
  case (Cons x xs)
  then have "next_obu p = Some (unit_of x, p\<lparr>av1_buffer := concat (map obu_bytes xs)\<rparr>)"
    by (intro next_obu_first) simp_all
  with Cons show ?case by (simp add: get_obu_units.simps [of p])
qed

lemma av1_feed_returns: "feed (\<lambda>p. Some (get_obu_units p)) av1_add_data cs p \<noteq> None"
proof (induction cs arbitrary: p)
  case (Cons c cs)
  obtain out q where "get_obu_units (av1_add_data c p) = (out, q)" by force
  with Cons.IH [of q] show ?case by simp
qed simp

text \<open>C37. Round trip of AV1 streams: however the bytes of a list of open bitstream units are cut into
  reads, the parser returns exactly those units in order and leaves an empty buffer; sizes up to
  \<open>2 ^ 63\<close> are read back from their LEB128 form.\<close>

theorem av1_stream_roundtrip:
  assumes "\<forall>x\<in>set xs. obu_ok x" "concat (c # cs) = concat (map obu_bytes xs)"
  shows "feed (\<lambda>p. Some (get_obu_units p)) av1_add_data (c # cs) av1_new = Some (map unit_of xs, av1_new)"
proof -
  obtain out p' where f: "feed (\<lambda>p. Some (get_obu_units p)) av1_add_data (c # cs) av1_new = Some (out, p')"
    using av1_feed_returns [of "c # cs" av1_new] by (metis option.exhaust surj_pair)
  from av1.feed_whole [OF f] have "get_obu_units (av1_add_data (concat (c # cs)) av1_new) = (out, p')"
    by (simp only: option.inject)
  moreover have "get_obu_units (av1_add_data (concat (c # cs)) av1_new) =
      (map unit_of xs, (av1_add_data (concat (c # cs)) av1_new)\<lparr>av1_buffer := []\<rparr>)"
    by (rule get_obu_units_stream [OF assms(1)]) (simp only: assms(2) av1_add_data_def av1_new_def, simp)
  ultimately show ?thesis using f by (simp add: av1_add_data_def av1_new_def)
qed

theorem av1_stream_roundtrip_witness:
  "feed (\<lambda>p. Some (get_obu_units p)) av1_add_data [[0x0A], [2, 7], [8, 0x12, 0]] av1_new =
     Some (map unit_of [\<lparr>o_type = 1, o_extension = None, o_payload = [7, 8]\<rparr>,
       \<lparr>o_type = 2, o_extension = None, o_payload = []\<rparr>], av1_new)"
  by (rule av1_stream_roundtrip) (simp_all add: obu_ok_def obu_bytes_def obu_header_def leb128.simps)

end
