(* ===== verification/Socket_Channel.thy ===== *)
theory Socket_Channel
  imports Prelude
begin

text \<open>
  The in-process sockets of \<^verbatim>\<open>examples/lib/alvr_stream_socket.rs\<close>: the buffered receiver with its
  reading and peeking operations and the defaults of the \<^verbatim>\<open>SocketReader\<close> trait, the payload buffer
  with a hidden prefix, the bounded frame tracker, wrapping comparison of packet indices and the
  shard prefix parser. A message channel is the sequence of messages in transit together with
  whether a sender is alive; a caller's byte buffer is passed in and returned.
\<close>

section \<open>Channels and errors\<close>

datatype con_error = TryAgain string | Other string

type_synonym 'a con_result = "con_error + 'a"

definition try_again :: "'a con_result" where
  "try_again = Inl (TryAgain ''try again'')"

record 'm chan =
  chan_msgs :: "'m list"
  chan_open :: bool

datatype 'm try_recv = Received 'm | Empty | Disconnected

definition chan_try_recv :: "'m chan \<Rightarrow> 'm try_recv \<times> 'm chan" where
  "chan_try_recv c =
     (case chan_msgs c of
        m # ms \<Rightarrow> (Received m, c\<lparr>chan_msgs := ms\<rparr>)
      | [] \<Rightarrow> (if chan_open c then Empty else Disconnected, c))"

text \<open>Sending: the receiving end is alive. One that was dropped, on which the sender's \<^verbatim>\<open>unwrap\<close> would panic, is not
  modelled.\<close>

definition chan_send :: "'m \<Rightarrow> 'm chan \<Rightarrow> 'm chan" where
  "chan_send m c = c\<lparr>chan_msgs := chan_msgs c @ [m]\<rparr>"

definition exact_len_payload :: "bytes \<Rightarrow> nat \<Rightarrow> bytes" where
  "exact_len_payload data len =
     (if length data = len then data
      else if length data > len then take len data
      else data @ replicate (len - length data) 0)"

section \<open>The buffered receiver\<close>

record buffered_receiver =
  br_receiver :: "bytes chan"
  br_buffer :: "bytes option"

definition br_new :: "bytes chan \<Rightarrow> buffered_receiver" where
  "br_new rx = \<lparr>br_receiver = rx, br_buffer = None\<rparr>"

definition buffered_channel :: "bytes chan \<times> buffered_receiver" where
  "buffered_channel = (let c = \<lparr>chan_msgs = [], chan_open = True\<rparr> in (c, br_new c))"

definition too_small :: "'a con_result" where
  "too_small = Inl (Other ''Buffer too small'')"

definition disconnected :: "'a con_result" where
  "disconnected = Inl (Other ''Channel disconnected'')"

definition br_recv :: "bytes \<Rightarrow> buffered_receiver \<Rightarrow> nat con_result \<times> bytes \<times> buffered_receiver" where
  "br_recv buffer r =
     (case br_buffer r of
        Some data \<Rightarrow>
          let r = r\<lparr>br_buffer := None\<rparr> in
          if length data \<le> length buffer then (Inr (length data), copy_at 0 data buffer, r)
          else (too_small, buffer, r\<lparr>br_buffer := Some data\<rparr>)
      | None \<Rightarrow>
          (case chan_try_recv (br_receiver r) of
             (Received data, rx) \<Rightarrow>
               let r = r\<lparr>br_receiver := rx\<rparr> in
               if length data \<le> length buffer then (Inr (length data), copy_at 0 data buffer, r)
               else (too_small, buffer, r)
           | (Empty, rx) \<Rightarrow> (Inr 0, buffer, r)
           | (Disconnected, rx) \<Rightarrow> (disconnected, buffer, r)))"

definition br_peek_prefix :: "bytes \<Rightarrow> nat \<Rightarrow> buffered_receiver \<Rightarrow> nat con_result \<times> bytes \<times> buffered_receiver" where
  "br_peek_prefix prefix max_len r =
     (let finish = (\<lambda>data r.
            if length data > max_len then (too_small, prefix, r)
            else
              let k = min (length data) (length prefix)
              in (Inr (length data), copy_at 0 (take k data) prefix, r))
      in case br_buffer r of
           Some data \<Rightarrow> finish data r
         | None \<Rightarrow>
             (case chan_try_recv (br_receiver r) of
                (Received data, rx) \<Rightarrow> finish data (r\<lparr>br_receiver := rx, br_buffer := Some data\<rparr>)
              | (Empty, rx) \<Rightarrow> (Inr 0, prefix, r)
              | (Disconnected, rx) \<Rightarrow> (disconnected, prefix, r)))"

definition br_peek :: "bytes \<Rightarrow> buffered_receiver \<Rightarrow> nat con_result \<times> bytes \<times> buffered_receiver" where
  "br_peek buffer r =
     (let finish = (\<lambda>data r.
            if length data \<le> length buffer then (Inr (length data), copy_at 0 data buffer, r)
            else (too_small, buffer, r))
      in case br_buffer r of
           Some data \<Rightarrow> finish data r
         | None \<Rightarrow>
             (case chan_try_recv (br_receiver r) of
                (Received data, rx) \<Rightarrow> finish data (r\<lparr>br_receiver := rx, br_buffer := Some data\<rparr>)
              | (Empty, rx) \<Rightarrow> (Inr 0, buffer, r)
              | (Disconnected, rx) \<Rightarrow> (disconnected, buffer, r)))"

definition br_recv_shared :: "buffered_receiver \<Rightarrow> bytes option con_result \<times> buffered_receiver" where
  "br_recv_shared r =
     (case br_buffer r of
        Some data \<Rightarrow> (Inr (Some data), r\<lparr>br_buffer := None\<rparr>)
      | None \<Rightarrow>
          (case chan_try_recv (br_receiver r) of
             (Received data, rx) \<Rightarrow> (Inr (Some data), r\<lparr>br_receiver := rx\<rparr>)
           | (Empty, rx) \<Rightarrow> (Inr None, r)
           | (Disconnected, rx) \<Rightarrow> (disconnected, r)))"

text \<open>The trait's default implementations, over an arbitrary \<^verbatim>\<open>peek\<close> and \<^verbatim>\<open>recv\<close>.\<close>

definition MAX_PACKET_SIZE_RECV :: nat where
  "MAX_PACKET_SIZE_RECV = 16000"

definition default_peek_prefix ::
  "(bytes \<Rightarrow> 'r \<Rightarrow> nat con_result \<times> bytes \<times> 'r) \<Rightarrow> bytes \<Rightarrow> nat \<Rightarrow> 'r \<Rightarrow> nat con_result \<times> bytes \<times> 'r" where
  "default_peek_prefix peek prefix max_len r =
     (case peek (replicate max_len 0) r of
        (Inl e, buf, r) \<Rightarrow> (Inl e, prefix, r)
      | (Inr n, buf, r) \<Rightarrow>
          let k = min n (length prefix) in (Inr n, copy_at 0 (take k buf) prefix, r))"

definition default_recv_shared ::
  "(bytes \<Rightarrow> 'r \<Rightarrow> nat con_result \<times> bytes \<times> 'r) \<Rightarrow> 'r \<Rightarrow> bytes option con_result \<times> 'r" where
  "default_recv_shared recv r =
     (case recv (replicate MAX_PACKET_SIZE_RECV 0) r of
        (Inl e, buf, r) \<Rightarrow> (Inl e, r)
      | (Inr n, buf, r) \<Rightarrow> (Inr (if n = 0 then None else Some (take n buf)), r))"

section \<open>Payload buffers\<close>

record pbuffer =
  pb_inner :: bytes
  hidden_offset :: nat
  pb_length :: nat

definition vec_resize :: "nat \<Rightarrow> bytes \<Rightarrow> bytes" where
  "vec_resize n xs = take n xs @ replicate (n - length xs) 0"

definition pb_get :: "pbuffer \<Rightarrow> bytes option" where
  "pb_get b = slice_opt (hidden_offset b) (hidden_offset b + pb_length b) (pb_inner b)"

text \<open>\<open>get_range_mut\<close> hands out a writable range; here the caller's bytes are written to it.\<close>

definition pb_write_range :: "nat \<Rightarrow> bytes \<Rightarrow> pbuffer \<Rightarrow> pbuffer" where
  "pb_write_range offset data b =
     (let size = length data;
          required_size = hidden_offset b + offset + size;
          b = (if required_size > length (pb_inner b) then b\<lparr>pb_inner := vec_resize required_size (pb_inner b)\<rparr> else b);
          b = b\<lparr>pb_length := max (pb_length b) (offset + size)\<rparr>
      in b\<lparr>pb_inner := copy_at (hidden_offset b + offset) data (pb_inner b)\<rparr>)"

definition pb_set_len :: "nat \<Rightarrow> pbuffer \<Rightarrow> pbuffer" where
  "pb_set_len n b = b\<lparr>pb_inner := vec_resize (hidden_offset b + n) (pb_inner b), pb_length := n\<rparr>"

section \<open>The frame tracker\<close>

record 't frame_tracker =
  ft_map :: "u32 \<Rightarrow> 't option"
  ft_queue :: "u32 list"
  ft_max_size :: nat

definition ft_new :: "'t frame_tracker" where
  "ft_new = \<lparr>ft_map = (\<lambda>_. None), ft_queue = [], ft_max_size = 1000\<rparr>"

function ft_evict :: "'t frame_tracker \<Rightarrow> 't frame_tracker" where
  "ft_evict f =
     (if length (ft_queue f) > ft_max_size f then
        (case ft_queue f of
           [] \<Rightarrow> f
         | oldest # rest \<Rightarrow> ft_evict (f\<lparr>ft_queue := rest, ft_map := (ft_map f)(oldest := None)\<rparr>))
      else f)"
  by auto
termination ft_evict
  by (relation "measure (\<lambda>f. length (ft_queue f))") (auto simp: neq_Nil_conv)

declare ft_evict.simps [simp del]

definition ft_insert :: "u32 \<Rightarrow> 't \<Rightarrow> 't frame_tracker \<Rightarrow> 't frame_tracker" where
  "ft_insert frame_id instant f =
     ft_evict (f\<lparr>ft_map := (ft_map f)(frame_id \<mapsto> instant), ft_queue := ft_queue f @ [frame_id]\<rparr>)"

section \<open>Indices and shard prefixes\<close>

definition wrapping_cmp :: "u32 \<Rightarrow> u32 \<Rightarrow> ordering" where
  "wrapping_cmp lhs rhs =
     (let diff = lhs - rhs
      in if diff = 0 then Equal else if diff < 0xFFFFFFFF div 2 then Greater else Less)"

definition SHARD_PREFIX_SIZE :: nat where
  "SHARD_PREFIX_SIZE = 22"

record shard_prefix =
  sp_packet_length :: u32
  sp_stream_id :: u16
  sp_packet_index :: u32
  sp_shards_count :: u32
  sp_shard_index :: u32
  sp_tx_r_instant :: u32

definition parse_shard_data :: "bytes \<Rightarrow> string + shard_prefix" where
  "parse_shard_data data =
     (if length data < 22 then Inl ''Received data is too short to contain a complete shard prefix''
      else Inr \<lparr>sp_packet_length = from_be_bytes (slice 0 4 data) + 4,
        sp_stream_id = from_be_bytes (slice 4 6 data),
        sp_packet_index = from_be_bytes (slice 6 10 data),
        sp_shards_count = from_be_bytes (slice 10 14 data),
        sp_shard_index = from_be_bytes (slice 14 18 data),
        sp_tx_r_instant = from_be_bytes (slice 18 22 data)\<rparr>)"

section \<open>The contract of a socket reader\<close>

text \<open>What a client of \<^verbatim>\<open>SocketReader\<close> relies on: messages come whole and in order, peeking does not
  consume, and an empty socket answers zero bytes.\<close>

locale socket_reader =
  fixes recv :: "bytes \<Rightarrow> 'r \<Rightarrow> nat con_result \<times> bytes \<times> 'r"
    and peek_prefix :: "bytes \<Rightarrow> nat \<Rightarrow> 'r \<Rightarrow> nat con_result \<times> bytes \<times> 'r"
    and pending :: "'r \<Rightarrow> bytes list"
    and alive :: "'r \<Rightarrow> bool"
  assumes recv_next:
      "pending r = d # ds \<Longrightarrow> length d \<le> length buf \<Longrightarrow>
         \<exists>r'. recv buf r = (Inr (length d), copy_at 0 d buf, r') \<and> pending r' = ds \<and> alive r' = alive r"
    and peek_next:
      "pending r = d # ds \<Longrightarrow> length d \<le> max_len \<Longrightarrow>
         \<exists>r'. peek_prefix pre max_len r = (Inr (length d), copy_at 0 (take (min (length d) (length pre)) d) pre, r') \<and>
           pending r' = d # ds \<and> alive r' = alive r"
    and peek_empty: "pending r = [] \<Longrightarrow> alive r \<Longrightarrow> peek_prefix pre max_len r = (Inr 0, pre, r)"
begin

lemma peek_then_recv:
  assumes "pending r = d # ds" "length d \<le> max_len" "length d \<le> length buf"
  shows "\<exists>r'. recv buf (snd (snd (peek_prefix pre max_len r))) = (Inr (length d), copy_at 0 d buf, r') \<and>
    pending r' = ds \<and> alive r' = alive r"
proof -
  obtain r1 where "peek_prefix pre max_len r =
      (Inr (length d), copy_at 0 (take (min (length d) (length pre)) d) pre, r1)"
    "pending r1 = d # ds" "alive r1 = alive r"
    using peek_next [OF assms(1,2)] by blast
  with recv_next [of r1 d ds buf] assms(3) show ?thesis by simp
qed

end

text \<open>The messages a buffered receiver still has to deliver.\<close>

definition br_pending :: "buffered_receiver \<Rightarrow> bytes list" where
  "br_pending r = (case br_buffer r of None \<Rightarrow> [] | Some d \<Rightarrow> [d]) @ chan_msgs (br_receiver r)"

definition br_alive :: "buffered_receiver \<Rightarrow> bool" where
  "br_alive r = chan_open (br_receiver r)"

lemmas br_defs = br_pending_def br_alive_def chan_try_recv_def

lemma br_recv_next:
  assumes "br_pending r = d # ds" "length d \<le> length buf"
  shows "\<exists>r'. br_recv buf r = (Inr (length d), copy_at 0 d buf, r') \<and> br_pending r' = ds \<and> br_alive r' = br_alive r"
  using assms by (auto simp: br_defs br_recv_def Let_def split: option.splits list.splits)

lemma br_peek_next:
  assumes "br_pending r = d # ds" "length d \<le> max_len"
  shows "\<exists>r'. br_peek_prefix pre max_len r =
      (Inr (length d), copy_at 0 (take (min (length d) (length pre)) d) pre, r') \<and>
    br_pending r' = d # ds \<and> br_alive r' = br_alive r"
  using assms by (auto simp: br_defs br_peek_prefix_def Let_def split: option.splits list.splits)

lemma br_peek_empty: "br_pending r = [] \<Longrightarrow> br_alive r \<Longrightarrow> br_peek_prefix pre max_len r = (Inr 0, pre, r)"
  by (auto simp: br_defs br_peek_prefix_def split: option.splits list.splits)

interpretation br: socket_reader br_recv br_peek_prefix br_pending br_alive
  by unfold_locales (use br_recv_next br_peek_next br_peek_empty in blast)+

section \<open>Properties\<close>

lemma copy_at_0: "copy_at 0 ys xs = ys @ drop (length ys) xs"
  by (simp add: copy_at_def)

text \<open>The receiver's own \<^verbatim>\<open>peek_prefix\<close> is the trait's default one, built on \<^verbatim>\<open>peek\<close>: same result,
  same prefix bytes, same state, errors included.\<close>

lemma peek_prefix_is_default: "br_peek_prefix prefix max_len r = default_peek_prefix br_peek prefix max_len r"
  by (auto simp: br_peek_prefix_def br_peek_def default_peek_prefix_def Let_def chan_try_recv_def copy_at_0
      too_small_def disconnected_def split: option.splits list.splits)

text \<open>The receiver's own \<^verbatim>\<open>recv_shared\<close> agrees with the trait's default one, built on \<^verbatim>\<open>recv\<close>, on every
  state whose next message is neither empty nor longer than the default's scratch buffer.\<close>

lemma recv_shared_is_default:
  assumes "\<forall>d ds. br_pending r = d # ds \<longrightarrow> 0 < length d \<and> length d \<le> MAX_PACKET_SIZE_RECV"
  shows "br_recv_shared r = default_recv_shared br_recv r"
  using assms
  by (auto simp: br_recv_shared_def br_recv_def default_recv_shared_def Let_def br_defs copy_at_0
      too_small_def disconnected_def split: option.splits list.splits)

lemma recv_shared_is_default_example:
  "br_recv_shared \<lparr>br_receiver = \<lparr>chan_msgs = [[1, 2]], chan_open = True\<rparr>, br_buffer = None\<rparr> =
   default_recv_shared br_recv \<lparr>br_receiver = \<lparr>chan_msgs = [[1, 2]], chan_open = True\<rparr>, br_buffer = None\<rparr>"
  by (rule recv_shared_is_default) (auto simp: br_pending_def MAX_PACKET_SIZE_RECV_def)

text \<open>C39. A message that does not fit the caller's buffer is lost if it comes fresh from the channel, while
  a message that was peeked before is kept: \<^verbatim>\<open>recv\<close> answers the same error in both cases.\<close>

theorem recv_drops_fresh_message:
  assumes "length d > length buf"
  shows "br_recv buf \<lparr>br_receiver = \<lparr>chan_msgs = d # ds, chan_open = b\<rparr>, br_buffer = None\<rparr> =
      (too_small, buf, \<lparr>br_receiver = \<lparr>chan_msgs = ds, chan_open = b\<rparr>, br_buffer = None\<rparr>) \<and>
    br_recv buf \<lparr>br_receiver = \<lparr>chan_msgs = ds, chan_open = b\<rparr>, br_buffer = Some d\<rparr> =
      (too_small, buf, \<lparr>br_receiver = \<lparr>chan_msgs = ds, chan_open = b\<rparr>, br_buffer = Some d\<rparr>)"
  using assms by (simp add: br_recv_def chan_try_recv_def)

theorem recv_drops_fresh_message_witness:
  "br_recv [0] \<lparr>br_receiver = \<lparr>chan_msgs = [[1, 2], [3]], chan_open = True\<rparr>, br_buffer = None\<rparr> =
      (too_small, [0], \<lparr>br_receiver = \<lparr>chan_msgs = [[3]], chan_open = True\<rparr>, br_buffer = None\<rparr>) \<and>
   br_recv [0] \<lparr>br_receiver = \<lparr>chan_msgs = [[3]], chan_open = True\<rparr>, br_buffer = Some [1, 2]\<rparr> =
      (too_small, [0], \<lparr>br_receiver = \<lparr>chan_msgs = [[3]], chan_open = True\<rparr>, br_buffer = Some [1, 2]\<rparr>)"
  by (rule recv_drops_fresh_message) simp

section \<open>Payload buffers and the frame tracker\<close>

definition pb_ok :: "pbuffer \<Rightarrow> bool" where
  "pb_ok b \<longleftrightarrow> hidden_offset b + pb_length b \<le> length (pb_inner b)"

lemma length_vec_resize [simp]: "length (vec_resize n xs) = n"
  by (simp add: vec_resize_def)

text \<open>The tracker invariant: the map holds only queued frames, and at most \<open>max_size\<close> are queued.\<close>

definition ft_inv :: "'t frame_tracker \<Rightarrow> bool" where
  "ft_inv f \<longleftrightarrow> dom (ft_map f) \<subseteq> set (ft_queue f) \<and> length (ft_queue f) \<le> ft_max_size f"

lemma ft_evict_inv:
  "dom (ft_map f) \<subseteq> set (ft_queue f) \<Longrightarrow> ft_inv (ft_evict f) \<and> ft_max_size (ft_evict f) = ft_max_size f"
proof (induction f rule: ft_evict.induct)
  case (1 f)
  show ?case
  proof (cases "length (ft_queue f) > ft_max_size f")
    case True
    then obtain x xs where q: "ft_queue f = x # xs" by (cases "ft_queue f") auto
    let ?g = "f\<lparr>ft_queue := xs, ft_map := (ft_map f)(x := None)\<rparr>"
    have "dom (ft_map ?g) \<subseteq> set (ft_queue ?g)" using 1(2) q by auto
    from 1(1) [OF True q this] True q show ?thesis by (simp add: ft_evict.simps [of f])
  next
    case False
    with 1(2) show ?thesis by (simp add: ft_inv_def ft_evict.simps [of f])
  qed
qed

text \<open>Inserting a new frame keeps the tracker's invariant (only queued frames are mapped, never more than
  the limit), and the new frame can be looked up.\<close>

lemma ft_insert_tracks:
  assumes "ft_inv f" "0 < ft_max_size f" "i \<notin> set (ft_queue f)"
  shows "ft_inv (ft_insert i t f) \<and> ft_map (ft_insert i t f) i = Some t"
proof
  let ?g = "f\<lparr>ft_map := (ft_map f)(i \<mapsto> t), ft_queue := ft_queue f @ [i]\<rparr>"
  have "dom (ft_map ?g) \<subseteq> set (ft_queue ?g)" using assms(1) by (auto simp: ft_inv_def)
  then show "ft_inv (ft_insert i t f)" using ft_evict_inv [of ?g] by (simp add: ft_insert_def)
  show "ft_map (ft_insert i t f) i = Some t"
  proof (cases "length (ft_queue f) < ft_max_size f")
    case True
    then show ?thesis by (simp add: ft_insert_def ft_evict.simps [of ?g])
  next
    case False
    with assms(1) have l: "length (ft_queue f) = ft_max_size f" by (simp add: ft_inv_def)
    with assms(2) obtain x xs where q: "ft_queue f = x # xs" by (cases "ft_queue f") auto
    let ?h = "?g\<lparr>ft_queue := xs @ [i], ft_map := (ft_map ?g)(x := None)\<rparr>"
    have "ft_evict ?g = ft_evict ?h" by (subst ft_evict.simps) (use l q in simp)
    also have "\<dots> = ?h" by (subst ft_evict.simps) (use l q in simp)
    finally have "ft_map (ft_insert i t f) i = ft_map ?h i" by (simp add: ft_insert_def)
    with q assms(3) show ?thesis by simp
  qed
qed

lemma ft_insert_tracks_example:
  "ft_inv (ft_insert 7 (3 :: nat) ft_new) \<and> ft_map (ft_insert 7 (3 :: nat) ft_new) 7 = Some 3"
  by (rule ft_insert_tracks) (simp_all add: ft_inv_def ft_new_def)

lemma wrapping_cmp_ahead:
  assumes "0 < k" "k < 0x7FFFFFFF"
  shows "wrapping_cmp (x + k) x = Greater" "wrapping_cmp x (x + k) = Less"
proof -
  have "\<not> - k < 0x7FFFFFFF"
  proof
    assume "- k < 0x7FFFFFFF"
    then have "unat (- k) < 0x7FFFFFFF" "unat k < 0x7FFFFFFF" using assms(2) by (simp_all add: word_less_nat_alt)
    then have "unat (k + - k) = unat k + unat (- k)" by (simp only: unat_word_ariths) simp
    with assms(1) show False by (simp add: word_less_nat_alt)
  qed
  with assms show "wrapping_cmp (x + k) x = Greater" "wrapping_cmp x (x + k) = Less"
    by (auto simp: wrapping_cmp_def Let_def)
qed

text \<open>C40. Packet indices are ordered by wrapping distance: an index ahead by less than \<open>2 ^ 31 - 1\<close> compares
  greater, and the comparison the other way gives less. At distance \<open>2 ^ 31 - 1\<close> both directions
  give less.\<close>

theorem wrapping_cmp_window:
  "(0 < k \<and> k < 0x7FFFFFFF \<longrightarrow> wrapping_cmp (x + k) x = Greater \<and> wrapping_cmp x (x + k) = Less) \<and>
   wrapping_cmp (x + 0x7FFFFFFF) x = Less \<and> wrapping_cmp x (x + 0x7FFFFFFF) = Less"
  using wrapping_cmp_ahead [of k x] by (auto simp: wrapping_cmp_def)

theorem wrapping_cmp_window_witness: "wrapping_cmp (0xFFFFFFFF + 2) 0xFFFFFFFF = Greater"
  using wrapping_cmp_window [of 2 "0xFFFFFFFF"] by simp

text \<open>Writing a range of a payload buffer keeps it well formed, and the payload then has the written bytes
  at the range's offset.\<close>

lemma pb_write_range_get:
  assumes "pb_ok b"
  shows "pb_ok (pb_write_range off data b) \<and>
    map_option (slice off (off + length data)) (pb_get (pb_write_range off data b)) = Some data"
proof -
  let ?n = "hidden_offset b + off + length data"
  let ?i = "if ?n > length (pb_inner b) then vec_resize ?n (pb_inner b) else pb_inner b"
  have w: "pb_write_range off data b = b\<lparr>pb_inner := copy_at (hidden_offset b + off) data ?i,
      pb_length := max (pb_length b) (off + length data)\<rparr>"
    by (simp add: pb_write_range_def Let_def)
  have l: "?n \<le> length ?i" "hidden_offset b + pb_length b \<le> length ?i" using assms by (auto simp: pb_ok_def)
  then have ok: "pb_ok (pb_write_range off data b)" by (simp add: w pb_ok_def)
  have "slice off (off + length data) (slice h (h + L) (copy_at (h + off) data i)) = data"
    if "h + off + length data \<le> length i" "off + length data \<le> L" for h L and i :: bytes
    using that slice_copy_at_same [of "h + off" i data] by (simp add: slice_slice add.assoc)
  from this [OF l(1)] have "slice off (off + length data)
      (slice (hidden_offset b) (hidden_offset b + max (pb_length b) (off + length data))
        (copy_at (hidden_offset b + off) data ?i)) = data"
    by simp
  with ok show ?thesis by (simp add: w pb_get_def slice_opt_def pb_ok_def)
qed

lemma pb_write_range_get_example:
  "pb_ok (pb_write_range 3 [1, 2] \<lparr>pb_inner = [9, 9], hidden_offset = 1, pb_length = 1\<rparr>) \<and>
   map_option (slice 3 (3 + length [1, 2 :: u8]))
     (pb_get (pb_write_range 3 [1, 2] \<lparr>pb_inner = [9, 9], hidden_offset = 1, pb_length = 1\<rparr>)) = Some [1, 2]"
  by (rule pb_write_range_get) (simp add: pb_ok_def)

end
