(* ===== verification/Floats.thy ===== *)
theory Floats
  imports Prelude Complex_Main
begin

text \<open>
  The floating-point types of the language, \<^verbatim>\<open>f32\<close> and \<^verbatim>\<open>f64\<close>, as their IEEE 754 bit patterns. An
  operation decodes its arguments to exact values (\<open>rat\<close>), computes exactly, and rounds once to
  nearest, ties to even. Every not-a-number result is the canonical one. Everything is executable.
\<close>

section \<open>Formats, values and rounding\<close>

record float_format =
  mant :: nat
  expo :: nat

definition binary32 :: float_format where
  "binary32 = \<lparr>mant = 23, expo = 8\<rparr>"

definition binary64 :: float_format where
  "binary64 = \<lparr>mant = 52, expo = 11\<rparr>"

text \<open>A value is not a number, an infinity, or a sign with a magnitude (the sign matters for zero).\<close>

datatype fval = FNan | FInf bool | FNum bool rat

definition emin :: "float_format \<Rightarrow> int" where
  "emin F = 2 - 2 ^ (expo F - 1)"

definition inf_bits :: "float_format \<Rightarrow> int" where
  "inf_bits F = (2 ^ expo F - 1) * 2 ^ mant F"

definition sign_bit :: "float_format \<Rightarrow> int" where
  "sign_bit F = 2 ^ (mant F + expo F)"

definition nan_bits :: "float_format \<Rightarrow> int" where
  "nan_bits F = inf_bits F + 2 ^ (mant F - 1)"

text \<open>The number of binary digits of an integer, and the binary exponent of a positive rational.\<close>

fun int_len :: "int \<Rightarrow> int" where
  "int_len n = (if n \<le> 0 then 0 else 1 + int_len (n div 2))"

declare int_len.simps [simp del]

definition ilog2 :: "rat \<Rightarrow> int" where
  "ilog2 q =
     (let (n, d) = quotient_of q; e = int_len n - int_len d
      in if 2 powi e \<le> q then e else e - 1)"

definition round_half_even :: "rat \<Rightarrow> int" where
  "round_half_even x =
     (let f = \<lfloor>x\<rfloor>; r = x - of_int f
      in if r < 1 / 2 then f else if 1 / 2 < r then f + 1 else if even f then f else f + 1)"

text \<open>The exponent a positive magnitude is rounded at, its rounded significand, and the bits.\<close>

definition round_exp :: "float_format \<Rightarrow> rat \<Rightarrow> int" where
  "round_exp F q = max (emin F) (ilog2 q)"

definition round_sig :: "float_format \<Rightarrow> rat \<Rightarrow> int" where
  "round_sig F q = round_half_even (q / 2 powi (round_exp F q - int (mant F)))"

definition mag_bits :: "float_format \<Rightarrow> rat \<Rightarrow> int" where
  "mag_bits F q =
     (if q = 0 then 0
      else min (inf_bits F) ((round_exp F q - emin F) * 2 ^ mant F + round_sig F q))"

definition mag_val :: "float_format \<Rightarrow> int \<Rightarrow> rat" where
  "mag_val F b =
     (let e = b div 2 ^ mant F; f = b mod 2 ^ mant F
      in if e = 0 then of_int f * 2 powi (emin F - int (mant F))
         else of_int (2 ^ mant F + f) * 2 powi (e - 1 + emin F - int (mant F)))"

definition f_encode :: "float_format \<Rightarrow> fval \<Rightarrow> int" where
  "f_encode F v =
     (case v of
        FNan \<Rightarrow> nan_bits F
      | FInf s \<Rightarrow> inf_bits F + (if s then sign_bit F else 0)
      | FNum s q \<Rightarrow> mag_bits F q + (if s then sign_bit F else 0))"

definition f_decode :: "float_format \<Rightarrow> int \<Rightarrow> fval" where
  "f_decode F b =
     (let s = (sign_bit F \<le> b mod (2 * sign_bit F)); m = b mod sign_bit F
      in if inf_bits F < m then FNan
         else if m = inf_bits F then FInf s
         else FNum s (mag_val F m))"

section \<open>Exact operations on values\<close>

definition signed :: "bool \<Rightarrow> rat \<Rightarrow> rat" where
  "signed s q = (if s then - q else q)"

fun v_neg :: "fval \<Rightarrow> fval" where
  "v_neg FNan = FNan"
| "v_neg (FInf s) = FInf (\<not> s)"
| "v_neg (FNum s q) = FNum (\<not> s) q"

fun v_abs :: "fval \<Rightarrow> fval" where
  "v_abs FNan = FNan"
| "v_abs (FInf s) = FInf False"
| "v_abs (FNum s q) = FNum False q"

definition v_of_rat :: "bool \<Rightarrow> rat \<Rightarrow> fval" where
  "v_of_rat zero_sign x = (if x = 0 then FNum zero_sign 0 else FNum (x < 0) \<bar>x\<bar>)"

fun v_add :: "fval \<Rightarrow> fval \<Rightarrow> fval" where
  "v_add (FNum s q) (FNum t r) = v_of_rat (s \<and> t) (signed s q + signed t r)"
| "v_add (FInf s) (FInf t) = (if s = t then FInf s else FNan)"
| "v_add (FInf s) (FNum t r) = FInf s"
| "v_add (FNum s q) (FInf t) = FInf t"
| "v_add _ _ = FNan"

definition v_sub :: "fval \<Rightarrow> fval \<Rightarrow> fval" where
  "v_sub a b = v_add a (v_neg b)"

fun v_mul :: "fval \<Rightarrow> fval \<Rightarrow> fval" where
  "v_mul (FNum s q) (FNum t r) = FNum (s \<noteq> t) (q * r)"
| "v_mul (FInf s) (FInf t) = FInf (s \<noteq> t)"
| "v_mul (FInf s) (FNum t r) = (if r = 0 then FNan else FInf (s \<noteq> t))"
| "v_mul (FNum s q) (FInf t) = (if q = 0 then FNan else FInf (s \<noteq> t))"
| "v_mul _ _ = FNan"

fun v_div :: "fval \<Rightarrow> fval \<Rightarrow> fval" where
  "v_div (FNum s q) (FNum t r) =
     (if r = 0 then if q = 0 then FNan else FInf (s \<noteq> t) else FNum (s \<noteq> t) (q / r))"
| "v_div (FInf s) (FInf t) = FNan"
| "v_div (FInf s) (FNum t r) = FInf (s \<noteq> t)"
| "v_div (FNum s q) (FInf t) = FNum (s \<noteq> t) 0"
| "v_div _ _ = FNan"

fun v_less :: "fval \<Rightarrow> fval \<Rightarrow> bool" where
  "v_less (FNum s q) (FNum t r) \<longleftrightarrow> signed s q < signed t r"
| "v_less (FInf s) (FInf t) \<longleftrightarrow> s \<and> \<not> t"
| "v_less (FInf s) (FNum t r) \<longleftrightarrow> s"
| "v_less (FNum s q) (FInf t) \<longleftrightarrow> \<not> t"
| "v_less _ _ \<longleftrightarrow> False"

fun v_eq :: "fval \<Rightarrow> fval \<Rightarrow> bool" where
  "v_eq (FNum s q) (FNum t r) \<longleftrightarrow> signed s q = signed t r"
| "v_eq (FInf s) (FInf t) \<longleftrightarrow> s = t"
| "v_eq _ _ \<longleftrightarrow> False"

definition v_le :: "fval \<Rightarrow> fval \<Rightarrow> bool" where
  "v_le a b \<longleftrightarrow> v_less a b \<or> v_eq a b"

text \<open>\<^verbatim>\<open>max\<close> and \<^verbatim>\<open>min\<close> return the other argument when one is not a number.\<close>

definition v_max :: "fval \<Rightarrow> fval \<Rightarrow> fval" where
  "v_max a b = (if a = FNan then b else if b = FNan then a else if v_less a b then b else a)"

definition v_min :: "fval \<Rightarrow> fval \<Rightarrow> fval" where
  "v_min a b = (if a = FNan then b else if b = FNan then a else if v_less b a then b else a)"

fun v_integral :: "(rat \<Rightarrow> int) \<Rightarrow> fval \<Rightarrow> fval" where
  "v_integral rnd (FNum s q) = FNum s \<bar>of_int (rnd (signed s q))\<bar>"
| "v_integral rnd v = v"

text \<open>Rounding to an integer with ties away from zero, as \<^verbatim>\<open>round\<close> does.\<close>

definition round_half_away :: "rat \<Rightarrow> int" where
  "round_half_away x = (if 0 \<le> x then \<lfloor>x + 1 / 2\<rfloor> else - \<lfloor>1 / 2 - x\<rfloor>)"

definition truncate_rat :: "rat \<Rightarrow> int" where
  "truncate_rat x = (if 0 \<le> x then \<lfloor>x\<rfloor> else \<lceil>x\<rceil>)"

text \<open>The saturating cast to an integer type with the given bounds.\<close>

fun v_to_int :: "int \<Rightarrow> int \<Rightarrow> fval \<Rightarrow> int" where
  "v_to_int lo hi FNan = 0"
| "v_to_int lo hi (FInf s) = (if s then lo else hi)"
| "v_to_int lo hi (FNum s q) = max lo (min hi (truncate_rat (signed s q)))"

section \<open>The language's types\<close>

type_synonym f32 = "32 word"
type_synonym f64 = "64 word"

definition f32_val :: "f32 \<Rightarrow> fval" where
  "f32_val x = f_decode binary32 (uint x)"

definition f32_of :: "fval \<Rightarrow> f32" where
  "f32_of v = of_int (f_encode binary32 v)"

definition f64_val :: "f64 \<Rightarrow> fval" where
  "f64_val x = f_decode binary64 (uint x)"

definition f64_of :: "fval \<Rightarrow> f64" where
  "f64_of v = of_int (f_encode binary64 v)"

definition f32_lit :: "rat \<Rightarrow> f32" where
  "f32_lit x = f32_of (v_of_rat False x)"

definition f64_lit :: "rat \<Rightarrow> f64" where
  "f64_lit x = f64_of (v_of_rat False x)"

definition f32_add :: "f32 \<Rightarrow> f32 \<Rightarrow> f32" where
  "f32_add a b = f32_of (v_add (f32_val a) (f32_val b))"

definition f32_sub :: "f32 \<Rightarrow> f32 \<Rightarrow> f32" where
  "f32_sub a b = f32_of (v_sub (f32_val a) (f32_val b))"

definition f32_mul :: "f32 \<Rightarrow> f32 \<Rightarrow> f32" where
  "f32_mul a b = f32_of (v_mul (f32_val a) (f32_val b))"

definition f32_div :: "f32 \<Rightarrow> f32 \<Rightarrow> f32" where
  "f32_div a b = f32_of (v_div (f32_val a) (f32_val b))"

definition f32_abs :: "f32 \<Rightarrow> f32" where
  "f32_abs a = f32_of (v_abs (f32_val a))"

definition f32_less :: "f32 \<Rightarrow> f32 \<Rightarrow> bool" where
  "f32_less a b = v_less (f32_val a) (f32_val b)"

definition f32_le :: "f32 \<Rightarrow> f32 \<Rightarrow> bool" where
  "f32_le a b = v_le (f32_val a) (f32_val b)"

definition f32_max :: "f32 \<Rightarrow> f32 \<Rightarrow> f32" where
  "f32_max a b = f32_of (v_max (f32_val a) (f32_val b))"

definition f32_min :: "f32 \<Rightarrow> f32 \<Rightarrow> f32" where
  "f32_min a b = f32_of (v_min (f32_val a) (f32_val b))"

definition f32_ceil :: "f32 \<Rightarrow> f32" where
  "f32_ceil a = f32_of (v_integral ceiling (f32_val a))"

definition f64_add :: "f64 \<Rightarrow> f64 \<Rightarrow> f64" where
  "f64_add a b = f64_of (v_add (f64_val a) (f64_val b))"

definition f64_sub :: "f64 \<Rightarrow> f64 \<Rightarrow> f64" where
  "f64_sub a b = f64_of (v_sub (f64_val a) (f64_val b))"

definition f64_mul :: "f64 \<Rightarrow> f64 \<Rightarrow> f64" where
  "f64_mul a b = f64_of (v_mul (f64_val a) (f64_val b))"

definition f64_div :: "f64 \<Rightarrow> f64 \<Rightarrow> f64" where
  "f64_div a b = f64_of (v_div (f64_val a) (f64_val b))"

definition f64_less :: "f64 \<Rightarrow> f64 \<Rightarrow> bool" where
  "f64_less a b = v_less (f64_val a) (f64_val b)"

definition f64_le :: "f64 \<Rightarrow> f64 \<Rightarrow> bool" where
  "f64_le a b = v_le (f64_val a) (f64_val b)"

definition f64_max :: "f64 \<Rightarrow> f64 \<Rightarrow> f64" where
  "f64_max a b = f64_of (v_max (f64_val a) (f64_val b))"

definition f64_min :: "f64 \<Rightarrow> f64 \<Rightarrow> f64" where
  "f64_min a b = f64_of (v_min (f64_val a) (f64_val b))"

definition f64_ceil :: "f64 \<Rightarrow> f64" where
  "f64_ceil a = f64_of (v_integral ceiling (f64_val a))"

definition f64_round :: "f64 \<Rightarrow> f64" where
  "f64_round a = f64_of (v_integral round_half_away (f64_val a))"

definition f64_of_f32 :: "f32 \<Rightarrow> f64" where
  "f64_of_f32 a = f64_of (f32_val a)"

definition f32_of_f64 :: "f64 \<Rightarrow> f32" where
  "f32_of_f64 a = f32_of (f64_val a)"

definition f32_of_nat :: "nat \<Rightarrow> f32" where
  "f32_of_nat n = f32_lit (of_nat n)"

definition f64_of_nat :: "nat \<Rightarrow> f64" where
  "f64_of_nat n = f64_lit (of_nat n)"

definition f32_to_usize :: "f32 \<Rightarrow> nat" where
  "f32_to_usize a = nat (v_to_int 0 (2 ^ 64 - 1) (f32_val a))"

definition f64_to_usize :: "f64 \<Rightarrow> nat" where
  "f64_to_usize a = nat (v_to_int 0 (2 ^ 64 - 1) (f64_val a))"

definition f64_to_i64 :: "f64 \<Rightarrow> int" where
  "f64_to_i64 a = v_to_int (- (2 ^ 63)) (2 ^ 63 - 1) (f64_val a)"

section \<open>Durations\<close>

text \<open>A duration is its number of nanoseconds. The conversions follow the standard library: seconds and
  nanoseconds are converted separately and added; back, the exact value is rounded to nanoseconds
  with ties to even, and a negative or too large value, or not a number, panics.\<close>

definition as_secs_f32 :: "nat \<Rightarrow> f32" where
  "as_secs_f32 d =
     f32_add (f32_lit (of_int (int d div 1000000000)))
       (f32_div (f32_lit (of_int (int d mod 1000000000))) (f32_lit 1000000000))"

definition as_secs_f64 :: "nat \<Rightarrow> f64" where
  "as_secs_f64 d =
     f64_add (f64_lit (of_int (int d div 1000000000)))
       (f64_div (f64_lit (of_int (int d mod 1000000000))) (f64_lit 1000000000))"

fun v_to_duration :: "fval \<Rightarrow> nat option" where
  "v_to_duration (FNum s q) =
     (let n = round_half_even (signed s q * 1000000000)
      in if signed s q < 0 \<or> 2 ^ 64 * 1000000000 \<le> n then None else Some (nat n))"
| "v_to_duration _ = None"

definition from_secs_f32 :: "f32 \<Rightarrow> nat option" where
  "from_secs_f32 a = v_to_duration (f32_val a)"

definition from_secs_f64 :: "f64 \<Rightarrow> nat option" where
  "from_secs_f64 a = v_to_duration (f64_val a)"

section \<open>Rounding\<close>

lemma int_len_bounds:
  "0 < n \<Longrightarrow> \<exists>k. int_len n = int k + 1 \<and> 2 ^ k \<le> n \<and> n < 2 ^ (k + 1)"
proof (induction n rule: int_len.induct)
  case (1 n)
  let ?h = "n div 2"
  have len: "int_len n = 1 + int_len ?h" using 1(2) by (simp add: int_len.simps [of n])
  show ?case
  proof (cases "0 < ?h")
    case True
    with 1 obtain k where "int_len ?h = int k + 1" "2 ^ k \<le> ?h" "?h < 2 ^ (k + 1)" by auto
    moreover from this have "2 * 2 ^ k \<le> n" "n < 4 * 2 ^ k" by simp_all
    ultimately show ?thesis using len by (intro exI [of _ "k + 1"]) simp
  next
    case False
    with 1(2) have "n = 1" by simp
    then show ?thesis by (intro exI [of _ 0]) (simp add: int_len.simps)
  qed
qed

lemma ilog2_bounds:
  assumes "0 < q"
  shows "2 powi ilog2 q \<le> q" "q < 2 powi (ilog2 q + 1)"
proof -
  obtain n d where nd: "quotient_of q = (n, d)" by force
  have d: "0 < d" using quotient_of_denom_pos [OF nd] .
  have q: "q = of_int n / of_int d" using quotient_of_div [OF nd] .
  with assms d have n: "0 < n" by (simp add: zero_less_divide_iff)
  obtain k where k: "int_len n = int k + 1" "2 ^ k \<le> n" "n < 2 ^ (k + 1)" using int_len_bounds [OF n] by blast
  obtain j where j: "int_len d = int j + 1" "2 ^ j \<le> d" "d < 2 ^ (j + 1)" using int_len_bounds [OF d] by blast
  have k': "(2 :: rat) ^ k \<le> of_int n" "of_int n < (2 :: rat) ^ (k + 1)"
    and j': "(2 :: rat) ^ j \<le> of_int d" "of_int d < (2 :: rat) ^ (j + 1)"
    using k(2,3) j(2,3) by (metis of_int_le_iff of_int_less_iff of_int_numeral of_int_power)+
  have e: "int_len n - int_len d = int k - int j" using k(1) j(1) by simp
  have pos: "0 < (of_int d :: rat)" using d by simp
  have lower: "2 powi (int k - int j - 1) \<le> q"
  proof -
    have "2 powi (int k - int j - 1) = (2 :: rat) ^ k / 2 ^ (j + 1)"
      by (simp add: power_int_diff power_int_add power_int_of_nat)
    also have "\<dots> \<le> of_int n / of_int d"
      using k'(1) j'(2) pos n by (intro frac_le) simp_all
    finally show ?thesis by (simp add: q)
  qed
  have upper: "q < 2 powi (int k - int j + 1)"
  proof -
    have "of_int n / of_int d < (2 :: rat) ^ (k + 1) / 2 ^ j"
      using k'(2) j'(1) n by (intro frac_less) simp_all
    also have "\<dots> = 2 powi (int k - int j + 1)"
      by (simp add: power_int_diff power_int_add power_int_of_nat)
    finally show ?thesis by (simp add: q)
  qed
  have il: "ilog2 q = (if 2 powi (int k - int j) \<le> q then int k - int j else int k - int j - 1)"
    by (simp add: ilog2_def nd e)
  show "2 powi ilog2 q \<le> q" using lower by (simp add: il)
  show "q < 2 powi (ilog2 q + 1)" using upper by (simp add: il)
qed

lemma pow2_less: "(2 :: rat) powi a < 2 powi b \<Longrightarrow> a < b"
  using power_int_increasing [of b a "2 :: rat"] by (cases "a < b") simp_all

lemma ilog2_unique:
  assumes "0 < q" "2 powi e \<le> q" "q < 2 powi (e + 1)"
  shows "ilog2 q = e"
proof -
  have "(2 :: rat) powi e < 2 powi (ilog2 q + 1)" "(2 :: rat) powi ilog2 q < 2 powi (e + 1)"
    using assms ilog2_bounds [OF assms(1)] by simp_all
  from this [THEN pow2_less] have "e < ilog2 q + 1" "ilog2 q < e + 1" .
  then show ?thesis by simp
qed

lemma round_half_even_le: "x \<le> of_int k \<Longrightarrow> round_half_even x \<le> k"
  and round_half_even_ge: "of_int k \<le> x \<Longrightarrow> k \<le> round_half_even x"
  and round_half_even_gt: "of_int k + 1 / 2 < x \<Longrightarrow> k < round_half_even x"
proof -
  have f: "of_int \<lfloor>x\<rfloor> \<le> x" "x < of_int \<lfloor>x\<rfloor> + 1" by linarith+
  show "round_half_even x \<le> k" if "x \<le> of_int k"
  proof (cases "x = of_int k")
    case True
    then show ?thesis by (simp add: round_half_even_def)
  next
    case False
    with that have "\<lfloor>x\<rfloor> < k" by linarith
    then show ?thesis by (simp add: round_half_even_def Let_def)
  qed
  show "k \<le> round_half_even x" if "of_int k \<le> x"
    using that by (auto simp: round_half_even_def Let_def le_floor_iff intro: add_increasing2)
  show "k < round_half_even x" if "of_int k + 1 / 2 < x"
  proof (cases "\<lfloor>x\<rfloor> = k")
    case True
    with that show ?thesis by (simp add: round_half_even_def Let_def)
  next
    case False
    moreover have "k \<le> \<lfloor>x\<rfloor>" using that by (simp add: le_floor_iff)
    ultimately have "k + 1 \<le> \<lfloor>x\<rfloor>" by simp
    then show ?thesis by (simp add: round_half_even_def Let_def)
  qed
qed

lemma round_half_even_int: "round_half_even (of_int k) = k"
  by (simp add: round_half_even_def)

lemma round_sig_bounds:
  assumes "0 < q"
  shows "0 \<le> round_sig F q" "round_sig F q \<le> 2 * 2 ^ mant F"
    "emin F < round_exp F q \<Longrightarrow> 2 ^ mant F \<le> round_sig F q"
    "emin F \<le> ilog2 q \<Longrightarrow> 2 ^ mant F \<le> round_sig F q"
proof -
  let ?e = "round_exp F q" and ?M = "int (mant F)"
  have p: "(0 :: rat) < 2 powi (?e - ?M)" by simp
  have scale: "2 powi (x + ?M) = (2 powi x :: rat) * 2 ^ mant F" for x
    by (simp add: power_int_add power_int_of_nat)
  show "0 \<le> round_sig F q"
    unfolding round_sig_def by (rule round_half_even_ge) (use assms p in simp)
  have "q < 2 powi (?e + 1)"
    using ilog2_bounds(2) [OF assms] power_int_increasing [of "ilog2 q + 1" "?e + 1" "2 :: rat"]
    by (simp add: round_exp_def)
  also have "\<dots> = of_int (2 * 2 ^ mant F) * 2 powi (?e - ?M)"
    using scale [of "?e - ?M"] by (simp add: power_int_add)
  finally have "q / 2 powi (?e - ?M) \<le> of_int (2 * 2 ^ mant F)"
    by (simp add: pos_divide_le_eq)
  then show "round_sig F q \<le> 2 * 2 ^ mant F"
    unfolding round_sig_def by (rule round_half_even_le)
  show low: "2 ^ mant F \<le> round_sig F q" if "emin F \<le> ilog2 q"
  proof -
    have "of_int (2 ^ mant F) * 2 powi (?e - ?M) = (2 powi ?e :: rat)"
      using scale [of "?e - ?M"] by simp
    also have "\<dots> \<le> q" using ilog2_bounds(1) [OF assms] that by (simp add: round_exp_def)
    finally have "of_int (2 ^ mant F) \<le> q / 2 powi (?e - ?M)" by (simp add: pos_le_divide_eq)
    then show ?thesis unfolding round_sig_def by (rule round_half_even_ge)
  qed
  show "2 ^ mant F \<le> round_sig F q" if "emin F < ?e"
    by (rule low) (use that in \<open>simp add: round_exp_def\<close>)
qed

lemma mag_val_split:
  assumes "0 \<le> E" "0 \<le> k" "k \<le> 2 * 2 ^ mant F" "0 < E \<Longrightarrow> 2 ^ mant F \<le> k"
  shows "mag_val F (E * 2 ^ mant F + k) = of_int k * 2 powi (E + emin F - int (mant F))"
proof -
  let ?P = "(2 :: int) ^ mant F"
  consider "k < ?P" | "?P \<le> k" "k < 2 * ?P" | "k = 2 * ?P" using assms(3) by linarith
  then show ?thesis
  proof cases
    case 1
    with assms have "E = 0" by force
    with 1 assms(2) show ?thesis by (simp add: mag_val_def)
  next
    case 2
    define f where "f = k - ?P"
    have f: "0 \<le> f" "f < ?P" "k = ?P + f" using 2 by (simp_all add: f_def)
    have "E * ?P + k = (E + 1) * ?P + f" by (simp add: f algebra_simps)
    then have "(E * ?P + k) div ?P = E + 1" "(E * ?P + k) mod ?P = f"
      using f(1,2) by (simp_all only: div_mult_self3 mod_mult_self3) simp_all
    with assms(1) f(3) show ?thesis by (simp add: mag_val_def Let_def)
  next
    case 3
    have "E * ?P + k = (E + 2) * ?P" by (simp add: 3 algebra_simps)
    then have "(E * ?P + k) div ?P = E + 2" "(E * ?P + k) mod ?P = 0" by simp_all
    moreover have "(2 :: rat) powi (E + 2 - 1 + emin F - int (mant F)) = 2 * 2 powi (E + emin F - int (mant F))"
      using power_int_add [of "2 :: rat" "E + emin F - int (mant F)" 1] by (simp add: algebra_simps)
    ultimately show ?thesis using assms(1) 3 by (simp add: mag_val_def Let_def)
  qed
qed

text \<open>The value of a rounded magnitude that does not overflow.\<close>

lemma mag_val_round:
  assumes "0 < q" "mag_bits F q < inf_bits F"
  shows "mag_val F (mag_bits F q) = of_int (round_sig F q) * 2 powi (round_exp F q - int (mant F))"
proof -
  have "mag_bits F q = (round_exp F q - emin F) * 2 ^ mant F + round_sig F q"
    using assms by (simp add: mag_bits_def)
  moreover have "mag_val F ((round_exp F q - emin F) * 2 ^ mant F + round_sig F q) =
      of_int (round_sig F q) * 2 powi (round_exp F q - emin F + emin F - int (mant F))"
    by (rule mag_val_split) (use round_sig_bounds [OF assms(1), of F] in \<open>auto simp: round_exp_def\<close>)
  ultimately show ?thesis by simp
qed

lemma mag_bits_nonneg: "0 \<le> q \<Longrightarrow> 0 \<le> mag_bits F q"
  using round_sig_bounds(1) [of q F] by (auto simp: mag_bits_def inf_bits_def round_exp_def)

lemma mag_bits_le: "mag_bits F q \<le> inf_bits F"
  by (simp add: mag_bits_def inf_bits_def)

lemma f_decode_encode_num:
  assumes "0 \<le> q" "0 < expo F"
  shows "f_decode F (f_encode F (FNum s q)) =
    (if mag_bits F q = inf_bits F then FInf s else FNum s (mag_val F (mag_bits F q)))"
proof -
  have "inf_bits F < sign_bit F" by (simp add: inf_bits_def sign_bit_def power_add algebra_simps)
  then have m: "0 \<le> mag_bits F q" "mag_bits F q < sign_bit F"
    using mag_bits_nonneg [OF assms(1), of F] mag_bits_le [of F q] by simp_all
  then have "(mag_bits F q + (if s then sign_bit F else 0)) mod sign_bit F = mag_bits F q"
    "sign_bit F \<le> (mag_bits F q + (if s then sign_bit F else 0)) mod (2 * sign_bit F) \<longleftrightarrow> s"
    by (cases s; simp)+
  with mag_bits_le [of F q] show ?thesis by (simp add: f_decode_def f_encode_def Let_def)
qed

section \<open>Single precision\<close>

lemma binary32_simps [simp]:
  "mant binary32 = 23" "expo binary32 = 8" "emin binary32 = - 126"
  "inf_bits binary32 = 0x7F800000" "sign_bit binary32 = 0x80000000"
  by (simp_all add: binary32_def emin_def inf_bits_def sign_bit_def)

lemma f32_val_of_num:
  assumes "0 \<le> q"
  shows "f32_val (f32_of (FNum s q)) =
    (if mag_bits binary32 q = inf_bits binary32 then FInf s else FNum s (mag_val binary32 (mag_bits binary32 q)))"
proof -
  let ?b = "f_encode binary32 (FNum s q)"
  have "0 \<le> ?b" "?b < 2 ^ 32"
    using mag_bits_nonneg [OF assms, of binary32] mag_bits_le [of binary32 q]
    by (auto simp: f_encode_def)
  then have "uint (of_int ?b :: 32 word) = ?b"
    by (simp add: uint_word_of_int take_bit_eq_mod)
  then show ?thesis
    using f_decode_encode_num [OF assms, of binary32 s] by (simp only: f32_val_def f32_of_def binary32_simps)
qed

text \<open>Rounding of a magnitude in the normal range, far from overflow.\<close>

lemma f32_val_of_normal:
  assumes "0 < q" "- 126 \<le> ilog2 q" "ilog2 q \<le> 100"
  shows "f32_val (f32_of (FNum s q)) =
    FNum s (of_int (round_half_even (q / 2 powi (ilog2 q - 23))) * 2 powi (ilog2 q - 23))"
proof -
  have e: "round_exp binary32 q = ilog2 q" using assms(2) by (simp add: round_exp_def)
  have k: "round_sig binary32 q \<le> 2 * 2 ^ 23" using round_sig_bounds(2) [OF assms(1), of binary32] by simp
  have "(ilog2 q + 126) * 2 ^ 23 \<le> 226 * 2 ^ 23" using assms(3) by simp
  then have "mag_bits binary32 q < inf_bits binary32"
    using k assms(1) by (simp add: mag_bits_def e)
  with assms(1) show ?thesis
    by (simp add: f32_val_of_num mag_val_round e round_sig_def)
qed

lemma f32_exact:
  assumes "0 < q" "- 126 \<le> ilog2 q" "ilog2 q \<le> 100" "q / 2 powi (ilog2 q - 23) = of_int k"
  shows "f32_val (f32_of (FNum s q)) = FNum s q"
proof -
  have "of_int k * 2 powi (ilog2 q - 23) = q" using assms(4) by (simp add: field_simps)
  then show ?thesis by (simp add: f32_val_of_normal [OF assms(1-3)] assms(4) round_half_even_int)
qed

lemma ilog2_nat_bounds:
  assumes "0 < n" "n < 2 ^ k"
  shows "0 \<le> ilog2 (of_nat n)" "ilog2 (of_nat n) < int k"
proof -
  have q: "0 < (of_nat n :: rat)" using assms(1) by simp
  have "(2 :: rat) powi 0 < 2 powi (ilog2 (of_nat n) + 1)"
    using ilog2_bounds(2) [OF q] assms(1) by (auto intro: le_less_trans [of _ "of_nat n"])
  then have "0 < ilog2 (of_nat n) + 1" by (rule pow2_less)
  then show "0 \<le> ilog2 (of_nat n)" by simp
  have "of_nat n < (2 :: rat) ^ k" using assms(2) by (metis of_nat_less_iff of_nat_numeral of_nat_power)
  then have "2 powi ilog2 (of_nat n) < (2 :: rat) powi int k"
    unfolding power_int_of_nat by (rule le_less_trans [OF ilog2_bounds(1) [OF q]])
  then show "ilog2 (of_nat n) < int k" by (rule pow2_less)
qed

lemma scaled_int:
  assumes "e \<le> 23"
  shows "(x :: rat) / 2 powi (e - 23) = x * of_int (2 ^ nat (23 - e))"
proof -
  have "(2 :: rat) powi (e - 23) = 1 / 2 ^ nat (23 - e)"
    using assms power_int_minus [of "2 :: rat" "23 - e"] power_int_of_nat [of "2 :: rat" "nat (23 - e)"]
    by (simp add: divide_inverse)
  then show ?thesis by simp
qed

text \<open>Integers below \<open>2 ^ 24\<close> are represented exactly.\<close>

lemma f32_of_nat_exact:
  assumes "n < 2 ^ 24"
  shows "f32_val (f32_of_nat n) = FNum False (of_nat n)"
proof (cases "n = 0")
  case True
  then show ?thesis by (simp add: f32_of_nat_def f32_lit_def v_of_rat_def f32_val_of_num mag_bits_def mag_val_def)
next
  case False
  then have b: "0 \<le> ilog2 (of_nat n)" "ilog2 (of_nat n) < int 24" using assms ilog2_nat_bounds [of n 24] by simp_all
  have "of_nat n / 2 powi (ilog2 (of_nat n) - 23) = (of_int (int n * 2 ^ nat (23 - ilog2 (of_nat n))) :: rat)"
    using b by (subst scaled_int) simp_all
  then have "f32_val (f32_of (FNum False (of_nat n))) = FNum False (of_nat n)"
    using False b by (intro f32_exact [where k = "int n * 2 ^ nat (23 - ilog2 (of_nat n))"]) simp_all
  with False show ?thesis by (simp add: f32_of_nat_def f32_lit_def v_of_rat_def)
qed

lemma ceiling_nat_div:
  assumes "0 < m"
  shows "\<lceil>of_nat d / of_nat m :: rat\<rceil> = int ((d + m - 1) div m)"
proof (rule ceiling_unique)
  let ?c = "(d + m - 1) div m"
  have "?c * m \<le> d + m - 1" by (rule div_times_less_eq_dividend)
  then have "?c * m < d + m" using assms by linarith
  moreover have "d + m - 1 < ?c * m + m"
    using dividend_less_div_times [OF assms, of "d + m - 1"] by (simp add: add.commute)
  then have "d \<le> ?c * m" using assms by linarith
  ultimately have "(of_nat (?c * m) :: rat) < of_nat (d + m)" "(of_nat d :: rat) \<le> of_nat (?c * m)"
    by (simp_all only: of_nat_less_iff of_nat_le_iff)
  then show "of_int (int ?c) - 1 < (of_nat d / of_nat m :: rat)" "(of_nat d / of_nat m :: rat) \<le> of_int (int ?c)"
    using assms by (simp_all add: field_simps)
qed

text \<open>Rounding a quotient of integers below \<open>2 ^ 24\<close> to single precision never crosses an integer.\<close>

lemma ceiling_rounded_quotient:
  assumes d: "0 < d" "d < 2 ^ 24" and m: "0 < m" "m < 2 ^ 24"
  defines "q \<equiv> of_nat d / of_nat m :: rat"
  defines "S \<equiv> 2 ^ nat (23 - ilog2 q) :: int"
  shows "\<lceil>of_int (round_half_even (q * of_int S)) / of_int S :: rat\<rceil> = \<lceil>q\<rceil>"
    and "- 24 \<le> ilog2 q" "ilog2 q \<le> 23"
proof -
  let ?e = "ilog2 q"
  have q: "0 < q" using d(1) m(1) by (simp add: q_def)
  have mq: "of_nat m * q = of_nat d" using m(1) by (simp add: q_def)
  have d24: "(of_nat d :: rat) < 2 ^ 24" and m24: "(of_nat m :: rat) < 2 ^ 24"
    using d(2) m(2) by (metis of_nat_less_iff of_nat_numeral of_nat_power)+
  have "q \<le> of_nat d" using d(1) m(1) by (simp add: q_def field_simps)
  then have "(2 :: rat) powi ?e < 2 powi 24" using ilog2_bounds(1) [OF q] d24 by simp
  from pow2_less [OF this] show e: "?e \<le> 23" by simp
  have "1 / 2 ^ 24 < q"
  proof -
    have "1 / 2 ^ 24 < (1 :: rat) / of_nat m" using m(1) m24 by (simp add: field_simps)
    also have "\<dots> \<le> q" using d(1) m(1) by (simp add: q_def field_simps)
    finally show ?thesis .
  qed
  also have "q < 2 powi (?e + 1)" by (rule ilog2_bounds(2) [OF q])
  finally have "1 / 2 ^ 24 < (2 :: rat) powi (?e + 1)" .
  then have "(2 :: rat) powi (- int 24) < 2 powi (?e + 1)"
    by (simp only: power_int_minus power_int_of_nat divide_inverse mult_1_left)
  from pow2_less [OF this] show "- 24 \<le> ?e" by simp
  have S: "0 < S" by (simp add: S_def)
  have S2: "(2 :: rat) powi ?e * of_int S = 2 ^ 23"
    using scaled_int [OF e, of "2 powi ?e"] by (simp add: S_def power_int_diff)
  have "(of_nat m :: rat) * 2 ^ 23 = (of_nat m * 2 powi ?e) * of_int S" by (simp add: S2 mult.assoc)
  also have "\<dots> \<le> (of_nat m * q) * of_int S"
    using ilog2_bounds(1) [OF q] S by (intro mult_right_mono mult_left_mono) simp_all
  also have "\<dots> < 2 ^ 24 * of_int S" using d24 S by (simp add: mq)
  finally have mS: "of_nat m < 2 * (of_int S :: rat)" by simp
  show "\<lceil>of_int (round_half_even (q * of_int S)) / of_int S :: rat\<rceil> = \<lceil>q\<rceil>"
  proof (rule ceiling_unique)
    let ?c = "\<lceil>q\<rceil>"
    have c: "of_int ?c - 1 < q" "q \<le> of_int ?c" by linarith+
    have "q * of_int S \<le> of_int (?c * S)" using c(2) S by simp
    then have "round_half_even (q * of_int S) \<le> ?c * S" by (rule round_half_even_le)
    then have "(of_int (round_half_even (q * of_int S)) :: rat) \<le> of_int (?c * S)" by (simp only: of_int_le_iff)
    then show "of_int (round_half_even (q * of_int S)) / of_int S \<le> (of_int ?c :: rat)"
      using S by (simp add: pos_divide_le_eq)
    have "(?c - 1) * int m < int d"
    proof -
      have "(of_int ?c - 1) * of_nat m < q * of_nat m" using c(1) m(1) by simp
      then have "(of_int ((?c - 1) * int m) :: rat) < of_int (int d)" using mq by (simp add: mult.commute)
      then show ?thesis by (simp only: of_int_less_iff)
    qed
    then have "(of_int ((?c - 1) * int m + 1) :: rat) \<le> of_int (int d)" by (simp only: of_int_le_iff)
    then have le: "(of_int ?c - 1) * of_nat m + 1 \<le> (of_nat d :: rat)" by simp
    have "(of_int ?c - 1) + 1 / of_nat m = ((of_int ?c - 1) * of_nat m + 1) / (of_nat m :: rat)"
      using m(1) by (simp add: add_divide_distrib)
    also have "\<dots> \<le> of_nat d / of_nat m" using le by (rule divide_right_mono) simp
    also have "\<dots> = q" by (simp add: q_def)
    finally have "(of_int ?c - 1) + 1 / of_nat m \<le> q" .
    then have "((of_int ?c - 1) + 1 / of_nat m) * of_int S \<le> q * of_int S" using S by simp
    moreover have "1 / 2 < of_int S / (of_nat m :: rat)" using mS m(1) by (simp add: field_simps)
    moreover have "((of_int ?c - 1) + 1 / of_nat m) * of_int S = of_int ((?c - 1) * S) + of_int S / (of_nat m :: rat)"
      by (simp add: algebra_simps)
    ultimately have "of_int ((?c - 1) * S) + 1 / 2 < q * of_int S" by linarith
    then have "(?c - 1) * S < round_half_even (q * of_int S)" by (rule round_half_even_gt)
    then have "(of_int ((?c - 1) * S) :: rat) < of_int (round_half_even (q * of_int S))" by (simp only: of_int_less_iff)
    then show "of_int ?c - 1 < of_int (round_half_even (q * of_int S)) / (of_int S :: rat)"
      using S by (simp add: pos_less_divide_eq)
  qed
qed

text \<open>The ceiling of a single-precision quotient of such integers is the integer ceiling.\<close>

lemma f32_ceil_div:
  assumes d: "0 < d" "d < 2 ^ 24" and m: "0 < m" "m < 2 ^ 24"
  shows "f32_to_usize (f32_ceil (f32_div (f32_of_nat d) (f32_of_nat m))) = (d + m - 1) div m"
proof -
  define q where "q = (of_nat d / of_nat m :: rat)"
  define S where "S = (2 ^ nat (23 - ilog2 q) :: int)"
  define c where "c = (d + m - 1) div m"
  have q: "0 < q" using d(1) m(1) by (simp add: q_def)
  note r = ceiling_rounded_quotient [OF d m, folded q_def, folded S_def]
  have "f32_val (f32_div (f32_of_nat d) (f32_of_nat m)) = f32_val (f32_of (FNum False q))"
    using m(1) by (simp add: f32_div_def f32_of_nat_exact [OF d(2)] f32_of_nat_exact [OF m(2)] q_def)
  also have "\<dots> = FNum False (of_int (round_half_even (q / 2 powi (ilog2 q - 23))) * 2 powi (ilog2 q - 23))"
    using r(2,3) by (intro f32_val_of_normal [OF q]) simp_all
  also have "\<dots> = FNum False (of_int (round_half_even (q * of_int S)) / of_int S)"
  proof -
    have "2 powi (ilog2 q - 23) = 1 / (of_int S :: rat)"
      using scaled_int [OF r(3), of 1] by (simp add: S_def field_simps)
    then show ?thesis by simp
  qed
  finally have v: "f32_val (f32_div (f32_of_nat d) (f32_of_nat m)) =
      FNum False (of_int (round_half_even (q * of_int S)) / of_int S)" .
  have ceil: "\<lceil>of_int (round_half_even (q * of_int S)) / of_int S :: rat\<rceil> = int c"
    using r(1) ceiling_nat_div [OF m(1), of d] by (simp add: q_def c_def)
  have "c \<le> d" unfolding c_def using d(1) m(1) by (cases d) (auto intro: div_le_dividend order_trans [OF div_le_mono])
  with d have c: "c < 2 ^ 24" by simp
  have "f32_ceil (f32_div (f32_of_nat d) (f32_of_nat m)) = f32_of_nat c"
    unfolding f32_ceil_def v by (simp add: signed_def ceil) (simp add: f32_of_nat_def f32_lit_def v_of_rat_def)
  with c show ?thesis
    by (simp add: f32_to_usize_def f32_of_nat_exact signed_def truncate_rat_def) (simp add: c_def)
qed

lemma f32_of_nat_tie:
  assumes "2 ^ 24 \<le> n" "n < 2 ^ 25" "4 dvd n"
  shows "f32_val (f32_of_nat (n + 1)) = FNum False (of_nat n)"
proof -
  obtain k where k: "n = 4 * k" using assms(3) by auto
  define q where "q = (of_nat (n + 1) :: rat)"
  have q: "0 < q" by (simp add: q_def)
  have "4 * k < 33554432" using assms(2) k by simp
  then have "4 * k + 1 < 33554432" by presburger
  then have "n + 1 < 2 ^ 25" by (simp add: k)
  then have "ilog2 q < int 25" using ilog2_nat_bounds(2) [of "n + 1" 25] by (simp add: q_def)
  moreover have "(2 :: rat) powi 24 < 2 powi (ilog2 q + 1)"
  proof -
    have "(of_nat (2 ^ 24) :: rat) \<le> of_nat n" using assms(1) by (simp only: of_nat_le_iff)
    then have "(2 :: rat) powi 24 \<le> q" by (simp add: q_def)
    then show ?thesis by (rule le_less_trans [OF _ ilog2_bounds(2) [OF q]])
  qed
  then have "24 < ilog2 q + 1" by (rule pow2_less)
  ultimately have e: "ilog2 q = 24" by simp
  have h: "q / 2 = of_int (2 * int k) + 1 / 2" by (simp add: q_def k add_divide_distrib)
  have "\<lfloor>q / 2\<rfloor> = 2 * int k" unfolding h by (rule floor_unique) simp_all
  then have "round_half_even (q / 2) = 2 * int k" unfolding round_half_even_def Let_def by (simp add: h)
  then have "f32_val (f32_of (FNum False q)) = FNum False (of_nat n)"
    using f32_val_of_normal [OF q, of False] by (simp add: e k)
  then show ?thesis by (simp add: f32_of_nat_def f32_lit_def v_of_rat_def q_def)
qed

text \<open>From \<open>2 ^ 24\<close> on, a remainder of one can be rounded away before the division.\<close>

lemma f32_ceil_div_tie:
  assumes "2 ^ 24 \<le> m * d" "m * d < 2 ^ 25" "4 dvd m * d" "2 \<le> d" "d < 2 ^ 24"
  shows "f32_to_usize (f32_ceil (f32_div (f32_of_nat (m * d + 1)) (f32_of_nat d))) = m"
proof -
  have "m * 2 < 2 ^ 25" using mult_le_mono2 [OF assms(4)] assms(2) by (rule le_less_trans)
  then have m: "m < 2 ^ 24" by simp
  have "f32_div (f32_of_nat (m * d + 1)) (f32_of_nat d) = f32_of (FNum False (of_nat m))"
    unfolding f32_div_def f32_of_nat_tie [OF assms(1-3)] f32_of_nat_exact [OF assms(5)] using assms(4) by simp
  also have "\<dots> = f32_of_nat m" by (simp add: f32_of_nat_def f32_lit_def v_of_rat_def)
  finally have "f32_div (f32_of_nat (m * d + 1)) (f32_of_nat d) = f32_of_nat m" .
  moreover have "f32_ceil (f32_of_nat m) = f32_of_nat m"
    by (simp add: f32_ceil_def f32_of_nat_exact [OF m] signed_def) (simp add: f32_of_nat_def f32_lit_def v_of_rat_def)
  ultimately show ?thesis using m by (simp add: f32_to_usize_def f32_of_nat_exact signed_def truncate_rat_def)
qed

end
