(* ===== verification/Stream_Socket.thy ===== *)
theory Stream_Socket
  imports Socket_Channel Floats "HOL-Library.AList"
begin

text \<open>
  Sharding and reassembly of packets, \<^verbatim>\<open>examples/lib/alvr_stream_socket.rs\<close>: \<^verbatim>\<open>StreamSender::send\<close>,
  \<^verbatim>\<open>StreamSocket::recv\<close> with its statistics, the deadline sweep, and \<^verbatim>\<open>StreamReceiver::recv\<close>. A call
  that panics, or that never returns, is \<open>None\<close>.

  Parameters of the model: the timestamps of the crate \<^verbatim>\<open>tai_time\<close> (\<open>tai\<close>, durations being numbers
  of nanoseconds); the placement of a new key in a hash map's iteration order (\<open>ins\<close>; an association
  list in iteration order is the map); the library's \<^verbatim>\<open>powf\<close>; the run's settings (\<open>settings\<close>); and the
  reader behind the \<^verbatim>\<open>SocketReader\<close> trait object (its \<open>recv\<close> and \<open>peek_prefix\<close>).
\<close>

section \<open>Parameters\<close>

record 't tai =
  tai_epoch :: 't
  tai_le :: "'t \<Rightarrow> 't \<Rightarrow> bool"
  tai_checked_add :: "'t \<Rightarrow> nat \<Rightarrow> 't option"
  tai_checked_since :: "'t \<Rightarrow> 't \<Rightarrow> nat option"

record settings =
  client_deadline :: nat
  anchor_first :: bool
  nada_fix :: bool

definition VIDEO :: u16 where
  "VIDEO = 3"

section \<open>Sending\<close>

record 't stream_sender =
  ss_stream_id :: u16
  ss_max_packet_size :: nat
  ss_next_packet_index :: u32
  ss_used_buffers :: "bytes list"
  ss_shards_count :: nat
  ss_ref_time :: 't
  ss_frame_tracker :: "'t frame_tracker"

definition request_stream :: "nat \<Rightarrow> u16 \<Rightarrow> 't \<Rightarrow> 't stream_sender" where
  "request_stream max_packet_size stream_id t0 =
     \<lparr>ss_stream_id = stream_id, ss_max_packet_size = max_packet_size, ss_next_packet_index = 0,
      ss_used_buffers = [], ss_shards_count = 0, ss_ref_time = t0, ss_frame_tracker = ft_new\<rparr>"

definition shards_count_of :: "nat \<Rightarrow> nat \<Rightarrow> nat" where
  "shards_count_of data_size max_shard_data_size =
     f32_to_usize (f32_ceil (f32_div (f32_of_nat data_size) (f32_of_nat max_shard_data_size)))"

text \<open>The prefix written over the first bytes of a shard.\<close>

definition write_prefix :: "nat \<Rightarrow> u16 \<Rightarrow> u32 \<Rightarrow> nat \<Rightarrow> nat \<Rightarrow> f32 \<Rightarrow> bytes \<Rightarrow> bytes" where
  "write_prefix len4 stream_id packet_index shards_count idx tx_r_instant sub =
     (let sub = copy_at 0 (to_be_bytes 4 (of_nat len4 :: u32)) sub;
          sub = copy_at 4 (to_be_bytes 2 stream_id) sub;
          sub = copy_at 6 (to_be_bytes 4 packet_index) sub;
          sub = copy_at 10 (to_be_bytes 4 (of_nat shards_count :: u32)) sub;
          sub = copy_at 14 (to_be_bytes 4 (of_nat idx :: u32)) sub;
          sub = copy_at 18 (to_be_bytes 4 tx_r_instant) sub
      in sub)"

definition send_shard ::
  "'t tai \<Rightarrow> 't stream_sender \<Rightarrow> nat \<Rightarrow> nat \<Rightarrow> nat \<Rightarrow> 't \<Rightarrow> nat \<Rightarrow>
     bytes \<times> bytes chan \<times> 't frame_tracker \<Rightarrow> (bytes \<times> bytes chan \<times> 't frame_tracker) option" where
  "send_shard T s max_shard_data_size actual_buffer_size shards_count now idx st =
     (case st of (inner, out, tracker) \<Rightarrow>
        let packet_start_position = idx * max_shard_data_size in do {
          assert_opt (packet_start_position \<le> length inner);
          remaining \<leftarrow> checked_sub actual_buffer_size packet_start_position;
          let packet_length = min (ss_max_packet_size s) remaining;
          d \<leftarrow> tai_checked_since T now (ss_ref_time s);
          let tx_r_instant = as_secs_f32 d;
          len4 \<leftarrow> checked_sub packet_length 4;
          let sub = drop packet_start_position inner;
          assert_opt (SHARD_PREFIX_SIZE \<le> length sub);
          let sub = write_prefix len4 (ss_stream_id s) (ss_next_packet_index s) shards_count idx tx_r_instant sub;
          msg \<leftarrow> slice_opt 0 packet_length sub;
          let out = chan_send msg out;
          let tracker = (if idx = 0 then ft_insert (ss_next_packet_index s) now tracker else tracker);
          Some (take packet_start_position inner @ sub, out, tracker)
        })"

fun send_loop ::
  "(nat \<Rightarrow> 'a \<Rightarrow> 'a option) \<Rightarrow> nat list \<Rightarrow> 'a \<Rightarrow> 'a option" where
  "send_loop step [] st = Some st"
| "send_loop step (idx # is) st = do { st \<leftarrow> step idx st; send_loop step is st }"

definition send ::
  "'t tai \<Rightarrow> pbuffer \<Rightarrow> 't \<Rightarrow> 't stream_sender \<Rightarrow> bytes chan \<Rightarrow> ('t stream_sender \<times> bytes chan) option" where
  "send T buffer now s out = do {
     max_shard_data_size \<leftarrow> checked_sub (ss_max_packet_size s) SHARD_PREFIX_SIZE;
     let actual_buffer_size = hidden_offset buffer + pb_length buffer;
     data_size \<leftarrow> checked_sub actual_buffer_size SHARD_PREFIX_SIZE;
     let shards_count = shards_count_of data_size max_shard_data_size;
     (inner, out, tracker) \<leftarrow>
       send_loop (send_shard T s max_shard_data_size actual_buffer_size shards_count now) [0..<shards_count]
         (pb_inner buffer, out, ss_frame_tracker s);
     Some (s\<lparr>ss_frame_tracker := tracker, ss_shards_count := shards_count,
       ss_used_buffers := ss_used_buffers s @ [inner]\<rparr>, out)
   }"

section \<open>State of the receiving socket\<close>

record 't in_progress_packet =
  ipp_buffer :: bytes
  ipp_buffer_length :: nat
  received_shard_indices :: "nat set"
  ipp_deadline :: "'t option"
  num_shards_expected :: nat
  id_frame :: u32

record kalman_filter =
  k_ow_delay :: f32
  m_current :: f32
  p_current :: f32
  noise_prev :: f32
  residual_z :: f32
  noise_estimation :: f32
  m_prev :: f32
  p_prev :: f32
  k_gain :: f32
  measured_delay :: f32
  last_tx_time :: f32
  last_rx_time :: f32

definition kalman_default :: kalman_filter where
  "kalman_default = \<lparr>k_ow_delay = 0, m_current = 0, p_current = f32_lit (1 / 10), noise_prev = 0, residual_z = 0,
     noise_estimation = 0, m_prev = 0, p_prev = 0, k_gain = 0, measured_delay = 0, last_tx_time = 0,
     last_rx_time = 0\<rparr>"

record 't shard_map_stats =
  sm_tx_r_instant :: f32
  sm_rx_instant :: 't
  sm_rx_bytes :: u32
  sm_rx_bytes_app :: u32

record 't recv_state =
  rs_shard_length :: nat
  rs_stream_id :: u16
  rs_packet_index :: u32
  rs_shards_count :: nat
  rs_shard_index :: nat
  rs_packet_cursor :: nat
  rs_backup :: "bytes option"
  rs_should_discard :: bool
  rs_frame_deadline :: "'t option"

record reconstructed_packet =
  rp_index :: u32
  rp_buffer :: bytes
  rp_size :: nat
  rp_frame_index :: u32
  rp_frame_span :: f32
  rp_frame_interarrival :: f32
  rp_interarrival_jitter :: f32
  rp_ow_delay :: f32
  rp_filtered_ow_delay :: f32
  rp_rx_bytes :: u32
  rp_bytes_in_frame :: u32
  rp_bytes_in_frame_app :: u32
  rp_rx_shard_counter :: u32
  rp_duplicated_shard_counter :: u32
  rp_highest_rx_frame_index :: int
  rp_highest_rx_shard_index :: int
  rp_tx_instant_packet :: f32
  rp_rx_instant_packet :: f32
  rp_nada_owd_us :: "int option"
  rp_shards_in_frame :: u32

record 't stream_recv_components =
  used_buffers :: "bytes list"
  packet_queue :: "reconstructed_packet list"
  in_progress_packets :: "(u32 \<times> 't in_progress_packet) list"
  discarded_shards_sink :: "'t in_progress_packet"

record 't stream_socket =
  sk_max_packet_size :: nat
  shard_recv_state :: "'t recv_state option"
  components :: "(u16 \<times> 't stream_recv_components) list"
  map_rx :: "(u32 \<times> (nat \<times> 't shard_map_stats) list) list"
  sk_rx_bytes :: u32
  prev_shard_tx_r_instant :: "f32 option"
  prev_shard_rx_instant :: "'t option"
  sk_interarrival_jitter :: f32
  kalman :: kalman_filter
  prev_frame_rx_instant :: 't
  prev_frame_tx_r_instant :: "f32 option"
  sk_rx_shard_counter :: u32
  sk_duplicated_shard_counter :: u32
  highest_rx_shard_index :: int
  highest_rx_frame_index :: int
  lost_shards_deadline_map :: "(u32 \<times> nat) list"
  lost_shards_expected_map :: "(u32 \<times> nat) list"

definition socket_build :: "'t tai \<Rightarrow> nat \<Rightarrow> 't stream_socket" where
  "socket_build T max_packet_size =
     \<lparr>sk_max_packet_size = max_packet_size, shard_recv_state = None, components = [], map_rx = [],
      sk_rx_bytes = 0, prev_shard_tx_r_instant = None, prev_shard_rx_instant = None,
      sk_interarrival_jitter = 0, kalman = kalman_default, prev_frame_rx_instant = tai_epoch T,
      prev_frame_tx_r_instant = None, sk_rx_shard_counter = 0, sk_duplicated_shard_counter = 0,
      highest_rx_shard_index = - 1, highest_rx_frame_index = - 1,
      lost_shards_deadline_map = [], lost_shards_expected_map = []\<rparr>"

definition empty_sink :: "'t in_progress_packet" where
  "empty_sink = \<lparr>ipp_buffer = [], ipp_buffer_length = 0, received_shard_indices = {}, ipp_deadline = None,
     num_shards_expected = 0, id_frame = 0\<rparr>"

definition subscribe_to_stream :: "u16 \<Rightarrow> nat \<Rightarrow> 't stream_socket \<Rightarrow> 't stream_socket" where
  "subscribe_to_stream stream_id max_concurrent_buffers s =
     s\<lparr>components := AList.update stream_id
        \<lparr>used_buffers = replicate max_concurrent_buffers [], packet_queue = [], in_progress_packets = [],
         discarded_shards_sink = empty_sink\<rparr> (components s)\<rparr>"

section \<open>Deadline sweep\<close>

definition is_expired :: "'t tai \<Rightarrow> 't \<Rightarrow> 't in_progress_packet \<Rightarrow> bool" where
  "is_expired T now p = (case ipp_deadline p of None \<Rightarrow> False | Some dl \<Rightarrow> tai_le T dl now)"

text \<open>The loss recorded for an expired packet; the count of lost shards must not underflow.\<close>

definition record_loss ::
  "settings \<Rightarrow> 't in_progress_packet \<Rightarrow> (u32 \<times> nat) list \<times> (u32 \<times> nat) list \<Rightarrow>
     ((u32 \<times> nat) list \<times> (u32 \<times> nat) list) option" where
  "record_loss cfg p lost = do {
     shards_lost \<leftarrow> checked_sub (num_shards_expected p) (card (received_shard_indices p));
     Some (AList.update (id_frame p) shards_lost (fst lost),
       if nada_fix cfg then AList.update (id_frame p) (num_shards_expected p) (snd lost) else snd lost)
   }"

fun record_losses ::
  "settings \<Rightarrow> 't in_progress_packet list \<Rightarrow> (u32 \<times> nat) list \<times> (u32 \<times> nat) list \<Rightarrow>
     ((u32 \<times> nat) list \<times> (u32 \<times> nat) list) option" where
  "record_losses cfg [] lost = Some lost"
| "record_losses cfg (p # ps) lost = do { lost \<leftarrow> record_loss cfg p lost; record_losses cfg ps lost }"

definition sweep_component ::
  "'t tai \<Rightarrow> 't \<Rightarrow> 't stream_recv_components \<Rightarrow> 't stream_recv_components" where
  "sweep_component T now c =
     (let expired = filter (\<lambda>(k, p). is_expired T now p) (in_progress_packets c)
      in c\<lparr>in_progress_packets := filter (\<lambda>(k, p). \<not> is_expired T now p) (in_progress_packets c),
           used_buffers := used_buffers c @ map (\<lambda>_. []) (filter (\<lambda>(k, p). ipp_buffer p \<noteq> []) expired)\<rparr>)"

fun sweep_losses ::
  "settings \<Rightarrow> 't tai \<Rightarrow> 't \<Rightarrow> (u16 \<times> 't stream_recv_components) list \<Rightarrow>
     (u32 \<times> nat) list \<times> (u32 \<times> nat) list \<Rightarrow> ((u32 \<times> nat) list \<times> (u32 \<times> nat) list) option" where
  "sweep_losses cfg T now [] lost = Some lost"
| "sweep_losses cfg T now ((sid, c) # cs) lost = do {
     lost \<leftarrow> record_losses cfg (map snd (filter (\<lambda>(k, p). is_expired T now p) (in_progress_packets c))) lost;
     sweep_losses cfg T now cs lost
   }"

definition sweep_expired_deadlines :: "settings \<Rightarrow> 't tai \<Rightarrow> 't \<Rightarrow> 't stream_socket \<Rightarrow> 't stream_socket option" where
  "sweep_expired_deadlines cfg T now s = do {
     (lost, expected) \<leftarrow>
       sweep_losses cfg T now (components s) (lost_shards_deadline_map s, lost_shards_expected_map s);
     Some (s\<lparr>components := map (\<lambda>(sid, c). (sid, sweep_component T now c)) (components s),
       lost_shards_deadline_map := lost, lost_shards_expected_map := expected\<rparr>)
   }"

definition flush_shards_expected_deadline :: "'t stream_socket \<Rightarrow> nat \<times> 't stream_socket" where
  "flush_shards_expected_deadline s =
     (sum_list (map snd (lost_shards_expected_map s)), s\<lparr>lost_shards_expected_map := []\<rparr>)"

definition flush_shards_lost_deadline :: "'t stream_socket \<Rightarrow> (u32 list \<times> nat list) \<times> 't stream_socket" where
  "flush_shards_lost_deadline s =
     ((map fst (lost_shards_deadline_map s), map snd (lost_shards_deadline_map s)),
      s\<lparr>lost_shards_deadline_map := []\<rparr>)"

section \<open>Receiving a shard\<close>

definition jitter_update :: "'t tai \<Rightarrow> 't \<Rightarrow> f32 \<Rightarrow> 't stream_socket \<Rightarrow> 't stream_socket option" where
  "jitter_update T rx_instant tx_r_instant s = do {
     jitter \<leftarrow>
       (case (prev_shard_rx_instant s, prev_shard_tx_r_instant s) of
          (Some prev_rx, Some prev_tx) \<Rightarrow> do {
            d \<leftarrow> tai_checked_since T rx_instant prev_rx;
            let transit_diff = f32_sub (as_secs_f32 d) (f32_sub tx_r_instant prev_tx);
            Some (f32_add (sk_interarrival_jitter s)
              (f32_div (f32_sub (f32_abs transit_diff) (sk_interarrival_jitter s)) (f32_lit 16)))
          }
        | _ \<Rightarrow> Some (sk_interarrival_jitter s));
     Some (s\<lparr>sk_interarrival_jitter := jitter, prev_shard_tx_r_instant := Some tx_r_instant,
       prev_shard_rx_instant := Some rx_instant\<rparr>)
   }"

definition as_i32 :: "32 word \<Rightarrow> int" where
  "as_i32 w = sint w"

definition highest_update :: "u32 \<Rightarrow> nat \<Rightarrow> 't stream_socket \<Rightarrow> 't stream_socket" where
  "highest_update packet_index shard_index s =
     (let f = as_i32 packet_index; i = as_i32 (of_nat shard_index)
      in if highest_rx_frame_index s = f then
           (if highest_rx_shard_index s < i then s\<lparr>highest_rx_shard_index := i\<rparr> else s)
         else if highest_rx_frame_index s < f then
           s\<lparr>highest_rx_frame_index := f, highest_rx_shard_index := i\<rparr>
         else s)"

definition video_shard_stats ::
  "'t tai \<Rightarrow> 't \<Rightarrow> nat \<Rightarrow> u32 \<Rightarrow> nat \<Rightarrow> f32 \<Rightarrow> 't stream_socket \<Rightarrow> 't stream_socket option" where
  "video_shard_stats T now shard_length packet_index shard_index tx_r_instant s = do {
     let s = highest_update packet_index shard_index s;
     app \<leftarrow> checked_sub shard_length SHARD_PREFIX_SIZE;
     let packet = \<lparr>sm_tx_r_instant = tx_r_instant, sm_rx_instant = now, sm_rx_bytes = of_nat shard_length,
       sm_rx_bytes_app = of_nat app\<rparr>;
     let shards_map = (case map_of (map_rx s) packet_index of None \<Rightarrow> [] | Some m \<Rightarrow> m);
     let s =
       (if map_of shards_map shard_index \<noteq> None then
          s\<lparr>map_rx := AList.update packet_index shards_map (map_rx s),
            sk_duplicated_shard_counter := sk_duplicated_shard_counter s + 1\<rparr>
        else
          s\<lparr>map_rx := AList.update packet_index (AList.update shard_index packet shards_map) (map_rx s),
            sk_rx_shard_counter := sk_rx_shard_counter s + 1\<rparr>);
     jitter_update T now tx_r_instant (s\<lparr>sk_rx_bytes := sk_rx_bytes s + of_nat shard_length\<rparr>)
   }"

definition frame_deadline_of :: "settings \<Rightarrow> 't tai \<Rightarrow> f32 \<Rightarrow> 't option option" where
  "frame_deadline_of cfg T tx_r_instant = do {
     d \<leftarrow> from_secs_f32 (f32_max tx_r_instant 0);
     Some (do { t \<leftarrow> tai_checked_add T (tai_epoch T) d; tai_checked_add T t (client_deadline cfg) })
   }"

text \<open>The state for a new shard, read from its prefix; \<open>Some None\<close> asks the caller to try again.\<close>

definition begin_shard ::
  "(bytes \<Rightarrow> nat \<Rightarrow> 'r \<Rightarrow> nat con_result \<times> bytes \<times> 'r) \<Rightarrow> settings \<Rightarrow> 't tai \<Rightarrow> 't \<Rightarrow> 't stream_socket \<Rightarrow> 'r \<Rightarrow>
     (('t recv_state \<times> 't stream_socket) option \<times> 'r) option" where
  "begin_shard peek_prefix cfg T now s r =
     (case peek_prefix (replicate SHARD_PREFIX_SIZE 0) MAX_PACKET_SIZE_RECV r of
        (Inl e, bytes, r) \<Rightarrow> None
      | (Inr count, bytes, r) \<Rightarrow>
          if count < SHARD_PREFIX_SIZE then Some (None, r)
          else do {
            let shard_length = 4 + unat (from_be_bytes (slice 0 4 bytes) :: u32);
            let stream_id = (from_be_bytes (slice 4 6 bytes) :: u16);
            let packet_index = (from_be_bytes (slice 6 10 bytes) :: u32);
            let shards_count = unat (from_be_bytes (slice 10 14 bytes) :: u32);
            let shard_index = unat (from_be_bytes (slice 14 18 bytes) :: u32);
            let tx_r_instant = (from_be_bytes (slice 18 22 bytes) :: f32);
            s \<leftarrow> (if stream_id = VIDEO then video_shard_stats T now shard_length packet_index shard_index tx_r_instant s
                  else Some s);
            frame_deadline \<leftarrow> frame_deadline_of cfg T tx_r_instant;
            let st = \<lparr>rs_shard_length = shard_length, rs_stream_id = stream_id, rs_packet_index = packet_index,
              rs_shards_count = shards_count, rs_shard_index = shard_index, rs_packet_cursor = 0,
              rs_backup = None, rs_should_discard = False, rs_frame_deadline = frame_deadline\<rparr>;
            Some (Some (st, s\<lparr>shard_recv_state := Some st\<rparr>), r)
          })"

text \<open>A buffer for a new packet: from the pool, else from an old packet in progress, else a new one.\<close>

definition take_buffer :: "u32 \<Rightarrow> 't stream_recv_components \<Rightarrow> bytes \<times> 't stream_recv_components" where
  "take_buffer packet_index c =
     (case used_buffers c of
        b # bs \<Rightarrow> (b, c\<lparr>used_buffers := bs\<rparr>)
      | [] \<Rightarrow>
          (case find (\<lambda>(idx, p). wrapping_cmp idx (packet_index - 5) = Less) (in_progress_packets c) of
             Some (idx, p) \<Rightarrow> (ipp_buffer p, c\<lparr>in_progress_packets := AList.delete idx (in_progress_packets c)\<rparr>)
           | None \<Rightarrow> ([], c)))"

type_synonym 't hash_insert =
  "u32 \<Rightarrow> 't in_progress_packet \<Rightarrow> (u32 \<times> 't in_progress_packet) list \<Rightarrow> (u32 \<times> 't in_progress_packet) list"

definition new_packet :: "settings \<Rightarrow> 't tai \<Rightarrow> 't \<Rightarrow> 't recv_state \<Rightarrow> bytes \<Rightarrow> 't in_progress_packet" where
  "new_packet cfg T now st buffer =
     \<lparr>ipp_buffer = buffer, ipp_buffer_length = 0, received_shard_indices = {},
      ipp_deadline = (if anchor_first cfg then tai_checked_add T now (client_deadline cfg) else rs_frame_deadline st),
      num_shards_expected = rs_shards_count st, id_frame = rs_packet_index st\<rparr>"

definition select_packet ::
  "'t hash_insert \<Rightarrow> settings \<Rightarrow> 't tai \<Rightarrow> 't \<Rightarrow> 't recv_state \<Rightarrow> 't stream_recv_components \<Rightarrow>
     't in_progress_packet \<times> 't stream_recv_components" where
  "select_packet ins cfg T now st c =
     (if rs_should_discard st then (discarded_shards_sink c, c)
      else
        case map_of (in_progress_packets c) (rs_packet_index st) of
          Some p \<Rightarrow> (p, c)
        | None \<Rightarrow>
            let (buffer, c) = take_buffer (rs_packet_index st) c;
                p = new_packet cfg T now st buffer
            in (p, c\<lparr>in_progress_packets := ins (rs_packet_index st) p (in_progress_packets c)\<rparr>))"

definition store_packet ::
  "'t recv_state \<Rightarrow> 't in_progress_packet \<Rightarrow> 't stream_recv_components \<Rightarrow> 't stream_recv_components" where
  "store_packet st p c =
     (if rs_should_discard st then c\<lparr>discarded_shards_sink := p\<rparr>
      else c\<lparr>in_progress_packets := AList.update (rs_packet_index st) p (in_progress_packets c)\<rparr>)"

text \<open>The loop that reads the rest of the shard; it does not return if the socket runs dry first.\<close>

partial_function (option) read_loop ::
  "(bytes \<Rightarrow> 'r \<Rightarrow> nat con_result \<times> bytes \<times> 'r) \<Rightarrow> nat \<Rightarrow> nat \<Rightarrow> bytes \<Rightarrow> 'r \<Rightarrow> (bytes \<times> 'r) option" where
  "read_loop recv cursor shard_length sub r =
     (if cursor < shard_length then
        (case recv (slice cursor shard_length sub) r of
           (Inl e, buf, r') \<Rightarrow> None
         | (Inr n, buf, r') \<Rightarrow> read_loop recv (cursor + n) shard_length (copy_at cursor buf sub) r')
      else Some (sub, r))"

definition write_shard ::
  "(bytes \<Rightarrow> 'r \<Rightarrow> nat con_result \<times> bytes \<times> 'r) \<Rightarrow> nat \<Rightarrow> 't recv_state \<Rightarrow> 't in_progress_packet \<Rightarrow> 'r \<Rightarrow>
     ('t in_progress_packet \<times> 'r) option" where
  "write_shard recv max_packet_size st p r = do {
     max_shard_data_size \<leftarrow> checked_sub max_packet_size SHARD_PREFIX_SIZE;
     let start = rs_shard_index st * max_shard_data_size;
     let len = max (ipp_buffer_length p) (start + rs_shard_length st);
     let buffer = (if length (ipp_buffer p) < len then vec_resize len (ipp_buffer p) else ipp_buffer p);
     let sub = drop start buffer;
     backup \<leftarrow> (case rs_backup st of None \<Rightarrow> slice_opt 0 SHARD_PREFIX_SIZE sub | Some b \<Rightarrow> Some b);
     (sub, r) \<leftarrow> read_loop recv (rs_packet_cursor st) (rs_shard_length st) sub r;
     let sub = copy_at 0 backup sub;
     Some (p\<lparr>ipp_buffer_length := len, ipp_buffer := take start buffer @ sub\<rparr>, r)
   }"

section \<open>Completing a packet\<close>

definition Q_KALMAN :: f32 where
  "Q_KALMAN = f32_lit (1 / 10000000)"

definition kalman_step :: "(f32 \<Rightarrow> f32 \<Rightarrow> f32) \<Rightarrow> f32 \<Rightarrow> f32 \<Rightarrow> f32 option \<Rightarrow> kalman_filter \<Rightarrow> kalman_filter" where
  "kalman_step powf frame_interarrival tx_r_instant prev_tx k =
     (let k = (case prev_tx of
                 Some prev \<Rightarrow> k\<lparr>k_ow_delay := f32_sub frame_interarrival (f32_sub tx_r_instant prev),
                   last_tx_time := tx_r_instant, last_rx_time := prev\<rparr>
               | None \<Rightarrow> k);
          k = k\<lparr>k_gain := f32_div (f32_add (p_prev k) Q_KALMAN)
                (f32_add (f32_add (p_prev k) Q_KALMAN) (noise_estimation k))\<rparr>;
          k = k\<lparr>m_current := f32_add (f32_mul (f32_sub (f32_lit 1) (k_gain k)) (m_prev k))
                (f32_mul (k_gain k) (k_ow_delay k))\<rparr>;
          k = k\<lparr>residual_z := f32_sub (k_ow_delay k) (m_prev k)\<rparr>;
          k = k\<lparr>noise_estimation := f32_add (f32_mul (f32_lit (95 / 100)) (noise_prev k))
                (f32_mul (powf (residual_z k) (f32_lit 2)) (f32_lit (5 / 100)))\<rparr>;
          k = k\<lparr>p_current := f32_mul (f32_sub (f32_lit 1) (k_gain k)) (f32_add (p_prev k) Q_KALMAN)\<rparr>;
          k = k\<lparr>p_prev := p_current k, m_prev := m_current k, noise_prev := noise_estimation k\<rparr>
      in k\<lparr>measured_delay := f32_add (measured_delay k) (m_current k)\<rparr>)"

definition tai_min :: "'t tai \<Rightarrow> 't \<Rightarrow> 't \<Rightarrow> 't" where
  "tai_min T a b = (if tai_le T a b then a else b)"

definition tai_max :: "'t tai \<Rightarrow> 't \<Rightarrow> 't \<Rightarrow> 't" where
  "tai_max T a b = (if tai_le T a b then b else a)"

record frame_stats =
  fs_span :: f32
  fs_interarrival :: f32
  fs_bytes :: u32
  fs_bytes_app :: u32
  fs_nada_owd_us :: "int option"

definition no_frame_stats :: frame_stats where
  "no_frame_stats = \<lparr>fs_span = 0, fs_interarrival = 0, fs_bytes = 0, fs_bytes_app = 0, fs_nada_owd_us = None\<rparr>"

definition as_i64 :: "64 word \<Rightarrow> int" where
  "as_i64 w = sint w"

definition nada_owd :: "'t tai \<Rightarrow> 't \<Rightarrow> f32 \<Rightarrow> int option" where
  "nada_owd T max_time tx_r_instant = do {
     d \<leftarrow> tai_checked_since T max_time (tai_epoch T);
     let sent = f64_to_i64 (f64_round (f64_mul (f64_of_f32 tx_r_instant) (f64_lit 1000000)));
     Some (as_i64 (of_nat (d div 1000) - of_int sent))
   }"

definition video_frame_stats ::
  "(f32 \<Rightarrow> f32 \<Rightarrow> f32) \<Rightarrow> 't tai \<Rightarrow> (nat \<times> 't shard_map_stats) list \<Rightarrow> 't stream_socket \<Rightarrow>
     (frame_stats \<times> 't stream_socket) option" where
  "video_frame_stats powf T inner_map s =
     (case map snd inner_map of
        [] \<Rightarrow> None
      | v # vs \<Rightarrow> do {
          let min_time = fold (\<lambda>x m. tai_min T m (sm_rx_instant x)) vs (sm_rx_instant v);
          let max_time = fold (\<lambda>x m. tai_max T m (sm_rx_instant x)) vs (sm_rx_instant v);
          span \<leftarrow> tai_checked_since T max_time min_time;
          owd \<leftarrow> (case map_of inner_map 0 of
                   None \<Rightarrow> Some None
                 | Some first \<Rightarrow> map_option Some (nada_owd T max_time (sm_tx_r_instant first)));
          let interarrival =
            (if prev_frame_rx_instant s = tai_epoch T then as_secs_f32 0
             else as_secs_f32 (case tai_checked_since T min_time (prev_frame_rx_instant s) of None \<Rightarrow> 0 | Some d \<Rightarrow> d));
          let s = s\<lparr>prev_frame_rx_instant := min_time\<rparr>;
          let s =
            (case map_of inner_map 0 of
               None \<Rightarrow> s
             | Some first \<Rightarrow>
                 s\<lparr>kalman := kalman_step powf interarrival (sm_tx_r_instant first) (prev_frame_tx_r_instant s) (kalman s),
                   prev_frame_tx_r_instant := Some (sm_tx_r_instant first)\<rparr>);
          Some (\<lparr>fs_span = as_secs_f32 span, fs_interarrival = interarrival,
              fs_bytes = sum_list (map sm_rx_bytes (v # vs)), fs_bytes_app = sum_list (map sm_rx_bytes_app (v # vs)),
              fs_nada_owd_us = owd\<rparr>, s)
        })"

definition prune_map_rx :: "u32 \<Rightarrow> 't stream_socket \<Rightarrow> 't stream_socket" where
  "prune_map_rx packet_index s =
     s\<lparr>map_rx := filter (\<lambda>(idx, m). wrapping_cmp (idx + 5) packet_index \<noteq> Less) (map_rx s)\<rparr>"

definition reconstruct ::
  "'t recv_state \<Rightarrow> frame_stats \<Rightarrow> bytes \<Rightarrow> nat \<Rightarrow> 't stream_socket \<Rightarrow> reconstructed_packet" where
  "reconstruct st fs buffer sz s =
     \<lparr>rp_index = rs_packet_index st, rp_buffer = buffer, rp_size = sz, rp_frame_index = rs_packet_index st,
      rp_frame_span = fs_span fs, rp_frame_interarrival = fs_interarrival fs,
      rp_interarrival_jitter = sk_interarrival_jitter s, rp_ow_delay = k_ow_delay (kalman s),
      rp_filtered_ow_delay = m_current (kalman s), rp_rx_bytes = sk_rx_bytes s,
      rp_bytes_in_frame = fs_bytes fs, rp_bytes_in_frame_app = fs_bytes_app fs,
      rp_rx_shard_counter = sk_rx_shard_counter s, rp_duplicated_shard_counter = sk_duplicated_shard_counter s,
      rp_highest_rx_frame_index = highest_rx_frame_index s, rp_highest_rx_shard_index = highest_rx_shard_index s,
      rp_tx_instant_packet = last_tx_time (kalman s), rp_rx_instant_packet = last_rx_time (kalman s),
      rp_nada_owd_us = fs_nada_owd_us fs, rp_shards_in_frame = of_nat (rs_shards_count st)\<rparr>"

text \<open>A complete packet leaves the map, is queued for its receiver, and an empty buffer returns to the
  pool. \<open>p\<close> is the packet just written, \<open>c\<close> its stream.\<close>

definition complete_packet ::
  "(f32 \<Rightarrow> f32 \<Rightarrow> f32) \<Rightarrow> 't tai \<Rightarrow> 't recv_state \<Rightarrow> 't in_progress_packet \<Rightarrow> 't stream_recv_components \<Rightarrow>
     't stream_socket \<Rightarrow> ('t stream_recv_components \<times> 't stream_socket) option" where
  "complete_packet powf T st p c s = do {
     (fs, s) \<leftarrow>
       (if rs_stream_id st = VIDEO then
          (case map_of (map_rx s) (rs_packet_index st) of
             None \<Rightarrow> Some (no_frame_stats, s)
           | Some inner_map \<Rightarrow> video_frame_stats powf T inner_map s)
        else Some (no_frame_stats, s));
     q \<leftarrow> map_of (in_progress_packets c) (rs_packet_index st);
     let packet = reconstruct st fs (ipp_buffer q) (ipp_buffer_length p) s;
     let c = c\<lparr>in_progress_packets := AList.delete (rs_packet_index st) (in_progress_packets c),
       packet_queue := packet_queue c @ [packet], used_buffers := used_buffers c @ [[]]\<rparr>;
     let s =
       (if rs_stream_id st = VIDEO then
          prune_map_rx (rs_packet_index st)
            (s\<lparr>sk_rx_bytes := 0, sk_rx_shard_counter := 0, sk_duplicated_shard_counter := 0\<rparr>)
        else s);
     Some (c, s)
   }"

definition finish_shard ::
  "(bytes \<Rightarrow> 'r \<Rightarrow> nat con_result \<times> bytes \<times> 'r) \<Rightarrow> 't hash_insert \<Rightarrow> (f32 \<Rightarrow> f32 \<Rightarrow> f32) \<Rightarrow> settings \<Rightarrow> 't tai \<Rightarrow>
     't \<Rightarrow> 't recv_state \<Rightarrow> 't stream_socket \<Rightarrow> 'r \<Rightarrow> (unit con_result \<times> 't stream_socket \<times> 'r) option" where
  "finish_shard recv ins powf cfg T now st s r =
     (case map_of (components s) (rs_stream_id st) of
        None \<Rightarrow> Some (try_again, s, r)
      | Some c \<Rightarrow> do {
          let (p, c) = select_packet ins cfg T now st c;
          (p, r) \<leftarrow> write_shard recv (sk_max_packet_size s) st p r;
          let p = (if rs_should_discard st then p
                   else p\<lparr>received_shard_indices := insert (rs_shard_index st) (received_shard_indices p)\<rparr>);
          let c = store_packet st p c;
          (c, s) \<leftarrow> (if card (received_shard_indices p) = rs_shards_count st then complete_packet powf T st p c s
                   else Some (c, s));
          s \<leftarrow> sweep_expired_deadlines cfg T now
                (s\<lparr>components := AList.update (rs_stream_id st) c (components s)\<rparr>);
          Some (Inr (), s\<lparr>shard_recv_state := None\<rparr>, r)
        })"

definition recv_shard ::
  "(bytes \<Rightarrow> 'r \<Rightarrow> nat con_result \<times> bytes \<times> 'r) \<Rightarrow> (bytes \<Rightarrow> nat \<Rightarrow> 'r \<Rightarrow> nat con_result \<times> bytes \<times> 'r) \<Rightarrow>
     't hash_insert \<Rightarrow> (f32 \<Rightarrow> f32 \<Rightarrow> f32) \<Rightarrow> settings \<Rightarrow> 't tai \<Rightarrow> 't \<Rightarrow> 't stream_socket \<Rightarrow> 'r \<Rightarrow>
     (unit con_result \<times> 't stream_socket \<times> 'r) option" where
  "recv_shard recv peek_prefix ins powf cfg T now s r =
     (case shard_recv_state s of
        Some st \<Rightarrow> finish_shard recv ins powf cfg T now st s r
      | None \<Rightarrow> do {
          (begun, r) \<leftarrow> begin_shard peek_prefix cfg T now s r;
          case begun of
            None \<Rightarrow> Some (try_again, s, r)
          | Some (st, s) \<Rightarrow> finish_shard recv ins powf cfg T now st s r
        })"

section \<open>Receiving a whole packet\<close>

record stream_receiver =
  sr_last_packet_index :: "u32 option"
  sr_frame_interarrival :: f32
  sr_rx_bytes :: u32
  sr_rx_shard_counter :: u32
  sr_duplicated_shard_counter :: u32

record receiver_data =
  rd_packet :: reconstructed_packet
  rd_had_packet_loss :: bool
  rd_frames_skipped :: u32
  rd_frame_interarrival :: f32
  rd_rx_bytes :: u32
  rd_rx_shard_counter :: u32
  rd_duplicated_shard_counter :: u32

definition sr_new :: stream_receiver where
  "sr_new = \<lparr>sr_last_packet_index = None, sr_frame_interarrival = 0, sr_rx_bytes = 0, sr_rx_shard_counter = 0,
     sr_duplicated_shard_counter = 0\<rparr>"

text \<open>The counts accumulate over discarded packets. \<open>frames_skipped\<close> wraps, as in the builds the repository
  uses. The returned queue and pool are those of the stream.\<close>

definition recv_packet ::
  "stream_receiver \<Rightarrow> reconstructed_packet list \<Rightarrow> bytes list \<Rightarrow>
     receiver_data con_result \<times> stream_receiver \<times> reconstructed_packet list \<times> bytes list" where
  "recv_packet sr queue pool =
     (case queue of
        [] \<Rightarrow> (Inl (TryAgain ''channel empty''), sr, [], pool)
      | packet # queue \<Rightarrow>
          let sr = sr\<lparr>sr_frame_interarrival := f32_add (sr_frame_interarrival sr) (rp_frame_interarrival packet),
                sr_rx_bytes := sr_rx_bytes sr + rp_rx_bytes packet,
                sr_rx_shard_counter := sr_rx_shard_counter sr + rp_rx_shard_counter packet,
                sr_duplicated_shard_counter := sr_duplicated_shard_counter sr + rp_duplicated_shard_counter packet\<rparr>;
              accept = (\<lambda>loss skipped.
                (Inr \<lparr>rd_packet = packet, rd_had_packet_loss = loss, rd_frames_skipped = skipped,
                   rd_frame_interarrival = sr_frame_interarrival sr, rd_rx_bytes = sr_rx_bytes sr,
                   rd_rx_shard_counter = sr_rx_shard_counter sr,
                   rd_duplicated_shard_counter = sr_duplicated_shard_counter sr\<rparr>,
                 sr\<lparr>sr_frame_interarrival := 0, sr_rx_bytes := 0, sr_rx_shard_counter := 0,
                   sr_duplicated_shard_counter := 0, sr_last_packet_index := Some (rp_index packet)\<rparr>,
                 queue, pool))
          in (case sr_last_packet_index sr of
               None \<Rightarrow> accept False 0
             | Some last_idx \<Rightarrow>
                 (case wrapping_cmp (rp_index packet) (last_idx + 1) of
                    Equal \<Rightarrow> accept False 0
                  | Greater \<Rightarrow> accept True (rp_index packet - (last_idx + 1))
                  | Less \<Rightarrow> (try_again, sr, queue, pool @ [rp_buffer packet]))))"

section \<open>Prefixes\<close>

text \<open>The bytes of a shard prefix.\<close>

definition prefix_bytes :: "nat \<Rightarrow> u16 \<Rightarrow> u32 \<Rightarrow> nat \<Rightarrow> nat \<Rightarrow> f32 \<Rightarrow> bytes" where
  "prefix_bytes len stream_id packet_index shards_count idx tx =
     to_be_bytes 4 (of_nat (len - 4) :: u32) @ to_be_bytes 2 stream_id @ to_be_bytes 4 packet_index @
     to_be_bytes 4 (of_nat shards_count :: u32) @ to_be_bytes 4 (of_nat idx :: u32) @ to_be_bytes 4 tx"

lemma length_prefix_bytes [simp]: "length (prefix_bytes len sid pix n i tx) = 22"
  by (simp add: prefix_bytes_def)

lemma copy_at_after: "length xs = i \<Longrightarrow> copy_at i ys (xs @ zs) = xs @ ys @ drop (length ys) zs"
  by (simp add: copy_at_def)

lemma write_prefix_eq:
  assumes "22 \<le> length sub"
  shows "write_prefix (len - 4) sid pix n i tx sub = prefix_bytes len sid pix n i tx @ drop 22 sub"
proof -
  have "write_prefix (len - 4) sid pix n i tx ([] @ sub) = prefix_bytes len sid pix n i tx @ drop 22 sub"
    unfolding write_prefix_def Let_def
    by (subst copy_at_after, simp, simp only: append_Nil append_assoc [symmetric], subst copy_at_after, simp,
        simp only: append_assoc [symmetric] drop_drop, subst copy_at_after, simp,
        simp only: append_assoc [symmetric] drop_drop, subst copy_at_after, simp,
        simp only: append_assoc [symmetric] drop_drop, subst copy_at_after, simp,
        simp only: append_assoc [symmetric] drop_drop, subst copy_at_after, simp)
      (simp add: prefix_bytes_def)
  then show ?thesis by simp
qed

text \<open>The fields read back from a message that starts with a prefix.\<close>

lemma prefix_fields:
  "from_be_bytes (slice 0 4 (prefix_bytes len sid pix n i tx @ rest)) = (of_nat (len - 4) :: u32)"
  "from_be_bytes (slice 4 6 (prefix_bytes len sid pix n i tx @ rest)) = sid"
  "from_be_bytes (slice 6 10 (prefix_bytes len sid pix n i tx @ rest)) = pix"
  "from_be_bytes (slice 10 14 (prefix_bytes len sid pix n i tx @ rest)) = (of_nat n :: u32)"
  "from_be_bytes (slice 14 18 (prefix_bytes len sid pix n i tx @ rest)) = (of_nat i :: u32)"
  "from_be_bytes (slice 18 22 (prefix_bytes len sid pix n i tx @ rest)) = tx"
  by (simp_all add: prefix_bytes_def slice_appends byte_roundtrips)

text \<open>The stateless parser reads back the fields of every prefix the sender writes.\<close>

lemma parse_shard_roundtrip:
  assumes "4 \<le> len" "len < 2 ^ 32"
  shows "parse_shard_data (prefix_bytes len sid pix n i tx @ rest) =
    Inr \<lparr>sp_packet_length = of_nat len, sp_stream_id = sid, sp_packet_index = pix, sp_shards_count = of_nat n,
      sp_shard_index = of_nat i, sp_tx_r_instant = tx\<rparr>"
proof -
  have "(of_nat (len - 4) :: u32) + 4 = of_nat len" using assms(1) by (simp add: of_nat_diff)
  then show ?thesis by (simp add: parse_shard_data_def prefix_fields)
qed

section \<open>Sending\<close>

text \<open>The messages a packet is cut into: shard \<open>i\<close> carries the bytes from \<open>22 + i * D\<close> to \<open>shard_end\<close>.\<close>

definition shard_end :: "nat \<Rightarrow> nat \<Rightarrow> nat \<Rightarrow> nat" where
  "shard_end D A i = min (i * D + D + 22) A"

definition shard_msg :: "nat \<Rightarrow> nat \<Rightarrow> u16 \<Rightarrow> u32 \<Rightarrow> nat \<Rightarrow> f32 \<Rightarrow> bytes \<Rightarrow> nat \<Rightarrow> bytes" where
  "shard_msg D A sid pix n tx B i =
     prefix_bytes (shard_end D A i - i * D) sid pix n i tx @ slice (i * D + 22) (shard_end D A i) B"

lemma length_shard_msg:
  "i * D + 22 \<le> A \<Longrightarrow> A \<le> length B \<Longrightarrow> length (shard_msg D A sid pix n tx B i) = shard_end D A i - i * D"
  by (simp add: shard_msg_def shard_end_def)

lemma send_shard_step:
  assumes D: "ss_max_packet_size s = D + 22" and i: "i * D + 22 < A" and A: "A \<le> length inner"
    and tx: "tai_checked_since T now (ss_ref_time s) = Some d"
    and B: "drop (i * D + 22) inner = drop (i * D + 22) B"
  shows "\<exists>tr'. send_shard T s D A n now i (inner, out, tr) =
    Some (take (i * D) inner @ prefix_bytes (shard_end D A i - i * D) (ss_stream_id s) (ss_next_packet_index s) n i
        (as_secs_f32 d) @ drop (i * D + 22) inner,
      chan_send (shard_msg D A (ss_stream_id s) (ss_next_packet_index s) n (as_secs_f32 d) B i) out, tr')"
proof -
  obtain l where ldef: "shard_end D A i - i * D = l" by simp
  obtain a where a: "i * D = a" by simp
  let ?p = "prefix_bytes l (ss_stream_id s) (ss_next_packet_index s) n i (as_secs_f32 d)"
  let ?m = "shard_msg D A (ss_stream_id s) (ss_next_packet_index s) n (as_secs_f32 d) B i"
  have aA: "a + 22 < A" "a + 22 \<le> length inner" using i A a by simp_all
  have min: "min (D + 22) (A - a) = l" using ldef a by (simp add: shard_end_def)
  have l: "22 \<le> l" "l \<le> A - a" using aA(1) min by simp_all
  have w: "write_prefix (l - 4) (ss_stream_id s) (ss_next_packet_index s) n i (as_secs_f32 d) (drop a inner) =
      ?p @ drop (a + 22) inner"
  proof -
    have "22 \<le> length (drop a inner)" using aA(2) by simp
    from write_prefix_eq [OF this, of l] show ?thesis by (simp only: drop_drop add.commute)
  qed
  have "slice 0 l (?p @ drop (a + 22) inner) = ?m"
  proof -
    have "shard_end D A i = a + l" using ldef a l(1) by simp
    with l(1) B show ?thesis by (simp add: slice_def shard_msg_def a)
  qed
  then have msg: "slice_opt 0 l (?p @ drop (a + 22) inner) = Some ?m"
    using l A aA by (simp add: slice_opt_def)
  have "send_shard T s D A n now i (inner, out, tr) = Some (take a inner @ ?p @ drop (a + 22) inner, chan_send ?m out,
      if i = 0 then ft_insert (ss_next_packet_index s) now tr else tr)"
    using aA l(1) by (simp add: send_shard_def D tx SHARD_PREFIX_SIZE_def Let_def a min w msg assert_opt_def)
  then show ?thesis by (simp add: a ldef [unfolded a])
qed

lemma send_loop_shards:
  assumes D: "ss_max_packet_size s = D + 22" and i: "\<forall>j<n. j * D + 22 < A" and A: "A \<le> length inner"
    and tx: "tai_checked_since T now (ss_ref_time s) = Some d"
    and "length inner = length B" "drop (k * D + 22) inner = drop (k * D + 22) B"
  shows "\<exists>inner' tr'. send_loop (send_shard T s D A n now) [k..<n] (inner, out, tr) =
    Some (inner', out\<lparr>chan_msgs := chan_msgs out @
      map (shard_msg D A (ss_stream_id s) (ss_next_packet_index s) n (as_secs_f32 d) B) [k..<n]\<rparr>, tr')"
  using A assms(5,6)
proof (induction "n - k" arbitrary: k inner out tr)
  case 0
  then show ?case by simp
next
  case (Suc m)
  then have k: "k < n" by simp
  then have u: "[k..<n] = k # [Suc k..<n]" by (rule upt_conv_Cons)
  let ?m = "shard_msg D A (ss_stream_id s) (ss_next_packet_index s) n (as_secs_f32 d) B"
  let ?in = "take (k * D) inner @ prefix_bytes (shard_end D A k - k * D) (ss_stream_id s) (ss_next_packet_index s) n k
        (as_secs_f32 d) @ drop (k * D + 22) inner"
  obtain tr' where step: "send_shard T s D A n now k (inner, out, tr) = Some (?in, chan_send (?m k) out, tr')"
    using send_shard_step [OF D _ Suc.prems(1) tx Suc.prems(3)] i k by blast
  have len: "k * D + 22 \<le> length inner" using i k Suc.prems(1) by (meson le_trans less_imp_le)
  have lin: "length ?in = length B" using len Suc.prems(2) by simp
  have A': "A \<le> length ?in" using lin Suc.prems(1,2) by simp
  have m: "m = n - Suc k" using Suc.hyps(2) by simp
  have din: "drop (Suc k * D + 22) ?in = drop (Suc k * D + 22) B"
  proof -
    have "drop (Suc k * D + 22) ?in = drop D (drop (k * D + 22) inner)" using len by (simp add: add.commute)
    also have "\<dots> = drop (Suc k * D + 22) B" by (simp add: Suc.prems(3) add.assoc)
    finally show ?thesis .
  qed
  obtain inner' tr'' where
    "send_loop (send_shard T s D A n now) [Suc k..<n] (?in, chan_send (?m k) out, tr') =
       Some (inner', (chan_send (?m k) out)\<lparr>chan_msgs := chan_msgs (chan_send (?m k) out) @ map ?m [Suc k..<n]\<rparr>, tr'')"
    using Suc.hyps(1) [OF m A' lin din, of "chan_send (?m k) out" tr'] by blast
  with step show ?case by (simp add: u chan_send_def)
qed

definition ceil_div :: "nat \<Rightarrow> nat \<Rightarrow> nat" where
  "ceil_div a b = (a + b - 1) div b"

lemma ceil_div_less: "0 < b \<Longrightarrow> j < ceil_div a b \<Longrightarrow> j * b < a"
proof -
  assume b: "0 < b" and "j < ceil_div a b"
  then have "Suc j * b \<le> (a + b - 1) div b * b" by (intro mult_le_mono1) (simp add: ceil_div_def)
  also have "\<dots> \<le> a + b - 1" by (rule div_times_less_eq_dividend)
  finally show "j * b < a" using b by simp
qed

lemma ceil_div_cover: "0 < b \<Longrightarrow> a \<le> ceil_div a b * b"
  using dividend_less_div_times [of b "a + b - 1"] by (simp add: ceil_div_def add.commute)

lemma shards_count_exact:
  assumes "0 < d" "d < 2 ^ 24" "0 < m" "m < 2 ^ 24"
  shows "shards_count_of d m = ceil_div d m"
  using f32_ceil_div [OF assms] by (simp add: shards_count_of_def ceil_div_def)

lemma send_emits:
  assumes "ss_max_packet_size s = D + 22" "0 < D" "D < 2 ^ 24"
    and A: "A = hidden_offset buffer + pb_length buffer" "22 < A" "A - 22 < 2 ^ 24" "A \<le> length (pb_inner buffer)"
    and tx: "tai_checked_since T now (ss_ref_time s) = Some d"
  shows "\<exists>s'. send T buffer now s out =
    Some (s', out\<lparr>chan_msgs := chan_msgs out @
      map (shard_msg D A (ss_stream_id s) (ss_next_packet_index s) (ceil_div (A - 22) D) (as_secs_f32 d) (pb_inner buffer))
        [0..<ceil_div (A - 22) D]\<rparr>) \<and>
    ss_shards_count s' = ceil_div (A - 22) D \<and> A \<le> ceil_div (A - 22) D * D + 22"
proof -
  let ?n = "ceil_div (A - 22) D"
  have n: "shards_count_of (A - 22) D = ?n" using assms by (intro shards_count_exact) simp_all
  have "\<forall>j<?n. j * D + 22 < A" using ceil_div_less [OF assms(2), of _ "A - 22"] by (simp add: less_diff_conv)
  from send_loop_shards [OF assms(1) this A(4) tx refl, of 0 out "ss_frame_tracker s"]
  obtain inner' tr' where "send_loop (send_shard T s D A ?n now) [0..<?n] (pb_inner buffer, out, ss_frame_tracker s) =
    Some (inner', out\<lparr>chan_msgs := chan_msgs out @
      map (shard_msg D A (ss_stream_id s) (ss_next_packet_index s) ?n (as_secs_f32 d) (pb_inner buffer)) [0..<?n]\<rparr>, tr')"
    by auto
  moreover have "A \<le> ?n * D + 22" using ceil_div_cover [OF assms(2), of "A - 22"] by simp
  ultimately show ?thesis
    using assms(1) A(1,2) n by (simp add: send_def SHARD_PREFIX_SIZE_def Let_def)
qed

lemma ceil_div_pos: "0 < a \<Longrightarrow> 0 < b \<Longrightarrow> 0 < ceil_div a b"
  by (simp add: ceil_div_def div_greater_zero_iff)

lemma ceil_div_le: "0 < b \<Longrightarrow> ceil_div a b \<le> a"
  using ceil_div_less [of b a a] by (cases "a < ceil_div a b") auto

text \<open>C14. Sending a packet of fewer than \<open>2 ^ 24\<close> bytes emits its shards in order: the single-precision
  computation of their number is the exact one, every shard carries its own slice of the original
  payload although prefixes overwrite bytes already sent, and together they cover the payload.\<close>

theorem send_cuts_into_shards:
  assumes "ss_max_packet_size s = D + 22" "0 < D" "D < 2 ^ 24"
    and A: "A = hidden_offset buffer + pb_length buffer" "22 < A" "A - 22 < 2 ^ 24" "A \<le> length (pb_inner buffer)"
    and tx: "tai_checked_since T now (ss_ref_time s) = Some d"
  shows "\<exists>s'. send T buffer now s out =
    Some (s', out\<lparr>chan_msgs := chan_msgs out @
      map (shard_msg D A (ss_stream_id s) (ss_next_packet_index s) (ceil_div (A - 22) D) (as_secs_f32 d) (pb_inner buffer))
        [0..<ceil_div (A - 22) D]\<rparr>) \<and>
    ss_shards_count s' = ceil_div (A - 22) D \<and> A \<le> ceil_div (A - 22) D * D + 22"
  by (rule send_emits [OF assms])

lemma slices_join:
  "concat (map (\<lambda>i. slice (i * D + a) (i * D + D + a) B) [0..<m]) = slice a (m * D + a) B"
proof (induction m)
  case (Suc m)
  then show ?case using slice_join [of a "m * D + a" "m * D + D + a" B] by (simp add: add.commute add.left_commute)
qed (simp add: slice_def)

text \<open>C38. From \<open>2 ^ 24\<close> bytes on the tail of a packet can be lost. A payload of \<open>m * D + 1\<close> bytes, where \<open>D\<close> is
  the payload of a full shard and \<open>m * D\<close> a multiple of four from \<open>2 ^ 24\<close> up to \<open>2 ^ 25\<close>, needs \<open>m + 1\<close> shards, but
  single precision rounds its size down to \<open>m * D\<close> before dividing: \<^verbatim>\<open>send\<close> succeeds, emits \<open>m\<close> shards, and
  these carry everything but the last byte.\<close>

theorem large_packet_loses_tail:
  assumes "ss_max_packet_size s = D + 22" "2 \<le> D" "D < 2 ^ 24"
    and m: "2 ^ 24 \<le> m * D" "m * D < 2 ^ 25" "4 dvd m * D"
    and A: "hidden_offset buffer + pb_length buffer = 22 + (m * D + 1)" "22 + (m * D + 1) \<le> length (pb_inner buffer)"
    and tx: "tai_checked_since T now (ss_ref_time s) = Some d"
  shows "\<exists>s' msgs. send T buffer now s out = Some (s', out\<lparr>chan_msgs := chan_msgs out @ msgs\<rparr>) \<and>
    ss_shards_count s' = m \<and> length msgs = m \<and>
    concat (map (drop 22) msgs) = slice 22 (22 + m * D) (pb_inner buffer)"
proof -
  let ?A = "22 + (m * D + 1)" and ?B = "pb_inner buffer"
  let ?msg = "shard_msg D ?A (ss_stream_id s) (ss_next_packet_index s) m (as_secs_f32 d) ?B"
  have n: "shards_count_of (m * D + 1) D = m" using f32_ceil_div_tie [OF m assms(2,3)] by (simp add: shards_count_of_def)
  have le: "i * D + D \<le> m * D" if "i < m" for i using mult_le_mono1 [of "Suc i" m D] that by simp
  have "\<forall>j<m. j * D + 22 < ?A" using le by fastforce
  from send_loop_shards [OF assms(1) this A(2) tx refl, of 0 out "ss_frame_tracker s"] obtain inner' tr' where
    "send_loop (send_shard T s D ?A m now) [0..<m] (?B, out, ss_frame_tracker s) =
       Some (inner', out\<lparr>chan_msgs := chan_msgs out @ map ?msg [0..<m]\<rparr>, tr')"
    by auto
  then have "\<exists>s'. send T buffer now s out = Some (s', out\<lparr>chan_msgs := chan_msgs out @ map ?msg [0..<m]\<rparr>) \<and> ss_shards_count s' = m"
    using assms(1) A(1) n by (simp add: send_def SHARD_PREFIX_SIZE_def Let_def)
  moreover have "concat (map (drop 22) (map ?msg [0..<m])) = slice 22 (22 + m * D) ?B"
  proof -
    have "drop 22 (?msg i) = slice (i * D + 22) (i * D + D + 22) ?B" if "i < m" for i
      using le [OF that] by (simp add: shard_msg_def shard_end_def prefix_bytes_def)
    then have "map (drop 22) (map ?msg [0..<m]) = map (\<lambda>i. slice (i * D + 22) (i * D + D + 22) ?B) [0..<m]" by simp
    then show ?thesis using slices_join [of D 22 ?B m] by (simp only: add.commute)
  qed
  ultimately show ?thesis by (metis length_map length_upt minus_nat.diff_0)
qed

lemma parse_shard_roundtrip_example:
  "parse_shard_data (prefix_bytes 100 3 7 2 1 0x3F800000 @ [9]) =
     Inr \<lparr>sp_packet_length = of_nat 100, sp_stream_id = 3, sp_packet_index = 7, sp_shards_count = of_nat 2,
       sp_shard_index = of_nat 1, sp_tx_r_instant = 0x3F800000\<rparr>"
  by (rule parse_shard_roundtrip) simp_all

text \<open>Timestamps as natural numbers of nanoseconds, an instance of the parameter.\<close>

definition nat_tai :: "nat tai" where
  "nat_tai = \<lparr>tai_epoch = 0, tai_le = (\<le>), tai_checked_add = (\<lambda>t d. Some (t + d)),
     tai_checked_since = (\<lambda>a b. if b \<le> a then Some (a - b) else None)\<rparr>"

theorem large_packet_loses_tail_witness:
  "\<exists>s' msgs. send nat_tai \<lparr>pb_inner = replicate (22 + (2 ^ 24 + 1)) 7, hidden_offset = 22, pb_length = 2 ^ 24 + 1\<rparr> 5
      (request_stream 1046 3 2) \<lparr>chan_msgs = [], chan_open = True\<rparr> = Some (s', \<lparr>chan_msgs = msgs, chan_open = True\<rparr>) \<and>
    ss_shards_count s' = 16384 \<and> length msgs = 16384 \<and>
    concat (map (drop 22) msgs) = slice 22 (22 + 16384 * 1024) (replicate (22 + (2 ^ 24 + 1)) 7)"
proof -
  obtain B :: bytes where B: "B = replicate (22 + (2 ^ 24 + 1)) 7" by blast
  have l: "length B = 22 + (2 ^ 24 + 1)" unfolding B by (rule length_replicate)
  have "\<exists>s' msgs. send nat_tai \<lparr>pb_inner = B, hidden_offset = 22, pb_length = 2 ^ 24 + 1\<rparr> 5
      (request_stream 1046 3 2) \<lparr>chan_msgs = [], chan_open = True\<rparr> =
        Some (s', \<lparr>chan_msgs = [], chan_open = True\<rparr>\<lparr>chan_msgs := chan_msgs \<lparr>chan_msgs = [], chan_open = True\<rparr> @ msgs\<rparr>) \<and>
      ss_shards_count s' = 16384 \<and> length msgs = 16384 \<and>
      concat (map (drop 22) msgs) = slice 22 (22 + 16384 * 1024) (pb_inner \<lparr>pb_inner = B, hidden_offset = 22, pb_length = 2 ^ 24 + 1\<rparr>)"
    by (rule large_packet_loses_tail [where d = 3]) (simp_all add: request_stream_def nat_tai_def l)
  then show ?thesis unfolding B [symmetric] by simp
qed

theorem send_cuts_into_shards_witness:
  "\<exists>s'. send nat_tai \<lparr>pb_inner = replicate 40 7, hidden_offset = 22, pb_length = 18\<rparr> 5 (request_stream 30 3 2)
      \<lparr>chan_msgs = [], chan_open = True\<rparr> =
    Some (s', \<lparr>chan_msgs = [], chan_open = True\<rparr>\<lparr>chan_msgs := [] @
      map (shard_msg 8 40 3 0 (ceil_div (40 - 22) 8) (as_secs_f32 3) (replicate 40 7)) [0..<ceil_div (40 - 22) 8]\<rparr>) \<and>
    ss_shards_count s' = ceil_div (40 - 22) 8 \<and> 40 \<le> ceil_div (40 - 22) 8 * 8 + 22"
  using send_cuts_into_shards [of "request_stream 30 3 2" 8 40
      "\<lparr>pb_inner = replicate 40 7, hidden_offset = 22, pb_length = 18\<rparr>" nat_tai 5 3 "\<lparr>chan_msgs = [], chan_open = True\<rparr>"]
  by (simp add: request_stream_def nat_tai_def)

end
