(* ===== verification/Stream_Reassembly.thy ===== *)
theory Stream_Reassembly
  imports Stream_Socket "HOL-Library.Multiset"
begin

text \<open>
  Correctness of the transfer of a packet over a stream: what \<^verbatim>\<open>StreamSocket::recv\<close> does with one shard
  (the statistics stay sound, the shard's bytes land at their place in the packet it belongs to, the deadline
  sweep keeps packets that are in time), and, by induction over the shards, that the packet the sender cut
  into shards is queued intact at the receiver for every order of arrival.
\<close>

section \<open>Writing a shard into its packet\<close>

text \<open>Reading one whole message.\<close>

context socket_reader begin

lemma read_loop_message:
  assumes "pending r = msg # ms" "length msg = l" "0 < l" "l \<le> length sub"
  shows "\<exists>r'. read_loop recv 0 l sub r = Some (copy_at 0 msg sub, r') \<and> pending r' = ms \<and> alive r' = alive r"
proof -
  have "length (slice 0 l sub) = l" using assms(4) by simp
  then obtain r' where r': "recv (slice 0 l sub) r = (Inr l, copy_at 0 msg (slice 0 l sub), r')"
    "pending r' = ms" "alive r' = alive r"
    using recv_next [OF assms(1), of "slice 0 l sub"] assms(2) by auto
  have "copy_at 0 (copy_at 0 msg (slice 0 l sub)) sub = copy_at 0 msg sub"
    using assms(2,4) by (simp add: copy_at_def slice_def)
  then have "read_loop recv 0 l sub r = Some (copy_at 0 msg sub, r')"
    using assms(3) r'(1) by (simp add: read_loop.simps)
  with r' show ?thesis by blast
qed

end

text \<open>Overwriting the prefix bytes of the previous shard and restoring them changes only the payload bytes
  of the shard.\<close>

lemma restore_prefix:
  assumes "22 \<le> length msg" "a + length msg \<le> length buf"
  shows "take a buf @ copy_at 0 (slice 0 22 (drop a buf)) (copy_at 0 msg (drop a buf)) =
    copy_at (a + 22) (drop 22 msg) buf"
proof -
  have "drop (a + length msg) buf = drop (length msg) (drop a buf)" by (simp add: add.commute)
  moreover have "take (a + 22) buf = take a buf @ take 22 (drop a buf)" by (simp add: take_add)
  ultimately show ?thesis
    using assms by (simp add: copy_at_def slice_def)
qed

definition grown :: "nat \<Rightarrow> bytes \<Rightarrow> bytes" where
  "grown n b = (if length b < n then vec_resize n b else b)"

lemma length_grown: "length (grown n b) = max n (length b)"
  by (simp add: grown_def)

lemma slice_grown: "c \<le> length b \<Longrightarrow> slice a c (grown n b) = slice a c b"
  by (simp add: grown_def vec_resize_def slice_append_left)

context socket_reader begin

lemma write_shard_effect:
  assumes "pending r = msg # ms" "length msg = rs_shard_length st" "22 \<le> rs_shard_length st"
    and st: "rs_backup st = None" "rs_packet_cursor st = 0"
    and a: "a = rs_shard_index st * D" and len: "len = max (ipp_buffer_length p) (a + length msg)"
  shows "\<exists>r'. write_shard recv (D + 22) st p r =
      Some (p\<lparr>ipp_buffer_length := len, ipp_buffer := copy_at (a + 22) (drop 22 msg) (grown len (ipp_buffer p))\<rparr>, r') \<and>
    pending r' = ms \<and> alive r' = alive r"
proof -
  let ?b = "grown len (ipp_buffer p)"
  have l: "a + length msg \<le> length ?b" using len by (simp add: length_grown)
  have "0 < rs_shard_length st" "rs_shard_length st \<le> length (drop a ?b)" using l assms(2,3) by simp_all
  then obtain r' where r': "read_loop recv 0 (rs_shard_length st) (drop a ?b) r = Some (copy_at 0 msg (drop a ?b), r')"
    "pending r' = ms" "alive r' = alive r"
    using read_loop_message [OF assms(1,2)] by blast
  have "slice_opt 0 22 (drop a ?b) = Some (slice 0 22 (drop a ?b))" using l assms(2,3) by (simp add: slice_opt_def)
  then have "write_shard recv (D + 22) st p r =
      Some (p\<lparr>ipp_buffer_length := len,
        ipp_buffer := take a ?b @ copy_at 0 (slice 0 22 (drop a ?b)) (copy_at 0 msg (drop a ?b))\<rparr>, r')"
    using st r'(1) by (simp add: write_shard_def SHARD_PREFIX_SIZE_def Let_def a [symmetric] assms(2) [symmetric]
        len [symmetric] grown_def [symmetric])
  with restore_prefix [OF _ l] r'(2,3) assms(2,3) show ?thesis by simp
qed

end
section \<open>A packet that holds some of its shards\<close>

definition holds_shards :: "nat \<Rightarrow> nat \<Rightarrow> bytes \<Rightarrow> nat set \<Rightarrow> 't in_progress_packet \<Rightarrow> bool" where
  "holds_shards D A B R p \<longleftrightarrow>
     received_shard_indices p = R \<and> ipp_buffer_length p \<le> length (ipp_buffer p) \<and> ipp_buffer_length p \<le> A \<and>
     (\<forall>i\<in>R. shard_end D A i \<le> ipp_buffer_length p \<and>
       slice (i * D + 22) (shard_end D A i) (ipp_buffer p) = slice (i * D + 22) (shard_end D A i) B)"

text \<open>The packet after shard \<open>i\<close> was written.\<close>

definition with_shard :: "nat \<Rightarrow> nat \<Rightarrow> bytes \<Rightarrow> nat \<Rightarrow> 't in_progress_packet \<Rightarrow> 't in_progress_packet" where
  "with_shard D A B i p =
     (let len = max (ipp_buffer_length p) (shard_end D A i)
      in p\<lparr>ipp_buffer_length := len,
           ipp_buffer := copy_at (i * D + 22) (slice (i * D + 22) (shard_end D A i) B) (grown len (ipp_buffer p)),
           received_shard_indices := insert i (received_shard_indices p)\<rparr>)"

lemma shard_ranges_disjoint:
  assumes "i \<noteq> j"
  shows "shard_end D A j \<le> i * D + 22 \<or> shard_end D A i \<le> j * D + 22"
proof -
  have e: "shard_end D A k \<le> Suc k * D + 22" for k by (simp add: shard_end_def)
  show ?thesis
  proof (cases "j < i")
    case True
    then have "Suc j * D \<le> i * D" by (intro mult_le_mono1) simp
    with e [of j] show ?thesis by linarith
  next
    case False
    with assms have "Suc i * D \<le> j * D" by (intro mult_le_mono1) simp
    with e [of i] show ?thesis by linarith
  qed
qed

lemma holds_shards_insert:
  assumes p: "holds_shards D A B R p" and i: "i * D + 22 \<le> A" and B: "A \<le> length B"
  shows "holds_shards D A B (insert i R) (with_shard D A B i p)"
proof -
  let ?e = "shard_end D A i"
  let ?len = "max (ipp_buffer_length p) ?e"
  let ?g = "grown ?len (ipp_buffer p)"
  let ?d = "slice (i * D + 22) ?e B"
  have e: "?e \<le> A" "i * D + 22 \<le> ?e" using i by (simp_all add: shard_end_def)
  have d: "i * D + 22 + length ?d = ?e" using e B by simp
  have g: "?e \<le> length ?g" "ipp_buffer_length p \<le> length ?g" by (simp_all add: length_grown)
  have "slice (i * D + 22) ?e (copy_at (i * D + 22) ?d ?g) = ?d"
    using slice_copy_at_same [of "i * D + 22" ?g ?d] d g e by simp
  moreover have "slice (j * D + 22) (shard_end D A j) (copy_at (i * D + 22) ?d ?g) =
      slice (j * D + 22) (shard_end D A j) B" if "j \<in> R" "j \<noteq> i" for j
  proof -
    have j: "shard_end D A j \<le> ipp_buffer_length p"
      "slice (j * D + 22) (shard_end D A j) (ipp_buffer p) = slice (j * D + 22) (shard_end D A j) B"
      using p that(1) by (simp_all add: holds_shards_def)
    have "slice (j * D + 22) (shard_end D A j) (copy_at (i * D + 22) ?d ?g) = slice (j * D + 22) (shard_end D A j) ?g"
    proof (rule slice_copy_at_disjoint)
      show "i * D + 22 + length ?d \<le> length ?g" using d g by simp
      show "shard_end D A j \<le> length ?g" using j(1) g(2) by (rule le_trans)
      show "shard_end D A j \<le> i * D + 22 \<or> i * D + 22 + length ?d \<le> j * D + 22"
        using shard_ranges_disjoint [of i j D A] that(2) d by auto
    qed
    also have "\<dots> = slice (j * D + 22) (shard_end D A j) (ipp_buffer p)"
      using j(1) p by (intro slice_grown) (simp add: holds_shards_def)
    finally show ?thesis using j(2) by simp
  qed
  moreover have "shard_end D A j \<le> ?len" if "j \<in> R" for j
    using p that by (auto simp: holds_shards_def le_max_iff_disj)
  moreover have "?len \<le> A" using p e by (simp add: holds_shards_def)
  moreover have "?len \<le> length (copy_at (i * D + 22) ?d ?g)" using d g by (simp add: length_grown)
  ultimately show ?thesis
    using p by (auto simp: holds_shards_def with_shard_def Let_def)
qed

lemma holds_all_shards:
  assumes p: "holds_shards D A B {..<n} p" and "0 < D" "A \<le> n * D + 22" "22 < A" "A \<le> length B"
  shows "ipp_buffer_length p = A" "slice 22 A (ipp_buffer p) = slice 22 A B"
proof -
  have n: "0 < n" using assms(3,4) by (cases n) simp_all
  have "shard_end D A (n - 1) = A" using assms(3) n by (cases n) (simp_all add: shard_end_def add.commute)
  moreover have "n - 1 \<in> {..<n}" using n by simp
  ultimately have "A \<le> ipp_buffer_length p" using p unfolding holds_shards_def by metis
  then show len: "ipp_buffer_length p = A" using p by (simp add: holds_shards_def)
  show "slice 22 A (ipp_buffer p) = slice 22 A B"
  proof (rule slice_eqI)
    show bl: "A \<le> length (ipp_buffer p)" "A \<le> length B" using p len assms(5) by (simp_all add: holds_shards_def)
    fix k
    assume k: "22 \<le> k" "k < A"
    define i where "i = (k - 22) div D"
    have "i * D \<le> k - 22" by (simp add: i_def)
    then have lo: "i * D + 22 \<le> k" using k by linarith
    have "k - 22 < i * D + D"
      using dividend_less_div_times [OF assms(2), of "k - 22"] by (simp add: i_def)
    then have hi: "k < shard_end D A i" using k by (simp add: shard_end_def)
    have "k - 22 < n * D" using k assms(3) by linarith
    then have "i \<in> {..<n}" by (simp add: i_def less_mult_imp_div_less)
    then have eq: "slice (i * D + 22) (shard_end D A i) (ipp_buffer p) = slice (i * D + 22) (shard_end D A i) B"
      using p by (simp add: holds_shards_def)
    have "ipp_buffer p ! k = slice (i * D + 22) (shard_end D A i) (ipp_buffer p) ! (k - (i * D + 22))"
      using lo hi bl(1) k by (simp add: nth_slice)
    also have "\<dots> = B ! k" using lo hi bl(2) k by (simp add: eq nth_slice)
    finally show "ipp_buffer p ! k = B ! k" .
  qed
qed

section \<open>Statistics never panic\<close>

text \<open>The documented behaviour of timestamps that the socket relies on: a total order, and the distance to
  an earlier or equal timestamp is defined.\<close>

definition tai_ok :: "'t tai \<Rightarrow> bool" where
  "tai_ok T \<longleftrightarrow>
     (\<forall>a. tai_le T a a) \<and> (\<forall>a b c. tai_le T a b \<longrightarrow> tai_le T b c \<longrightarrow> tai_le T a c) \<and>
     (\<forall>a b. tai_le T a b \<or> tai_le T b a) \<and> (\<forall>a b. tai_le T b a \<longrightarrow> tai_checked_since T a b \<noteq> None)"

lemma tai_okD:
  assumes "tai_ok T"
  shows "tai_le T a a" "tai_le T a b \<Longrightarrow> tai_le T b c \<Longrightarrow> tai_le T a c" "\<not> tai_le T a b \<Longrightarrow> tai_le T b a"
    "tai_le T b a \<Longrightarrow> \<exists>d. tai_checked_since T a b = Some d"
  using assms unfolding tai_ok_def by blast+

definition instants_ok :: "'t tai \<Rightarrow> (nat \<times> 't shard_map_stats) list \<Rightarrow> bool" where
  "instants_ok T m \<longleftrightarrow> (\<forall>e\<in>set m. tai_le T (tai_epoch T) (sm_rx_instant (snd e)))"

definition rx_ok :: "'t tai \<Rightarrow> (u32 \<times> (nat \<times> 't shard_map_stats) list) list \<Rightarrow> bool" where
  "rx_ok T M \<longleftrightarrow> (\<forall>e\<in>set M. snd e \<noteq> [] \<and> instants_ok T (snd e))"

definition stats_ok :: "'t tai \<Rightarrow> 't \<Rightarrow> 't stream_socket \<Rightarrow> bool" where
  "stats_ok T now s \<longleftrightarrow>
     tai_le T (tai_epoch T) now \<and> (\<forall>t. prev_shard_rx_instant s = Some t \<longrightarrow> tai_le T t now) \<and> rx_ok T (map_rx s)"

lemma alist_update_set: "e \<in> set (AList.update k v al) \<Longrightarrow> e = (k, v) \<or> e \<in> set al"
  by (induction al) (auto split: if_splits)

lemma alist_update_nonempty: "AList.update k v al \<noteq> []"
  by (cases al) auto

lemma instants_ok_update:
  "tai_le T (tai_epoch T) (sm_rx_instant x) \<Longrightarrow> instants_ok T m \<Longrightarrow> instants_ok T (AList.update j x m)"
  by (auto simp: instants_ok_def dest!: alist_update_set)

lemma rx_ok_update: "rx_ok T M \<Longrightarrow> m \<noteq> [] \<Longrightarrow> instants_ok T m \<Longrightarrow> rx_ok T (AList.update k m M)"
  by (auto simp: rx_ok_def dest!: alist_update_set)

lemma rx_ok_lookup: "rx_ok T M \<Longrightarrow> map_of M k = Some m \<Longrightarrow> m \<noteq> [] \<and> instants_ok T m"
  by (auto simp: rx_ok_def dest!: map_of_SomeD)

text \<open>What the statistics leave alone.\<close>

definition same_streams :: "'t stream_socket \<Rightarrow> 't stream_socket \<Rightarrow> bool" where
  "same_streams s s' \<longleftrightarrow>
     components s' = components s \<and> sk_max_packet_size s' = sk_max_packet_size s \<and>
     shard_recv_state s' = shard_recv_state s"

lemma same_streams_refl: "same_streams s s"
  by (simp add: same_streams_def)

lemma same_streams_trans: "same_streams a b \<Longrightarrow> same_streams b c \<Longrightarrow> same_streams a c"
  by (simp add: same_streams_def)

lemma stats_ok_later: "tai_ok T \<Longrightarrow> stats_ok T now s \<Longrightarrow> tai_le T now now' \<Longrightarrow> stats_ok T now' s"
proof -
  assume T: "tai_ok T" and s: "stats_ok T now s" and le: "tai_le T now now'"
  have "tai_le T t now'" if "tai_le T t now" for t by (rule tai_okD(2) [OF T that le])
  with s show ?thesis by (simp add: stats_ok_def)
qed

lemma jitter_update_ok:
  assumes "tai_ok T" "stats_ok T now s"
  shows "\<exists>s'. jitter_update T now tx s = Some s' \<and> same_streams s s' \<and> stats_ok T now s' \<and> map_rx s' = map_rx s"
proof -
  have le: "tai_le T now now" using assms(1) by (simp add: tai_ok_def)
  show ?thesis
  proof (cases "prev_shard_rx_instant s")
    case None
    then show ?thesis using assms(2) le by (auto simp: jitter_update_def same_streams_def stats_ok_def)
  next
    case (Some t)
    then obtain d where "tai_checked_since T now t = Some d"
      using tai_okD(4) [OF assms(1)] assms(2) unfolding stats_ok_def by blast
    with Some assms(2) le show ?thesis
      by (cases "prev_shard_tx_r_instant s")
        (auto simp: jitter_update_def same_streams_def stats_ok_def Let_def)
  qed
qed

lemma video_shard_stats_ok:
  assumes T: "tai_ok T" and s: "stats_ok T now s" and l: "22 \<le> l"
  shows "\<exists>s'. video_shard_stats T now l pix i tx s = Some s' \<and> same_streams s s' \<and> stats_ok T now s'"
proof -
  define h where "h = highest_update pix i s"
  have h: "same_streams s h" "map_rx h = map_rx s" "prev_shard_rx_instant h = prev_shard_rx_instant s"
    by (simp_all add: h_def highest_update_def Let_def same_streams_def)
  define p where "p = \<lparr>sm_tx_r_instant = tx, sm_rx_instant = now, sm_rx_bytes = of_nat l, sm_rx_bytes_app = of_nat (l - 22)\<rparr>"
  define m where "m = (case map_of (map_rx h) pix of None \<Rightarrow> [] | Some m \<Rightarrow> m)"
  define g where "g = (if map_of m i \<noteq> None
    then h\<lparr>map_rx := AList.update pix m (map_rx h), sk_duplicated_shard_counter := sk_duplicated_shard_counter h + 1\<rparr>
    else h\<lparr>map_rx := AList.update pix (AList.update i p m) (map_rx h), sk_rx_shard_counter := sk_rx_shard_counter h + 1\<rparr>)"
  let ?s = "g\<lparr>sk_rx_bytes := sk_rx_bytes g + of_nat l\<rparr>"
  have rx: "rx_ok T (map_rx h)" using s h(2) by (simp add: stats_ok_def)
  have m: "instants_ok T m"
    using rx_ok_lookup [OF rx, of pix] by (cases "map_of (map_rx h) pix") (simp_all add: m_def instants_ok_def)
  then have "instants_ok T (AList.update i p m)"
    using s by (intro instants_ok_update) (simp_all add: p_def stats_ok_def)
  then have "rx_ok T (map_rx g)"
    using rx m by (auto simp: g_def alist_update_nonempty intro!: rx_ok_update)
  then have "stats_ok T now ?s" using s h(3) by (simp add: stats_ok_def g_def)
  from jitter_update_ok [OF T this, of tx] obtain s' where
    s': "jitter_update T now tx ?s = Some s'" "same_streams ?s s'" "stats_ok T now s'" by blast
  have "same_streams s ?s" using h(1) by (simp add: same_streams_def g_def)
  then have "same_streams s s'" using s'(2) by (rule same_streams_trans)
  moreover have "video_shard_stats T now l pix i tx s = jitter_update T now tx ?s"
    using l by (simp add: video_shard_stats_def SHARD_PREFIX_SIZE_def Let_def g_def m_def p_def h_def)
  ultimately show ?thesis using s' by auto
qed

lemma frame_times:
  assumes T: "tai_ok T" and "tai_le T (tai_epoch T) a" "\<forall>x\<in>set vs. tai_le T (tai_epoch T) (sm_rx_instant x)"
  shows "tai_le T (fold (\<lambda>x m. tai_min T m (sm_rx_instant x)) vs a) a"
    and "tai_le T a (fold (\<lambda>x m. tai_max T m (sm_rx_instant x)) vs a)"
proof -
  show "tai_le T (fold (\<lambda>x m. tai_min T m (sm_rx_instant x)) vs a) a" for a
  proof (induction vs arbitrary: a)
    case (Cons v vs)
    have "tai_le T (tai_min T a (sm_rx_instant v)) a"
      using tai_okD(1,3) [OF T] by (auto simp: tai_min_def)
    with Cons show ?case using tai_okD(2) [OF T] by auto
  qed (simp add: tai_okD(1) [OF T])
  show "tai_le T a (fold (\<lambda>x m. tai_max T m (sm_rx_instant x)) vs a)" for a
  proof (induction vs arbitrary: a)
    case (Cons v vs)
    have "tai_le T a (tai_max T a (sm_rx_instant v))"
      using tai_okD(1,3) [OF T] by (auto simp: tai_max_def)
    with Cons show ?case using tai_okD(2) [OF T] by auto
  qed (simp add: tai_okD(1) [OF T])
qed

lemma video_frame_stats_ok:
  assumes T: "tai_ok T" and s: "stats_ok T now s" and m: "m \<noteq> []" "instants_ok T m"
  shows "\<exists>fs s'. video_frame_stats powf T m s = Some (fs, s') \<and> same_streams s s' \<and> stats_ok T now s'"
proof -
  obtain v vs where v: "map snd m = v # vs" using m(1) by (cases m) auto
  let ?lo = "fold (\<lambda>x m. tai_min T m (sm_rx_instant x)) vs (sm_rx_instant v)"
  let ?hi = "fold (\<lambda>x m. tai_max T m (sm_rx_instant x)) vs (sm_rx_instant v)"
  have "\<forall>x\<in>set (map snd m). tai_le T (tai_epoch T) (sm_rx_instant x)" using m(2) by (auto simp: instants_ok_def)
  then have ev: "tai_le T (tai_epoch T) (sm_rx_instant v)" "\<forall>x\<in>set vs. tai_le T (tai_epoch T) (sm_rx_instant x)"
    by (simp_all add: v)
  note t = frame_times [OF T ev]
  obtain d where d: "tai_checked_since T ?hi ?lo = Some d"
    using tai_okD(4) [OF T tai_okD(2) [OF T t]] by blast
  obtain e where e: "tai_checked_since T ?hi (tai_epoch T) = Some e"
    using tai_okD(4) [OF T tai_okD(2) [OF T ev(1) t(2)]] by blast
  show ?thesis
    using s by (cases "map_of m 0")
      (simp_all add: video_frame_stats_def v d nada_owd_def e Let_def same_streams_def stats_ok_def)
qed

lemma complete_packet_ok:
  assumes T: "tai_ok T" and s: "stats_ok T now s"
    and q: "map_of (in_progress_packets c) (rs_packet_index st) = Some q"
  shows "\<exists>s' packet. complete_packet powf T st p c s =
      Some (c\<lparr>in_progress_packets := AList.delete (rs_packet_index st) (in_progress_packets c),
        packet_queue := packet_queue c @ [packet], used_buffers := used_buffers c @ [[]]\<rparr>, s') \<and>
    same_streams s s' \<and> stats_ok T now s' \<and>
    rp_index packet = rs_packet_index st \<and> rp_buffer packet = ipp_buffer q \<and> rp_size packet = ipp_buffer_length p"
proof -
  have rx: "rx_ok T (map_rx s)" using s by (simp add: stats_ok_def)
  obtain fs s1 where fs: "(if rs_stream_id st = VIDEO then
          (case map_of (map_rx s) (rs_packet_index st) of
             None \<Rightarrow> Some (no_frame_stats, s)
           | Some inner_map \<Rightarrow> video_frame_stats powf T inner_map s)
        else Some (no_frame_stats, s)) = Some (fs, s1)" "same_streams s s1" "stats_ok T now s1"
  proof (cases "rs_stream_id st = VIDEO \<and> map_of (map_rx s) (rs_packet_index st) \<noteq> None")
    case True
    then obtain m where m: "map_of (map_rx s) (rs_packet_index st) = Some m" by auto
    from rx_ok_lookup [OF rx m] have "m \<noteq> []" "instants_ok T m" by simp_all
    from video_frame_stats_ok [OF T s this, of powf] obtain fs s1 where
      "video_frame_stats powf T m s = Some (fs, s1)" "same_streams s s1" "stats_ok T now s1" by blast
    with True m that show ?thesis by simp
  next
    case False
    then show ?thesis using that [of no_frame_stats s] s by (auto simp: same_streams_refl split: option.splits)
  qed
  let ?t = "s1\<lparr>sk_rx_bytes := 0, sk_rx_shard_counter := 0, sk_duplicated_shard_counter := 0\<rparr>"
  have "same_streams s1 (prune_map_rx (rs_packet_index st) ?t)" "stats_ok T now (prune_map_rx (rs_packet_index st) ?t)"
    using fs(3) by (auto simp: same_streams_def prune_map_rx_def stats_ok_def rx_ok_def)
  with fs(2,3) have "same_streams s (if rs_stream_id st = VIDEO then prune_map_rx (rs_packet_index st) ?t else s1)"
    "stats_ok T now (if rs_stream_id st = VIDEO then prune_map_rx (rs_packet_index st) ?t else s1)"
    by (auto intro: same_streams_trans)
  then show ?thesis
    using fs(1) q by (auto simp: complete_packet_def Let_def reconstruct_def)
qed

section \<open>The sweep\<close>

definition losses_ok :: "'t stream_recv_components \<Rightarrow> bool" where
  "losses_ok c \<longleftrightarrow> (\<forall>e\<in>set (in_progress_packets c). card (received_shard_indices (snd e)) \<le> num_shards_expected (snd e))"

lemma record_losses_ok:
  "\<forall>p\<in>set ps. card (received_shard_indices p) \<le> num_shards_expected p \<Longrightarrow> \<exists>r. record_losses cfg ps lost = Some r"
  by (induction ps arbitrary: lost) (auto simp: record_loss_def)

lemma sweep_losses_ok:
  "\<forall>e\<in>set cs. losses_ok (snd e) \<Longrightarrow> \<exists>r. sweep_losses cfg T now cs lost = Some r"
proof (induction cs arbitrary: lost)
  case (Cons e cs)
  obtain sid c where e: "e = (sid, c)" by force
  let ?ps = "map snd (filter (\<lambda>(k, p). is_expired T now p) (in_progress_packets c))"
  have "\<forall>p\<in>set ?ps. card (received_shard_indices p) \<le> num_shards_expected p"
    using Cons.prems e by (auto simp: losses_ok_def)
  from record_losses_ok [OF this] obtain r where "record_losses cfg ?ps lost = Some r" by blast
  with Cons e show ?case by simp
qed simp

lemma sweep_ok:
  assumes "\<forall>e\<in>set (components s). losses_ok (snd e)" "stats_ok T now s"
  shows "\<exists>s'. sweep_expired_deadlines cfg T now s = Some s' \<and>
    components s' = map (\<lambda>(sid, c). (sid, sweep_component T now c)) (components s) \<and>
    sk_max_packet_size s' = sk_max_packet_size s \<and> stats_ok T now s'"
proof -
  obtain lost expected where
    "sweep_losses cfg T now (components s) (lost_shards_deadline_map s, lost_shards_expected_map s) = Some (lost, expected)"
    using sweep_losses_ok [OF assms(1)] by (metis surj_pair)
  with assms(2) show ?thesis by (simp add: sweep_expired_deadlines_def stats_ok_def)
qed

lemma map_of_filter_distinct:
  "distinct (map fst l) \<Longrightarrow> map_of l k = Some v \<Longrightarrow> P (k, v) \<Longrightarrow> map_of (filter P l) k = Some v"
  by (induction l) (auto split: if_splits)

lemma map_of_filter_None: "map_of l k = None \<Longrightarrow> map_of (filter P l) k = None"
  by (induction l) (auto split: if_splits)

section \<open>A sound socket\<close>

text \<open>The documented behaviour of a hash map's insertion: the new key joins the others, in some position of
  the iteration order.\<close>

definition ins_ok :: "'t hash_insert \<Rightarrow> bool" where
  "ins_ok ins \<longleftrightarrow>
     (\<forall>k v l. k \<notin> fst ` set l \<longrightarrow> distinct (map fst l) \<longrightarrow>
        distinct (map fst (ins k v l)) \<and> set (ins k v l) = insert (k, v) (set l))"

definition comp_ok :: "'t stream_recv_components \<Rightarrow> bool" where
  "comp_ok c \<longleftrightarrow> distinct (map fst (in_progress_packets c)) \<and> losses_ok c"

definition sock_ok :: "'t tai \<Rightarrow> 't \<Rightarrow> 't stream_socket \<Rightarrow> bool" where
  "sock_ok T now s \<longleftrightarrow>
     shard_recv_state s = None \<and> stats_ok T now s \<and> (\<forall>e\<in>set (components s). comp_ok (snd e))"

lemma take_buffer_ok:
  assumes "take_buffer pix c = (b, c')" "comp_ok c"
  shows "comp_ok c'" "packet_queue c' = packet_queue c"
    "map_of (in_progress_packets c) k = None \<Longrightarrow> map_of (in_progress_packets c') k = None"
  using assms
  by (auto simp: take_buffer_def comp_ok_def losses_ok_def AList.delete_eq map_of_filter_None distinct_map_filter
      split: list.splits option.splits)

lemma alist_update_map_fst: "distinct (map fst l) \<Longrightarrow> distinct (map fst (AList.update k v l))"
  by (rule distinct_update)

lemma with_shard_simps:
  "received_shard_indices (with_shard D A B i p) = insert i (received_shard_indices p)"
  "ipp_deadline (with_shard D A B i p) = ipp_deadline p"
  "num_shards_expected (with_shard D A B i p) = num_shards_expected p"
  by (simp_all add: with_shard_def Let_def)

text \<open>The packet a shard belongs to, with the shards \<open>R\<close> it already holds.\<close>

definition packet_at :: "nat \<Rightarrow> nat \<Rightarrow> bytes \<Rightarrow> nat \<Rightarrow> 't option \<Rightarrow> u32 \<Rightarrow> nat set \<Rightarrow> 't stream_recv_components \<Rightarrow> bool" where
  "packet_at D A B n dl pix R c \<longleftrightarrow>
     (case map_of (in_progress_packets c) pix of
        None \<Rightarrow> R = {}
      | Some p \<Rightarrow> holds_shards D A B R p \<and> ipp_deadline p = dl \<and> num_shards_expected p = n)"

lemma select_packet_ok:
  assumes ins: "ins_ok ins" and c: "comp_ok c" and at: "packet_at D A B n dl pix R c"
    and st: "rs_packet_index st = pix" "rs_should_discard st = False" "rs_frame_deadline st = dl" "rs_shards_count st = n"
    and cfg: "anchor_first cfg = False"
  shows "\<exists>p c'. select_packet ins cfg T now st c = (p, c') \<and> holds_shards D A B R p \<and> ipp_deadline p = dl \<and>
    num_shards_expected p = n \<and> comp_ok c' \<and> packet_queue c' = packet_queue c \<and>
    map_of (in_progress_packets c') pix = Some p"
proof (cases "map_of (in_progress_packets c) pix")
  case (Some p)
  with at st c show ?thesis by (simp add: select_packet_def packet_at_def)
next
  case None
  obtain b c1 where b: "take_buffer pix c = (b, c1)" by force
  note c1 = take_buffer_ok [OF b c]
  let ?p = "new_packet cfg T now st b"
  let ?l = "in_progress_packets c1"
  have "map_of ?l pix = None" using c1(3) None by blast
  then have k: "pix \<notin> fst ` set ?l" by (simp add: map_of_eq_None_iff)
  have i: "distinct (map fst (ins pix ?p ?l))" "set (ins pix ?p ?l) = insert (pix, ?p) (set ?l)"
    using ins k c1(1) by (simp_all add: ins_ok_def comp_ok_def)
  have p: "received_shard_indices ?p = {}" "ipp_deadline ?p = dl" "num_shards_expected ?p = n" "ipp_buffer_length ?p = 0"
    using st cfg by (simp_all add: new_packet_def)
  have R: "R = {}" using at None by (simp add: packet_at_def)
  have "holds_shards D A B R ?p" using p R by (simp add: holds_shards_def)
  moreover have "comp_ok (c1\<lparr>in_progress_packets := ins pix ?p ?l\<rparr>)"
    using i c1(1) p by (auto simp: comp_ok_def losses_ok_def)
  moreover have "map_of (ins pix ?p ?l) pix = Some ?p" using i by (simp add: map_of_eq_Some_iff)
  ultimately show ?thesis
    using None st b c1(2) p by (simp add: select_packet_def Let_def)
qed

section \<open>Receiving one shard\<close>

definition shard_state :: "nat \<Rightarrow> u16 \<Rightarrow> u32 \<Rightarrow> nat \<Rightarrow> nat \<Rightarrow> 't option \<Rightarrow> 't recv_state" where
  "shard_state l sid pix n i dl =
     \<lparr>rs_shard_length = l, rs_stream_id = sid, rs_packet_index = pix, rs_shards_count = n, rs_shard_index = i,
      rs_packet_cursor = 0, rs_backup = None, rs_should_discard = False, rs_frame_deadline = dl\<rparr>"

lemma finish_with_shard:
  assumes "with_shard D A B i p = p'" "shard_end D A i = i * D + l" "22 \<le> l"
    "shard_msg D A sid pix n tx B i = msg"
  shows "p\<lparr>ipp_buffer_length := max (ipp_buffer_length p) (i * D + l),
      ipp_buffer := copy_at (i * D + 22) (drop 22 msg) (grown (max (ipp_buffer_length p) (i * D + l)) (ipp_buffer p)),
      received_shard_indices := insert i (received_shard_indices p)\<rparr> = p'"
  using assms by (auto simp: with_shard_def Let_def shard_msg_def)

lemma sweep_lookup:
  assumes "comp_ok c" "map_of (in_progress_packets c) pix = Some p" "\<not> is_expired T now p"
  shows "map_of (in_progress_packets (sweep_component T now c)) pix = Some p"
  using assms by (simp add: sweep_component_def Let_def comp_ok_def map_of_filter_distinct)

lemma sweep_comp_ok: "comp_ok c \<Longrightarrow> comp_ok (sweep_component T now c)"
  by (auto simp: sweep_component_def Let_def comp_ok_def losses_ok_def distinct_map_filter)

lemma sweep_queue [simp]: "packet_queue (sweep_component T now c) = packet_queue c"
  by (simp add: sweep_component_def Let_def)

lemma sweep_none:
  "map_of (in_progress_packets c) pix = None \<Longrightarrow> map_of (in_progress_packets (sweep_component T now c)) pix = None"
  by (simp add: sweep_component_def Let_def map_of_filter_None)

text \<open>The last part of a reception: storing the component, sweeping, and ending the shard.\<close>

lemma sweep_socket:
  assumes s: "stats_ok T now s" "\<forall>e\<in>set (components s). comp_ok (snd e)" and c: "comp_ok c"
  shows "\<exists>s'. sweep_expired_deadlines cfg T now (s\<lparr>components := AList.update sid c (components s)\<rparr>) = Some s' \<and>
    map_of (components s') sid = Some (sweep_component T now c) \<and> sk_max_packet_size s' = sk_max_packet_size s \<and>
    sock_ok T now (s'\<lparr>shard_recv_state := None\<rparr>)"
proof -
  let ?s = "s\<lparr>components := AList.update sid c (components s)\<rparr>"
  have ok: "\<forall>e\<in>set (components ?s). comp_ok (snd e)"
    using s(2) c by (auto dest!: alist_update_set)
  have ok': "comp_ok b" if "(a, b) \<in> set (AList.update sid c (components s))" for a b
    using bspec [OF ok, of "(a, b)"] that by simp
  have l: "\<forall>e\<in>set (components ?s). losses_ok (snd e)" using ok by (simp add: comp_ok_def)
  have so: "stats_ok T now ?s" using s(1) by (simp add: stats_ok_def)
  from sweep_ok [OF l so, of cfg] obtain s' where s': "sweep_expired_deadlines cfg T now ?s = Some s'"
    "components s' = map (\<lambda>(sid, c). (sid, sweep_component T now c)) (components ?s)"
    "sk_max_packet_size s' = sk_max_packet_size ?s" "stats_ok T now s'"
    by blast
  have "map_of (components s') sid = Some (sweep_component T now c)"
    using s'(2) by (simp add: map_of_map AList.update_conv')
  moreover have "\<forall>e\<in>set (components s'). comp_ok (snd e)"
    unfolding s'(2) by (auto intro!: sweep_comp_ok dest: ok')
  ultimately show ?thesis using s' by (auto simp: sock_ok_def stats_ok_def)
qed

context socket_reader begin

lemma begin_shard_ok:
  assumes T: "tai_ok T" and s: "stats_ok T now s"
    and r: "pending r = (prefix_bytes l sid pix n i tx @ rest) # ms" "22 + length rest = l" "l \<le> 16000"
    and n: "n < 2 ^ 32" "i < 2 ^ 32" and dl: "frame_deadline_of cfg T tx = Some dl"
  shows "\<exists>s' r'. begin_shard peek_prefix cfg T now s r =
      Some (Some (shard_state l sid pix n i dl, s'\<lparr>shard_recv_state := Some (shard_state l sid pix n i dl)\<rparr>), r') \<and>
    pending r' = pending r \<and> alive r' = alive r \<and> same_streams s s' \<and> stats_ok T now s'"
proof -
  let ?m = "prefix_bytes l sid pix n i tx @ rest"
  let ?b = "prefix_bytes l sid pix n i tx"
  have m: "length ?m = l" using r(2) by simp
  then have "length ?m \<le> MAX_PACKET_SIZE_RECV" using r(3) by (simp add: MAX_PACKET_SIZE_RECV_def)
  from peek_next [OF r(1) this, of "replicate SHARD_PREFIX_SIZE 0"] obtain r' where
    p: "peek_prefix (replicate SHARD_PREFIX_SIZE 0) MAX_PACKET_SIZE_RECV r = (Inr l, ?b, r')"
    and r': "pending r' = pending r" "alive r' = alive r"
    using r(1,2) by (auto simp: SHARD_PREFIX_SIZE_def copy_at_def)
  have l4: "4 + unat (of_nat (l - 4) :: u32) = l"
  proof -
    have "unat (of_nat (l - 4) :: u32) = (l - 4) mod 2 ^ 32" by (simp only: unat_of_nat len_bit0 len_num1) simp
    also have "\<dots> = l - 4" using r(3) by simp
    finally show ?thesis using r(2) by linarith
  qed
  have ni: "unat (of_nat n :: u32) = n" "unat (of_nat i :: u32) = i" using n by (simp_all add: unat_of_nat)
  have st: "\<exists>s'. (if sid = VIDEO then video_shard_stats T now l pix i tx s else Some s) = Some s' \<and>
      same_streams s s' \<and> stats_ok T now s'"
    using video_shard_stats_ok [OF T s, of l pix i tx] r(2) s same_streams_refl by auto
  then obtain s' where s': "(if sid = VIDEO then video_shard_stats T now l pix i tx s else Some s) = Some s'"
    "same_streams s s'" "stats_ok T now s'" by blast
  have "begin_shard peek_prefix cfg T now s r =
      Some (Some (shard_state l sid pix n i dl, s'\<lparr>shard_recv_state := Some (shard_state l sid pix n i dl)\<rparr>), r')"
  proof -
    have "\<not> l < SHARD_PREFIX_SIZE" using r(2) by (simp add: SHARD_PREFIX_SIZE_def)
    then show ?thesis
      unfolding begin_shard_def p prod.case sum.case Let_def prefix_fields [where rest = "[]", unfolded append_Nil2] l4 ni
      using s'(1) dl by (simp add: shard_state_def)
  qed
  with r' s' show ?thesis by blast
qed

end

text \<open>The frame being transferred: \<open>n\<close> shards of at most \<open>D\<close> payload bytes cut from \<open>A\<close> bytes of \<open>B\<close>, with the
  deadline \<open>dl\<close> that its send stamp gives.\<close>

definition frame_ok :: "settings \<Rightarrow> 't tai \<Rightarrow> nat \<Rightarrow> nat \<Rightarrow> bytes \<Rightarrow> nat \<Rightarrow> f32 \<Rightarrow> 't option \<Rightarrow> bool" where
  "frame_ok cfg T D A B n tx dl \<longleftrightarrow>
     0 < D \<and> D + 22 \<le> 16000 \<and> 22 < A \<and> A \<le> length B \<and> n = ceil_div (A - 22) D \<and> n < 2 ^ 32 \<and>
     frame_deadline_of cfg T tx = Some dl \<and> \<not> anchor_first cfg"

definition in_time :: "'t tai \<Rightarrow> 't option \<Rightarrow> 't \<Rightarrow> bool" where
  "in_time T dl now \<longleftrightarrow> (case dl of None \<Rightarrow> True | Some t \<Rightarrow> \<not> tai_le T t now)"

definition delivered :: "nat \<Rightarrow> bytes \<Rightarrow> u32 \<Rightarrow> reconstructed_packet \<Rightarrow> bool" where
  "delivered A B pix q \<longleftrightarrow> rp_index q = pix \<and> rp_size q = A \<and> slice 22 A (rp_buffer q) = slice 22 A B"

lemma frame_shard:
  assumes "frame_ok cfg T D A B n tx dl" "i < n"
  shows "i * D + 22 < A" "A \<le> n * D + 22" "i < 2 ^ 32" "shard_end D A i = i * D + (shard_end D A i - i * D)"
    "22 \<le> shard_end D A i - i * D" "shard_end D A i - i * D \<le> 16000"
proof -
  have D: "0 < D" "n = ceil_div (A - 22) D" using assms(1) by (simp_all add: frame_ok_def)
  show i: "i * D + 22 < A" using ceil_div_less [OF D(1), of i "A - 22"] assms(2) D(2) by simp
  show "A \<le> n * D + 22" using ceil_div_cover [OF D(1), of "A - 22"] D(2) by simp
  show "i < 2 ^ 32" using assms by (simp add: frame_ok_def)
  show "shard_end D A i = i * D + (shard_end D A i - i * D)" "22 \<le> shard_end D A i - i * D"
    using i by (simp_all add: shard_end_def)
  show "shard_end D A i - i * D \<le> 16000" using assms(1) by (auto simp: shard_end_def frame_ok_def)
qed

lemma not_expired: "in_time T dl now \<Longrightarrow> ipp_deadline p = dl \<Longrightarrow> \<not> is_expired T now p"
  by (auto simp: in_time_def is_expired_def split: option.splits)

lemma comp_ok_update:
  assumes "comp_ok c" "card (received_shard_indices p) \<le> num_shards_expected p"
  shows "comp_ok (c\<lparr>in_progress_packets := AList.update k p (in_progress_packets c)\<rparr>)"
  using assms by (auto simp: comp_ok_def losses_ok_def distinct_update dest!: alist_update_set)

lemma comp_ok_delete:
  assumes "comp_ok c"
  shows "comp_ok (c\<lparr>in_progress_packets := AList.delete k (in_progress_packets c), packet_queue := q, used_buffers := b\<rparr>)"
  using assms by (auto simp: comp_ok_def losses_ok_def AList.delete_eq distinct_map_filter)

lemma complete_iff: "R \<subseteq> {..<n} \<Longrightarrow> card R = n \<longleftrightarrow> R = {..<n}"
  using card_subset_eq [of "{..<n}" R] by auto

context socket_reader begin

lemma finish_shard_ok:
  fixes s :: "'t stream_socket"
  assumes T: "tai_ok T" and ins: "ins_ok ins" and f: "frame_ok cfg T D A B n tx dl" and i: "i < n"
    and s: "stats_ok T now s" "\<forall>e\<in>set (components s). comp_ok (snd e)" "sk_max_packet_size s = D + 22"
    and c: "map_of (components s) sid = Some c" "packet_at D A B n dl pix R c" "R \<subseteq> {..<n}"
    and r: "pending r = shard_msg D A sid pix n tx B i # ms" and now: "in_time T dl now"
  shows "\<exists>s' r' c'. finish_shard recv ins powf cfg T now (shard_state (shard_end D A i - i * D) sid pix n i dl) s r =
      Some (Inr (), s', r') \<and>
    pending r' = ms \<and> alive r' = alive r \<and> sock_ok T now s' \<and> sk_max_packet_size s' = D + 22 \<and>
    map_of (components s') sid = Some c' \<and>
    (if insert i R = {..<n}
     then \<exists>q. packet_queue c' = packet_queue c @ [q] \<and> delivered A B pix q
     else packet_queue c' = packet_queue c \<and> packet_at D A B n dl pix (insert i R) c')"
proof -
  let ?st = "shard_state (shard_end D A i - i * D) sid pix n i dl :: 't recv_state"
  let ?m = "shard_msg D A sid pix n tx B i"
  note fi = frame_shard [OF f i]
  have B: "A \<le> length B" and cfg: "\<not> anchor_first cfg" and D: "0 < D" "22 < A" using f by (simp_all add: frame_ok_def)
  have cok: "comp_ok c" using s(2) c(1) by (force dest: map_of_SomeD)
  obtain p c1 where p: "select_packet ins cfg T now ?st c = (p, c1)" "holds_shards D A B R p" "ipp_deadline p = dl"
    "num_shards_expected p = n" "comp_ok c1" "packet_queue c1 = packet_queue c" "map_of (in_progress_packets c1) pix = Some p"
    using select_packet_ok [OF ins cok c(2), of ?st cfg T now] cfg by (auto simp: shard_state_def)
  define p2 where "p2 = with_shard D A B i p"
  have len: "length ?m = shard_end D A i - i * D" using fi(1) B by (intro length_shard_msg) simp_all
  have "\<exists>r'. write_shard recv (D + 22) ?st p r = Some (p\<lparr>ipp_buffer_length := max (ipp_buffer_length p) (i * D + length ?m),
        ipp_buffer := copy_at (i * D + 22) (drop 22 ?m) (grown (max (ipp_buffer_length p) (i * D + length ?m)) (ipp_buffer p))\<rparr>, r') \<and>
      pending r' = ms \<and> alive r' = alive r"
    by (rule write_shard_effect [OF r]) (use len fi(5) in \<open>simp_all add: shard_state_def\<close>)
  then obtain p1 r' where p1: "p1 = p\<lparr>ipp_buffer_length := max (ipp_buffer_length p) (i * D + length ?m),
        ipp_buffer := copy_at (i * D + 22) (drop 22 ?m) (grown (max (ipp_buffer_length p) (i * D + length ?m)) (ipp_buffer p))\<rparr>"
    and r': "write_shard recv (D + 22) ?st p r = Some (p1, r')" "pending r' = ms" "alive r' = alive r"
    by blast
  have p2: "p1\<lparr>received_shard_indices := insert i (received_shard_indices p1)\<rparr> = p2"
    using finish_with_shard [OF p2_def [symmetric] fi(4,5) refl, of sid pix n tx] unfolding p1 len by simp
  have R1: "received_shard_indices p1 = R" using p1 p(2) by (simp add: holds_shards_def)
  have h2: "holds_shards D A B (insert i R) p2" unfolding p2_def
    using p(2) fi(1) B by (intro holds_shards_insert) simp_all
  have R2: "received_shard_indices p2 = insert i R" using h2 by (simp add: holds_shards_def)
  have sub: "insert i R \<subseteq> {..<n}" using c(3) i by simp
  have card: "card (insert i R) \<le> n" using card_mono [OF _ sub] by simp
  have p2d: "ipp_deadline p2 = dl" "num_shards_expected p2 = n" using p(3,4) by (simp_all add: p2_def with_shard_simps)
  define c2 where "c2 = c1\<lparr>in_progress_packets := AList.update pix p2 (in_progress_packets c1)\<rparr>"
  have c2: "comp_ok c2" "map_of (in_progress_packets c2) pix = Some p2" "packet_queue c2 = packet_queue c"
    using p(5,6) comp_ok_update [OF p(5), of p2 pix] R2 card p2d by (simp_all add: c2_def AList.update_conv')
  have fin: "finish_shard recv ins powf cfg T now ?st s r = do {
      (c, s) \<leftarrow> (if card (insert i R) = n then complete_packet powf T ?st p2 c2 s else Some (c2, s));
      s \<leftarrow> sweep_expired_deadlines cfg T now (s\<lparr>components := AList.update sid c (components s)\<rparr>);
      Some (Inr (), s\<lparr>shard_recv_state := None\<rparr>, r') }"
  proof -
    have st: "rs_stream_id ?st = sid" "rs_shard_index ?st = i" "\<not> rs_should_discard ?st" "rs_shards_count ?st = n"
      "store_packet ?st p2 c1 = c2"
      by (simp_all add: shard_state_def store_packet_def c2_def)
    show ?thesis
      unfolding finish_shard_def st c(1) option.case p(1) s(3) r'(1) Let_def prod.case
      using p2 R2 st R1 by simp
  qed
  show ?thesis
  proof (cases "insert i R = {..<n}")
    case True
    have "map_of (in_progress_packets c2) (rs_packet_index ?st) = Some p2" using c2(2) by (simp add: shard_state_def)
    from complete_packet_ok [OF T s(1) this, of powf p2] obtain s1 q where
      s1: "complete_packet powf T ?st p2 c2 s =
        Some (c2\<lparr>in_progress_packets := AList.delete pix (in_progress_packets c2),
          packet_queue := packet_queue c2 @ [q], used_buffers := used_buffers c2 @ [[]]\<rparr>, s1)"
      "same_streams s s1" "stats_ok T now s1" "rp_index q = pix" "rp_buffer q = ipp_buffer p2" "rp_size q = ipp_buffer_length p2"
      by (auto simp: shard_state_def)
    let ?c3 = "c2\<lparr>in_progress_packets := AList.delete pix (in_progress_packets c2),
          packet_queue := packet_queue c2 @ [q], used_buffers := used_buffers c2 @ [[]]\<rparr>"
    have cs: "components s1 = components s" "sk_max_packet_size s1 = D + 22"
      using s1(2) s(3) by (simp_all add: same_streams_def)
    have ok1: "\<forall>e\<in>set (components s1). comp_ok (snd e)" using s(2) cs(1) by simp
    from sweep_socket [OF s1(3) ok1 comp_ok_delete [OF c2(1)], of cfg sid] obtain s' where
      s': "sweep_expired_deadlines cfg T now (s1\<lparr>components := AList.update sid ?c3 (components s1)\<rparr>) = Some s'"
      "map_of (components s') sid = Some (sweep_component T now ?c3)" "sk_max_packet_size s' = sk_max_packet_size s1"
      "sock_ok T now (s'\<lparr>shard_recv_state := None\<rparr>)"
      by blast
    have "delivered A B pix q"
      using holds_all_shards [OF h2 [unfolded True] D(1) fi(2) D(2) B] s1(4-6) by (simp add: delivered_def)
    moreover have "finish_shard recv ins powf cfg T now ?st s r = Some (Inr (), s'\<lparr>shard_recv_state := None\<rparr>, r')"
      unfolding fin using True s1(1) s'(1) by simp
    ultimately show ?thesis
      using s'(2,3,4) r'(2,3) True cs(2) c2(3)
      by (intro exI [of _ "s'\<lparr>shard_recv_state := None\<rparr>"] exI [of _ r'] exI [of _ "sweep_component T now ?c3"] conjI) simp_all
  next
    case False
    then have nc: "card (insert i R) \<noteq> n" using complete_iff [OF sub] by simp
    from sweep_socket [OF s(1,2) c2(1), of cfg sid] obtain s' where
      s': "sweep_expired_deadlines cfg T now (s\<lparr>components := AList.update sid c2 (components s)\<rparr>) = Some s'"
      "map_of (components s') sid = Some (sweep_component T now c2)" "sk_max_packet_size s' = sk_max_packet_size s"
      "sock_ok T now (s'\<lparr>shard_recv_state := None\<rparr>)"
      by blast
    have "packet_at D A B n dl pix (insert i R) (sweep_component T now c2)"
      using sweep_lookup [OF c2(1,2) not_expired [OF now p2d(1)]] h2 p2d by (simp add: packet_at_def)
    moreover have "finish_shard recv ins powf cfg T now ?st s r = Some (Inr (), s'\<lparr>shard_recv_state := None\<rparr>, r')"
      unfolding fin using nc s'(1) by simp
    ultimately show ?thesis using s'(2,3,4) r'(2,3) False s(3) c2(3)
      by (intro exI [of _ "s'\<lparr>shard_recv_state := None\<rparr>"] exI [of _ r'] exI [of _ "sweep_component T now c2"] conjI) simp_all
  qed
qed

end


context socket_reader begin

lemma recv_shard_ok:
  fixes s :: "'t stream_socket"
  assumes T: "tai_ok T" and ins: "ins_ok ins" and f: "frame_ok cfg T D A B n tx dl" and i: "i < n"
    and s: "sock_ok T now s" "sk_max_packet_size s = D + 22"
    and c: "map_of (components s) sid = Some c" "packet_at D A B n dl pix R c" "R \<subseteq> {..<n}"
    and r: "pending r = shard_msg D A sid pix n tx B i # ms" and now: "in_time T dl now"
  shows "\<exists>s' r' c'. recv_shard recv peek_prefix ins powf cfg T now s r = Some (Inr (), s', r') \<and>
    pending r' = ms \<and> alive r' = alive r \<and> sock_ok T now s' \<and> sk_max_packet_size s' = D + 22 \<and>
    map_of (components s') sid = Some c' \<and>
    (if insert i R = {..<n}
     then \<exists>q. packet_queue c' = packet_queue c @ [q] \<and> delivered A B pix q
     else packet_queue c' = packet_queue c \<and> packet_at D A B n dl pix (insert i R) c')"
proof -
  let ?l = "shard_end D A i - i * D"
  let ?st = "shard_state ?l sid pix n i dl :: 't recv_state"
  note fi = frame_shard [OF f i]
  have B: "A \<le> length B" and n: "n < 2 ^ 32" and dl: "frame_deadline_of cfg T tx = Some dl"
    using f by (simp_all add: frame_ok_def)
  have st: "stats_ok T now s" "shard_recv_state s = None" "\<forall>e\<in>set (components s). comp_ok (snd e)"
    using s(1) by (simp_all add: sock_ok_def)
  let ?rest = "slice (i * D + 22) (shard_end D A i) B"
  have l: "22 + length ?rest = ?l" using fi(1,5) B by (auto simp: shard_end_def)
  from begin_shard_ok [OF T st(1) r [unfolded shard_msg_def] l fi(6) n fi(3) dl] obtain s1 r1 where
    b: "begin_shard peek_prefix cfg T now s r = Some (Some (?st, s1\<lparr>shard_recv_state := Some ?st\<rparr>), r1)"
    "pending r1 = pending r" "alive r1 = alive r" "same_streams s s1" "stats_ok T now s1"
    by blast
  let ?s = "s1\<lparr>shard_recv_state := Some ?st\<rparr>"
  have s1: "stats_ok T now ?s" "components ?s = components s" "sk_max_packet_size ?s = D + 22"
    using b(4,5) s(2) by (simp_all add: stats_ok_def same_streams_def)
  have "recv_shard recv peek_prefix ins powf cfg T now s r = finish_shard recv ins powf cfg T now ?st ?s r1"
    using st(2) b(1) by (simp add: recv_shard_def)
  with finish_shard_ok [OF T ins f i s1(1) _ s1(3) _ c(2,3) _ now, of sid r1 ms powf] st(3) c(1) r b(2,3) s1(2)
  show ?thesis by simp
qed

end

text \<open>A caller that polls the socket at a sequence of instants.\<close>

fun recv_run ::
  "(bytes \<Rightarrow> 'r \<Rightarrow> nat con_result \<times> bytes \<times> 'r) \<Rightarrow> (bytes \<Rightarrow> nat \<Rightarrow> 'r \<Rightarrow> nat con_result \<times> bytes \<times> 'r) \<Rightarrow>
     't hash_insert \<Rightarrow> (f32 \<Rightarrow> f32 \<Rightarrow> f32) \<Rightarrow> settings \<Rightarrow> 't tai \<Rightarrow> 't list \<Rightarrow> 't stream_socket \<Rightarrow> 'r \<Rightarrow>
     ('t stream_socket \<times> 'r) option" where
  "recv_run recv peek_prefix ins powf cfg T [] s r = Some (s, r)"
| "recv_run recv peek_prefix ins powf cfg T (now # nows) s r = do {
     (res, s, r) \<leftarrow> recv_shard recv peek_prefix ins powf cfg T now s r;
     recv_run recv peek_prefix ins powf cfg T nows s r
   }"

fun ascending :: "'t tai \<Rightarrow> 't \<Rightarrow> 't list \<Rightarrow> bool" where
  "ascending T t [] \<longleftrightarrow> True"
| "ascending T t (u # us) \<longleftrightarrow> tai_le T t u \<and> ascending T u us"

context socket_reader begin

lemma recv_run_ok:
  fixes s :: "'t stream_socket"
  assumes T: "tai_ok T" and ins: "ins_ok ins" and f: "frame_ok cfg T D A B n tx dl"
    and "sock_ok T t0 s" "sk_max_packet_size s = D + 22" "ascending T t0 nows" "\<forall>t\<in>set nows. in_time T dl t"
    and "map_of (components s) sid = Some c" "packet_at D A B n dl pix R c" "R \<inter> set is = {}" "distinct is"
    and "R \<union> set is = {..<n}" "is \<noteq> []" "length nows = length is"
    and "pending r = map (shard_msg D A sid pix n tx B) is"
  shows "\<exists>s' r' c' q. recv_run recv peek_prefix ins powf cfg T nows s r = Some (s', r') \<and> pending r' = [] \<and>
    map_of (components s') sid = Some c' \<and> packet_queue c' = packet_queue c @ [q] \<and> delivered A B pix q"
  using assms(4-)
proof (induction "is" arbitrary: nows s r c R t0)
  case (Cons i js)
  from Cons.prems(11) obtain now nows' where nows: "nows = now # nows'" "length nows' = length js"
    by (cases nows) auto
  have i: "i < n" and Rn: "R \<subseteq> {..<n}" using Cons.prems(9) by auto
  have "tai_le T t0 now" using Cons.prems(3) nows by simp
  then have so: "sock_ok T now s" using Cons.prems(1) stats_ok_later [OF T] by (auto simp: sock_ok_def)
  have it: "in_time T dl now" using Cons.prems(4) nows by simp
  have pr: "pending r = shard_msg D A sid pix n tx B i # map (shard_msg D A sid pix n tx B) js"
    using Cons.prems(12) by simp
  from recv_shard_ok [OF T ins f i so Cons.prems(2,5,6) Rn pr it, of powf] obtain s1 r1 c1 where
    s1: "recv_shard recv peek_prefix ins powf cfg T now s r = Some (Inr (), s1, r1)"
    "pending r1 = map (shard_msg D A sid pix n tx B) js" "sock_ok T now s1" "sk_max_packet_size s1 = D + 22"
    "map_of (components s1) sid = Some c1"
    and c1: "if insert i R = {..<n}
     then \<exists>q. packet_queue c1 = packet_queue c @ [q] \<and> delivered A B pix q
     else packet_queue c1 = packet_queue c \<and> packet_at D A B n dl pix (insert i R) c1"
    by blast
  show ?case
  proof (cases "js = []")
    case True
    then have "insert i R = {..<n}" using Cons.prems(9) by auto
    with c1 s1 nows True show ?thesis by auto
  next
    case False
    then obtain j where j: "j \<in> set js" by (cases js) auto
    have "j \<notin> insert i R" using j Cons.prems(7,8) by auto
    moreover have "j \<in> {..<n}" using j unfolding Cons.prems(9) [symmetric] by simp
    ultimately have ne: "insert i R \<noteq> {..<n}" by blast
    have "\<exists>s' r' c' q. recv_run recv peek_prefix ins powf cfg T nows' s1 r1 = Some (s', r') \<and> pending r' = [] \<and>
      map_of (components s') sid = Some c' \<and> packet_queue c' = packet_queue c1 @ [q] \<and> delivered A B pix q"
    proof (rule Cons.IH [OF s1(3,4) _ _ s1(5)])
      show "ascending T now nows'" "\<forall>t\<in>set nows'. in_time T dl t" using Cons.prems(3,4) nows by simp_all
      show "packet_at D A B n dl pix (insert i R) c1" using c1 ne by simp
      show "insert i R \<inter> set js = {}" "distinct js" "insert i R \<union> set js = {..<n}" using Cons.prems(7-9) by auto
    qed (use False nows s1(2) in simp_all)
    with c1 ne s1(1) nows show ?thesis by auto
  qed
qed simp

end


section \<open>Sender to receiver\<close>

lemma permuted_image:
  "mset ys = image_mset f (mset xs) \<Longrightarrow> \<exists>zs. mset zs = mset xs \<and> ys = map f zs"
proof (induction ys arbitrary: xs)
  case (Cons y ys)
  then have "y \<in># image_mset f (mset xs)" by (metis list.set_intros(1) set_mset_mset)
  then obtain x where x: "x \<in> set xs" "y = f x" by auto
  define xs' where "xs' = remove1 x xs"
  have m: "mset xs = add_mset x (mset xs')" using x(1) by (simp add: xs'_def)
  with Cons.prems x(2) have "mset ys = image_mset f (mset xs')" by simp
  from Cons.IH [OF this] obtain zs where "mset zs = mset xs'" "ys = map f zs" by blast
  with m x(2) show ?case by (intro exI [of _ "x # zs"]) simp
qed simp

text \<open>C13. A packet sent over a stream and received over the other end of the channel arrives intact whatever
  the order in which its shards are delivered. The packet has a payload of fewer than \<open>2 ^ 24\<close> bytes; sender and
  receiver use the same packet size, of at most 16000 bytes; the deadline of a frame counts from its sending
  (the setting that counts from the first shard is off); and the messages in transit are the shards of this
  packet, no part of which has arrived yet. If the shards that \<^verbatim>\<open>send\<close> emitted all arrive before the
  deadline of their frame, then polling the socket once per shard neither panics nor diverges, consumes every
  message, and queues exactly one packet for the stream's receiver, with the index, the size and the payload
  bytes that were sent.\<close>

theorem shards_reassemble:
  assumes T: "tai_ok T" and ins: "ins_ok ins"
    and ss: "ss_max_packet_size ss = D + 22" "0 < D" "D + 22 \<le> MAX_PACKET_SIZE_RECV"
    and A: "A = hidden_offset buffer + pb_length buffer" "22 < A" "A - 22 < 2 ^ 24" "A \<le> length (pb_inner buffer)"
    and tx: "tai_checked_since T t0 (ss_ref_time ss) = Some d"
    and dl: "frame_deadline_of cfg T (as_secs_f32 d) = Some dl" "\<not> anchor_first cfg"
    and send: "send T buffer t0 ss \<lparr>chan_msgs = [], chan_open = True\<rparr> = Some (ss', out)"
    and net: "mset (br_pending r) = mset (chan_msgs out)"
    and sock: "sock_ok T t s" "sk_max_packet_size s = D + 22" "map_of (components s) (ss_stream_id ss) = Some c"
      "map_of (in_progress_packets c) (ss_next_packet_index ss) = None"
    and times: "ascending T t nows" "\<forall>u\<in>set nows. in_time T dl u" "length nows = length (chan_msgs out)"
  shows "\<exists>s' r' c' q. recv_run br_recv br_peek_prefix ins powf cfg T nows s r = Some (s', r') \<and> br_pending r' = [] \<and>
    map_of (components s') (ss_stream_id ss) = Some c' \<and> packet_queue c' = packet_queue c @ [q] \<and>
    rp_index q = ss_next_packet_index ss \<and> rp_size q = A \<and>
    slice 22 A (rp_buffer q) = slice 22 A (pb_inner buffer)"
proof -
  let ?n = "ceil_div (A - 22) D"
  let ?m = "shard_msg D A (ss_stream_id ss) (ss_next_packet_index ss) ?n (as_secs_f32 d) (pb_inner buffer)"
  have "D < 2 ^ 24" using ss(3) by (simp add: MAX_PACKET_SIZE_RECV_def)
  then have msgs: "chan_msgs out = map ?m [0..<?n]"
    using send_emits [OF ss(1,2) _ A tx, of "\<lparr>chan_msgs = [], chan_open = True\<rparr>"] send by auto
  obtain js where js: "mset js = mset [0..<?n]" "br_pending r = map ?m js"
    using permuted_image [of "br_pending r" ?m "[0..<?n]"] net msgs by auto
  have set_js: "set js = {..<?n}" "distinct js" "length js = ?n"
    using js(1) by (metis atLeast_upt mset_eq_setD, metis distinct_upt mset_eq_imp_distinct_iff,
      metis diff_zero length_upt mset_eq_length)
  have ne: "js \<noteq> []" using set_js(3) ceil_div_pos [of "A - 22" D] ss(2) A(2) by auto
  have n: "0 < ?n" "?n \<le> A - 22" using ceil_div_pos [of "A - 22" D] ceil_div_le [of D "A - 22"] ss(2) A(2) by simp_all
  then have f: "frame_ok cfg T D A (pb_inner buffer) ?n (as_secs_f32 d) dl"
    using ss A dl by (simp add: frame_ok_def MAX_PACKET_SIZE_RECV_def)
  have "packet_at D A (pb_inner buffer) ?n dl (ss_next_packet_index ss) {} c" using sock(4) by (simp add: packet_at_def)
  from br.recv_run_ok [OF T ins f sock(1,2) times(1,2) sock(3) this _ set_js(2) _ _ _ js(2), of powf] ne set_js msgs times(3)
  show ?thesis by (auto simp: delivered_def)
qed

lemma alist_update_fresh: "k \<notin> fst ` set l \<Longrightarrow> AList.update k v l = l @ [(k, v)]"
  by (induction l) auto

theorem shards_reassemble_witness:
  "\<exists>s' r' c' q. recv_run br_recv br_peek_prefix AList.update (\<lambda>x y. x)
      \<lparr>client_deadline = 50, anchor_first = False, nada_fix = False\<rparr> nat_tai [5, 6, 6]
      (subscribe_to_stream 3 2 (socket_build nat_tai 30))
      (br_new \<lparr>chan_msgs = map (shard_msg 8 40 3 0 3 (as_secs_f32 3) (replicate 40 7)) [2, 0, 1], chan_open = True\<rparr>) =
      Some (s', r') \<and> br_pending r' = [] \<and>
    map_of (components s') 3 = Some c' \<and> packet_queue c' = [q] \<and> rp_index q = 0 \<and> rp_size q = 40 \<and>
    slice 22 40 (rp_buffer q) = replicate 18 7"
proof -
  let ?ss = "request_stream 30 3 2 :: nat stream_sender"
  let ?b = "\<lparr>pb_inner = replicate 40 7, hidden_offset = 22, pb_length = 18\<rparr>"
  let ?cfg = "\<lparr>client_deadline = 50, anchor_first = False, nada_fix = False\<rparr>"
  let ?s = "subscribe_to_stream 3 2 (socket_build nat_tai 30)"
  let ?m = "shard_msg 8 40 3 0 3 (as_secs_f32 3) (replicate 40 7)"
  let ?r = "br_new \<lparr>chan_msgs = map ?m [2, 0, 1], chan_open = True\<rparr>"
  have T: "tai_ok nat_tai" by (auto simp: tai_ok_def nat_tai_def)
  have I: "ins_ok AList.update" by (auto simp: ins_ok_def alist_update_fresh)
  have u: "[0..<3] = [0, 1, 2]" by code_simp
  obtain ss' out where send: "send nat_tai ?b 5 ?ss \<lparr>chan_msgs = [], chan_open = True\<rparr> = Some (ss', out)"
    "chan_msgs out = map ?m [0, 1, 2]"
    using send_emits [of ?ss 8 40 ?b nat_tai 5 3 "\<lparr>chan_msgs = [], chan_open = True\<rparr>"]
    by (auto simp: request_stream_def nat_tai_def ceil_div_def u)
  have dl: "frame_deadline_of ?cfg nat_tai (as_secs_f32 3) = Some (Some 53)" by code_simp
  let ?c = "\<lparr>used_buffers = replicate 2 [], packet_queue = [], in_progress_packets = [], discarded_shards_sink = empty_sink\<rparr> :: nat stream_recv_components"
  have "\<exists>s' r' c' q. recv_run br_recv br_peek_prefix AList.update (\<lambda>x y. x) ?cfg nat_tai [5, 6, 6] ?s ?r = Some (s', r') \<and>
    br_pending r' = [] \<and> map_of (components s') (ss_stream_id ?ss) = Some c' \<and> packet_queue c' = packet_queue ?c @ [q] \<and>
    rp_index q = ss_next_packet_index ?ss \<and> rp_size q = 40 \<and> slice 22 40 (rp_buffer q) = slice 22 40 (pb_inner ?b)"
    by (rule shards_reassemble [OF T I _ _ _ _ _ _ _ _ dl _ send(1), where D = 8 and t = 5])
      (simp_all add: request_stream_def nat_tai_def send(2) br_pending_def br_new_def sock_ok_def stats_ok_def rx_ok_def
        comp_ok_def losses_ok_def subscribe_to_stream_def socket_build_def in_time_def MAX_PACKET_SIZE_RECV_def)
  moreover have "slice 22 40 (pb_inner ?b) = replicate 18 7" by (simp add: slice_def)
  ultimately show ?thesis by (simp del: recv_run.simps add: request_stream_def)
qed

end
