(* ===== verification/Mpsc_Queue.thy ===== *)
theory Mpsc_Queue
  imports Prelude
begin

text \<open>
  The bounded multi-producer single-consumer queue behind every mailbox,
  \<^verbatim>\<open>asynchronix/src/channel/queue.rs\<close>. The loop of \<^verbatim>\<open>push\<close>, \<^verbatim>\<open>pop\<close> and the drop of a borrowed message
  are split at their accesses to shared memory, and any number of producers, one consumer and calls of
  \<^verbatim>\<open>close\<close> are interleaved at these points, each access taking effect at once and in one order for all
  threads. Positions and stamps are 64-bit words. An \<^verbatim>\<open>unreachable!\<close>, an index out of range and a failed
  debug assertion are panic states.
\<close>

section \<open>Queue and slots\<close>

text \<open>The recycled boxes carry no information: \<^verbatim>\<open>Vacated\<close> holds an empty one.\<close>

datatype 'm message_box = Populated 'm | Vacated | NoBox

record 'm slot =
  stamp :: u64
  message :: "'m message_box"

record 'm queue =
  enqueue_pos :: u64
  dequeue_pos :: u64
  buffer :: "'m slot list"
  right_mask :: u64
  closed_channel_mask :: u64

function next_pow2_from :: "nat \<Rightarrow> nat \<Rightarrow> nat" where
  "next_pow2_from n p = (if p = 0 \<or> n \<le> p then p else next_pow2_from n (2 * p))"
  by pat_completeness auto

termination next_pow2_from
  by (relation "measure (\<lambda>(n, p). n - p)") auto

declare next_pow2_from.simps [simp del]

definition next_power_of_two :: "nat \<Rightarrow> nat" where
  "next_power_of_two n = next_pow2_from n 1"

definition queue_new :: "nat \<Rightarrow> 'm queue option" where
  "queue_new capacity = do {
     assert_opt (1 \<le> capacity);
     assert_opt (capacity \<le> 2 ^ 63);
     let closed_mask = word_of_nat (next_power_of_two capacity);
     Some \<lparr>enqueue_pos = 0, dequeue_pos = 0,
       buffer = map (\<lambda>i. \<lparr>stamp = word_of_nat i, message = Vacated\<rparr>) [0..<capacity],
       right_mask = push_bit 1 closed_mask - 1, closed_channel_mask = closed_mask\<rparr>
   }"

definition next_queue_pos :: "'m queue \<Rightarrow> u64 \<Rightarrow> u64" where
  "next_queue_pos q queue_pos =
     (let new_queue_pos = queue_pos + 1;
          new_index = new_queue_pos AND right_mask q
      in if unat new_index < length (buffer q) then new_queue_pos
         else (queue_pos AND NOT (right_mask q)) + (right_mask q + 1))"

definition queue_close :: "'m queue \<Rightarrow> 'm queue" where
  "queue_close q = q\<lparr>enqueue_pos := enqueue_pos q OR closed_channel_mask q\<rparr>"

definition is_closed :: "'m queue \<Rightarrow> bool" where
  "is_closed q \<longleftrightarrow> enqueue_pos q AND closed_channel_mask q \<noteq> 0"

definition slot_index :: "'m queue \<Rightarrow> u64 \<Rightarrow> nat" where
  "slot_index q pos = unat (pos AND right_mask q)"

definition set_slot :: "nat \<Rightarrow> 'm slot \<Rightarrow> 'm queue \<Rightarrow> 'm queue" where
  "set_slot i sl q = q\<lparr>buffer := (buffer q)[i := sl]\<rparr>"

section \<open>Pushing\<close>

datatype 'm push_error = Full 'm | Closed

text \<open>Where a producer stands in \<^verbatim>\<open>push\<close>, between two accesses to shared memory: about to load the enqueue
  position; at the top of the loop with a position; about to compare and exchange; about to write the slot
  it reserved; about to publish its stamp; returned; panicked.\<close>

datatype 'm producer =
  P_load 'm
| P_loop u64 'm
| P_exchange u64 u64 'm
| P_write u64 u64 'm
| P_publish u64 u64
| P_done "'m push_error + unit"
| P_panic

text \<open>What a step makes visible: the reservation of a slot for a message, the message handed to the consumer,
  the recycling of its slot, and the verdicts of the calls that fail.\<close>

datatype 'm event = Tau | Reserved 'm | PushRefused "'m push_error" | Popped 'm | Released | PopRefused bool | CloseCall

text \<open>The top of the loop: the test of the closed flag, the load of the stamp and the comparison.\<close>

definition push_check :: "'m queue \<Rightarrow> u64 \<Rightarrow> 'm \<Rightarrow> 'm producer" where
  "push_check q pos msg =
     (if pos AND closed_channel_mask q \<noteq> 0 then P_done (Inl Closed)
      else case nth_opt (buffer q) (slot_index q pos) of
          None \<Rightarrow> P_panic
        | Some sl \<Rightarrow>
            (case cmp (sint (stamp sl - pos)) 0 of
               Equal \<Rightarrow> P_exchange pos (stamp sl) msg
             | Less \<Rightarrow> P_done (Inl (Full msg))
             | Greater \<Rightarrow> P_load msg))"

text \<open>The weak exchange may fail spuriously. The debug assertion of \<^verbatim>\<open>next_queue_pos\<close> precedes it.\<close>

definition push_exchange :: "bool \<Rightarrow> 'm queue \<Rightarrow> u64 \<Rightarrow> u64 \<Rightarrow> 'm \<Rightarrow> 'm queue \<times> 'm producer \<times> 'm event" where
  "push_exchange spurious q pos st msg =
     (if pos AND closed_channel_mask q \<noteq> 0 then (q, P_panic, Tau)
      else if enqueue_pos q = pos \<and> \<not> spurious
      then (q\<lparr>enqueue_pos := next_queue_pos q pos\<rparr>, P_write pos st msg, Reserved msg)
      else (q, P_loop (enqueue_pos q) msg, Tau))"

definition push_write :: "'m queue \<Rightarrow> u64 \<Rightarrow> u64 \<Rightarrow> 'm \<Rightarrow> 'm queue \<times> 'm producer" where
  "push_write q pos st msg =
     (case nth_opt (buffer q) (slot_index q pos) of
        None \<Rightarrow> (q, P_panic)
      | Some sl \<Rightarrow>
          (case message sl of
             Vacated \<Rightarrow> (set_slot (slot_index q pos) (sl\<lparr>message := Populated msg\<rparr>) q, P_publish pos st)
           | _ \<Rightarrow> (set_slot (slot_index q pos) (sl\<lparr>message := NoBox\<rparr>) q, P_panic)))"

definition push_publish :: "'m queue \<Rightarrow> u64 \<Rightarrow> u64 \<Rightarrow> 'm queue \<times> 'm producer" where
  "push_publish q pos st =
     (case nth_opt (buffer q) (slot_index q pos) of
        None \<Rightarrow> (q, P_panic)
      | Some sl \<Rightarrow> (set_slot (slot_index q pos) (sl\<lparr>stamp := st + 1\<rparr>) q, P_done (Inr ())))"

fun producer_step :: "bool \<Rightarrow> 'm queue \<Rightarrow> 'm producer \<Rightarrow> ('m queue \<times> 'm producer \<times> 'm event) option" where
  "producer_step spurious q (P_load msg) = Some (q, P_loop (enqueue_pos q) msg, Tau)"
| "producer_step spurious q (P_loop pos msg) =
     (case push_check q pos msg of
        P_done (Inl e) \<Rightarrow> Some (q, P_done (Inl e), PushRefused e)
      | p \<Rightarrow> Some (q, p, Tau))"
| "producer_step spurious q (P_exchange pos st msg) = Some (push_exchange spurious q pos st msg)"
| "producer_step spurious q (P_write pos st msg) = (case push_write q pos st msg of (q, p) \<Rightarrow> Some (q, p, Tau))"
| "producer_step spurious q (P_publish pos st) = (case push_publish q pos st of (q, p) \<Rightarrow> Some (q, p, Tau))"
| "producer_step spurious q (P_done r) = None"
| "producer_step spurious q P_panic = None"

section \<open>Popping\<close>

datatype pop_error = PopEmpty | PopClosed

text \<open>Where the consumer stands in \<^verbatim>\<open>pop\<close> and in the drop of the message it borrowed.\<close>

datatype 'm consumer =
  C_idle "pop_error option"
| C_take u64 u64
| C_check u64
| C_borrow 'm nat u64
| C_release nat u64
| C_panic

definition pop_load :: "'m queue \<Rightarrow> 'm consumer" where
  "pop_load q =
     (let pos = dequeue_pos q
      in case nth_opt (buffer q) (slot_index q pos) of
           None \<Rightarrow> C_panic
         | Some sl \<Rightarrow>
             if pos \<noteq> stamp sl then (if stamp sl = pos + 1 then C_take pos (stamp sl) else C_panic)
             else C_check pos)"

definition pop_take :: "'m queue \<Rightarrow> u64 \<Rightarrow> u64 \<Rightarrow> 'm queue \<times> 'm consumer \<times> 'm event" where
  "pop_take q pos st =
     (if pos AND closed_channel_mask q \<noteq> 0 then (q, C_panic, Tau)
      else case nth_opt (buffer q) (slot_index q pos) of
        None \<Rightarrow> (q, C_panic, Tau)
      | Some sl \<Rightarrow>
          (let i = slot_index q pos;
               q' = set_slot i (sl\<lparr>message := NoBox\<rparr>) (q\<lparr>dequeue_pos := next_queue_pos q pos\<rparr>)
           in case message sl of
                Populated msg \<Rightarrow> (q', C_borrow msg i (st + right_mask q), Popped msg)
              | _ \<Rightarrow> (q', C_panic, Tau)))"

definition pop_check :: "'m queue \<Rightarrow> u64 \<Rightarrow> pop_error" where
  "pop_check q pos = (if enqueue_pos q = pos OR closed_channel_mask q then PopClosed else PopEmpty)"

definition borrow_vacate :: "'m queue \<Rightarrow> nat \<Rightarrow> u64 \<Rightarrow> 'm queue \<times> 'm consumer" where
  "borrow_vacate q i st =
     (case nth_opt (buffer q) i of
        None \<Rightarrow> (q, C_panic)
      | Some sl \<Rightarrow> (set_slot i (sl\<lparr>message := Vacated\<rparr>) q, C_release i st))"

definition borrow_release :: "'m queue \<Rightarrow> nat \<Rightarrow> u64 \<Rightarrow> 'm queue \<times> 'm consumer" where
  "borrow_release q i st =
     (case nth_opt (buffer q) i of
        None \<Rightarrow> (q, C_panic)
      | Some sl \<Rightarrow> (set_slot i (sl\<lparr>stamp := st\<rparr>) q, C_idle None))"

fun consumer_step :: "'m queue \<Rightarrow> 'm consumer \<Rightarrow> ('m queue \<times> 'm consumer \<times> 'm event) option" where
  "consumer_step q (C_idle r) = Some (q, pop_load q, Tau)"
| "consumer_step q (C_take pos st) = Some (pop_take q pos st)"
| "consumer_step q (C_check pos) =
     (let e = pop_check q pos in Some (q, C_idle (Some e), PopRefused (e = PopClosed)))"
| "consumer_step q (C_borrow msg i st) = (case borrow_vacate q i st of (q, c) \<Rightarrow> Some (q, c, Tau))"
| "consumer_step q (C_release i st) = (case borrow_release q i st of (q, c) \<Rightarrow> Some (q, c, Released))"
| "consumer_step q C_panic = None"

section \<open>Concurrent execution\<close>

text \<open>Any number of producers and one consumer, interleaved at every access to shared memory. A producer that
  has returned may push again; anybody may close the queue at any time.\<close>

record ('t, 'm) config =
  cf_queue :: "'m queue"
  producers :: "'t \<Rightarrow> 'm producer"
  consumer :: "'m consumer"

inductive queue_step :: "('t, 'm) config \<Rightarrow> 'm event \<Rightarrow> ('t, 'm) config \<Rightarrow> bool" where
  push_call: "producers s t = P_done r \<Longrightarrow>
     queue_step s Tau (s\<lparr>producers := (producers s)(t := P_load msg)\<rparr>)"
| push_step: "producer_step spurious (cf_queue s) (producers s t) = Some (q, p, ev) \<Longrightarrow>
     queue_step s ev (s\<lparr>cf_queue := q, producers := (producers s)(t := p)\<rparr>)"
| pop_step: "consumer_step (cf_queue s) (consumer s) = Some (q, c, ev) \<Longrightarrow>
     queue_step s ev (s\<lparr>cf_queue := q, consumer := c\<rparr>)"
| close_call: "queue_step s CloseCall (s\<lparr>cf_queue := queue_close (cf_queue s)\<rparr>)"

inductive queue_run :: "('t, 'm) config \<Rightarrow> 'm event list \<Rightarrow> ('t, 'm) config \<Rightarrow> bool" where
  run_none: "queue_run s [] s"
| run_step: "queue_run s tr s' \<Longrightarrow> queue_step s' ev s'' \<Longrightarrow> queue_run s (tr @ [ev]) s''"

definition queue_start :: "'m queue \<Rightarrow> ('t, 'm) config" where
  "queue_start q = \<lparr>cf_queue = q, producers = \<lambda>t. P_done (Inr ()), consumer = C_idle None\<rparr>"

definition reserved :: "'m event list \<Rightarrow> 'm list" where
  "reserved tr = List.map_filter (\<lambda>ev. case ev of Reserved m \<Rightarrow> Some m | _ \<Rightarrow> None) tr"

definition popped :: "'m event list \<Rightarrow> 'm list" where
  "popped tr = List.map_filter (\<lambda>ev. case ev of Popped m \<Rightarrow> Some m | _ \<Rightarrow> None) tr"

definition released :: "'m event list \<Rightarrow> nat" where
  "released tr = length (filter (\<lambda>ev. ev = Released) tr)"

section \<open>Positions\<close>

lemma next_pow2_from_bounds:
  "0 < p \<Longrightarrow> p < 2 * n \<Longrightarrow> \<exists>k. next_pow2_from n p = p * 2 ^ k \<and> n \<le> p * 2 ^ k \<and> p * 2 ^ k < 2 * n"
proof (induction n p rule: next_pow2_from.induct)
  case (1 n p)
  show ?case
  proof (cases "n \<le> p")
    case True
    with 1(2,3) show ?thesis by (intro exI [of _ 0]) (simp add: next_pow2_from.simps)
  next
    case False
    with 1(1) 1(2) obtain k where "next_pow2_from n (2 * p) = 2 * p * 2 ^ k \<and> n \<le> 2 * p * 2 ^ k \<and> 2 * p * 2 ^ k < 2 * n"
      by auto
    with False 1(2) show ?thesis by (intro exI [of _ "Suc k"]) (simp add: next_pow2_from.simps [of n p] mult_ac)
  qed
qed

lemma next_power_of_two_bounds:
  assumes "1 \<le> n"
  obtains k where "next_power_of_two n = 2 ^ k" "n \<le> 2 ^ k" "2 ^ k < 2 * n"
  using next_pow2_from_bounds [of 1 n] assms by (auto simp: next_power_of_two_def)

text \<open>The position of the \<open>k\<close>-th message of a ring of \<open>c\<close> slots whose flag is bit \<open>r\<close>.\<close>

definition pos_nat :: "nat \<Rightarrow> nat \<Rightarrow> nat \<Rightarrow> nat" where
  "pos_nat c r k = k div c * 2 ^ Suc r + k mod c"

definition pos_word :: "nat \<Rightarrow> nat \<Rightarrow> nat \<Rightarrow> u64" where
  "pos_word c r k = word_of_nat (pos_nat c r k)"

definition ring_ok :: "nat \<Rightarrow> nat \<Rightarrow> bool" where
  "ring_ok c r \<longleftrightarrow> 1 \<le> c \<and> c \<le> 2 ^ r \<and> 2 ^ r < 2 * c \<and> c \<le> 2 ^ 59"

lemma ring_okD:
  assumes "ring_ok c r"
  shows "0 < c" "c \<le> 2 ^ r" "k mod c < c" "k mod c < 2 ^ r" "r < 60" "c \<le> 2 ^ 59" "2 ^ r < 2 * c"
proof -
  show c: "0 < c" "c \<le> 2 ^ r" "c \<le> 2 ^ 59" "2 ^ r < 2 * c" using assms by (simp_all add: ring_ok_def)
  then show m: "k mod c < c" by simp
  with c show "k mod c < 2 ^ r" by linarith
  have "(2::nat) ^ r < 2 ^ 60" using c by simp
  then show "r < 60" by (rule power_less_imp_less_exp [rotated]) simp
qed

lemma pos_nat_bound:
  assumes "ring_ok c r" "k \<le> 2 ^ 60"
  shows "pos_nat c r k + 1 < 2 ^ 63"
proof -
  note c = ring_okD [OF assms(1)]
  have "k div c * 2 ^ Suc r \<le> k div c * (4 * c)" using c(7) by (intro mult_le_mono) simp_all
  also have "\<dots> \<le> 4 * k" by (metis div_times_less_eq_dividend mult.assoc mult.commute mult_le_mono2)
  finally have "pos_nat c r k < 4 * k + c" using c(3) [of k] by (simp add: pos_nat_def)
  with c(6) assms(2) show ?thesis by simp
qed

lemma pos_nat_step:
  assumes "ring_ok c r" "k < j"
  shows "pos_nat c r k < pos_nat c r j"
proof -
  note c = ring_okD [OF assms(1)]
  consider "k div c = j div c" "k mod c < j mod c" | "k div c < j div c"
    using div_le_mono [of k j c] assms(2) by (metis div_mult_mod_eq le_neq_implies_less less_or_eq_imp_le nat_add_left_cancel_less)
  then show ?thesis
  proof cases
    case 2
    then have "Suc (k div c) * 2 ^ Suc r \<le> j div c * 2 ^ Suc r" by (intro mult_le_mono1) simp
    with c(4) [of k] show ?thesis by (simp add: pos_nat_def)
  qed (simp add: pos_nat_def)
qed

lemma pos_nat_add: "0 < c \<Longrightarrow> pos_nat c r (k + c) = pos_nat c r k + 2 ^ Suc r"
  by (simp add: pos_nat_def div_add_self2)

lemma unat_pos:
  assumes "ring_ok c r" "k \<le> 2 ^ 60"
  shows "unat (pos_word c r k) = pos_nat c r k" "unat (pos_word c r k + 1) = pos_nat c r k + 1"
proof -
  show u: "unat (pos_word c r k) = pos_nat c r k"
    using pos_nat_bound [OF assms] by (simp add: pos_word_def unat_of_nat)
  show "unat (pos_word c r k + 1) = pos_nat c r k + 1"
    using pos_nat_bound [OF assms] u by (simp add: unat_word_ariths)
qed

lemma pos_word_inj:
  assumes "ring_ok c r" "k \<le> 2 ^ 60" "j \<le> 2 ^ 60"
  shows "pos_word c r k = pos_word c r j \<longleftrightarrow> k = j"
  using pos_nat_step [OF assms(1), of k j] pos_nat_step [OF assms(1), of j k] unat_pos(1) [OF assms(1)] assms(2,3)
  by (metis less_irrefl linorder_neqE_nat)

lemma pos_bits:
  assumes "ring_ok c r" "k \<le> 2 ^ 60"
  shows "unat (pos_word c r k AND (2 ^ Suc r - 1)) = k mod c" "\<not> bit (pos_word c r k) r"
proof -
  note c = ring_okD [OF assms(1)]
  have "pos_word c r k AND (2 ^ Suc r - 1) = take_bit (Suc r) (pos_word c r k)"
    by (metis mask_eq_exp_minus_1 take_bit_eq_mask)
  then have "unat (pos_word c r k AND (2 ^ Suc r - 1)) = take_bit (Suc r) (pos_nat c r k)"
    using unat_pos(1) [OF assms] by (simp add: unsigned_take_bit_eq)
  also have "\<dots> = k mod c" using c(4) [of k] by (simp add: take_bit_eq_mod pos_nat_def)
  finally show "unat (pos_word c r k AND (2 ^ Suc r - 1)) = k mod c" .
  have "pos_nat c r k div 2 ^ r = k div c * 2" using c(4) [of k] by (simp add: pos_nat_def div_add1_eq mult.assoc [symmetric])
  then have "\<not> bit (pos_nat c r k) r" by (simp add: bit_iff_odd)
  then show "\<not> bit (pos_word c r k) r" by (simp add: bit_unsigned_iff flip: unat_pos(1) [OF assms])
qed

lemma pos_first: "ring_ok c r \<Longrightarrow> k < c \<Longrightarrow> pos_word c r k = word_of_nat k"
  by (simp add: pos_word_def pos_nat_def)

text \<open>The closed flag.\<close>

definition closed_word :: "nat \<Rightarrow> nat \<Rightarrow> nat \<Rightarrow> u64" where
  "closed_word c r k = pos_word c r k OR 2 ^ r"

lemma closed_facts:
  assumes "ring_ok c r" "k \<le> 2 ^ 60" "j \<le> 2 ^ 60"
  shows "bit (closed_word c r k) r" "closed_word c r k OR 2 ^ r = closed_word c r k"
    "closed_word c r k \<noteq> pos_word c r j" "closed_word c r k = closed_word c r j \<longleftrightarrow> k = j"
proof -
  have r: "r < 64" using ring_okD(5) [OF assms(1)] by simp
  show b: "bit (closed_word c r k) r" using r by (simp add: closed_word_def bit_or_iff bit_exp_iff)
  show "closed_word c r k OR 2 ^ r = closed_word c r k" by (simp add: closed_word_def or.assoc)
  show "closed_word c r k \<noteq> pos_word c r j" using b pos_bits(2) [OF assms(1,3)] by metis
  have "pos_word c r k = pos_word c r j" if "closed_word c r k = closed_word c r j"
  proof (rule bit_word_eqI)
    fix n assume "n < LENGTH(64)"
    have "bit (closed_word c r k) n = bit (closed_word c r j) n" using that by simp
    then show "bit (pos_word c r k) n = bit (pos_word c r j) n"
      using pos_bits(2) [OF assms(1,2)] pos_bits(2) [OF assms(1,3)]
      by (cases "n = r") (auto simp: closed_word_def bit_or_iff bit_exp_iff)
  qed
  then show "closed_word c r k = closed_word c r j \<longleftrightarrow> k = j" using pos_word_inj [OF assms] by metis
qed

text \<open>Moving on by one message, and by one lap.\<close>

lemma pos_word_lap:
  assumes "ring_ok c r"
  shows "pos_word c r k + 1 + (2 ^ Suc r - 1) = pos_word c r (k + c)"
  using ring_okD(1) [OF assms] by (simp add: pos_word_def pos_nat_add)

definition ring_queue :: "nat \<Rightarrow> nat \<Rightarrow> 'm queue \<Rightarrow> bool" where
  "ring_queue c r q \<longleftrightarrow> right_mask q = 2 ^ Suc r - 1 \<and> closed_channel_mask q = 2 ^ r \<and> length (buffer q) = c"

lemma pos_word_next:
  assumes "ring_ok c r" "ring_queue c r q" "k < 2 ^ 60"
  shows "next_queue_pos q (pos_word c r k) = pos_word c r (Suc k)"
proof (cases "Suc (k mod c) < c")
  case True
  then have n: "pos_nat c r (Suc k) = pos_nat c r k + 1"
    by (simp add: pos_nat_def mod_Suc div_Suc)
  then have p: "pos_word c r k + 1 = pos_word c r (Suc k)" by (simp add: pos_word_def)
  have "unat ((pos_word c r k + 1) AND (2 ^ Suc r - 1)) < c"
    unfolding p using pos_bits(1) [OF assms(1), of "Suc k"] ring_okD(3) [OF assms(1)] assms(3) by simp
  with assms(2) p show ?thesis by (simp add: next_queue_pos_def ring_queue_def Let_def)
next
  case False
  note c = ring_okD [OF assms(1)]
  have m: "Suc (k mod c) = c" using False c(3) [of k] by simp
  have n: "pos_nat c r (Suc k) = Suc (k div c) * 2 ^ Suc r"
    using m by (simp add: pos_nat_def mod_Suc div_Suc)
  let ?w = "pos_word c r k"
  have "unat ((?w + 1) AND (2 ^ Suc r - 1)) = take_bit (Suc r) (unat (?w + 1))"
    by (metis mask_eq_exp_minus_1 take_bit_eq_mask unsigned_take_bit_eq)
  also have "\<dots> = take_bit (Suc r) (k div c * 2 ^ Suc r + c)"
    using unat_pos(2) [OF assms(1), of k] assms(3) by (subst (3) m [symmetric]) (simp add: pos_nat_def)
  also have "\<dots> = c" using mod_less [of c "2 * 2 ^ r"] c(1,2) by (simp add: take_bit_eq_mod)
  finally have i: "\<not> unat ((?w + 1) AND (2 ^ Suc r - 1)) < c" by simp
  have "?w AND NOT (2 ^ Suc r - 1) = ?w - (?w AND (2 ^ Suc r - 1))"
    using and_not_plus_and [of ?w "2 ^ Suc r - 1"] by (simp add: eq_diff_eq)
  also have "?w AND (2 ^ Suc r - 1) = word_of_nat (k mod c)"
    using arg_cong [OF pos_bits(1) [OF assms(1) less_imp_le [OF assms(3)]], of "word_of_nat :: nat \<Rightarrow> u64"] by simp
  finally have "?w AND NOT (2 ^ Suc r - 1) = word_of_nat (k div c * 2 ^ Suc r)"
    by (simp add: pos_word_def pos_nat_def)
  with i assms(2) show ?thesis
    by (simp add: next_queue_pos_def ring_queue_def Let_def pos_word_def n)
qed

text \<open>Comparing a stamp with a position.\<close>

lemma sint_diff:
  fixes a b :: u64
  assumes "unat a < 2 ^ 63" "unat b < 2 ^ 63"
  shows "sint (a - b) = int (unat a) - int (unat b)"
proof -
  have d: "a - b = word_of_int (int (unat a) - int (unat b))" by simp
  have "sint (a - b) = signed_take_bit 63 (int (unat a) - int (unat b))"
    unfolding d by (subst sint_sbintrunc') simp
  also have "\<dots> = int (unat a) - int (unat b)"
  proof (rule signed_take_bit_int_eq_self)
    have "int (unat a) < 2 ^ 63" "int (unat b) < 2 ^ 63" using assms by (metis of_nat_less_iff of_nat_numeral of_nat_power)+
    then show "- (2 ^ 63) \<le> int (unat a) - int (unat b)" "int (unat a) - int (unat b) < 2 ^ 63" by linarith+
  qed
  finally show ?thesis .
qed

text \<open>The stamp of a slot that waits for, or holds, message \<open>j\<close>, against the position of message \<open>k\<close>.\<close>

lemma stamp_cmp:
  assumes "ring_ok c r" "k \<le> 2 ^ 60" "j \<le> 2 ^ 60" "j mod c = k mod c"
  shows "cmp (sint (pos_word c r j - pos_word c r k)) 0 = cmp j k"
    "cmp (sint (pos_word c r j + 1 - pos_word c r k)) 0 = (if j < k then Less else Greater)"
proof -
  have lap: "pos_nat c r j + 2 \<le> pos_nat c r k" if "j < k"
  proof -
    have "c dvd k - j" using assms(4) that by (metis mod_eq_dvd_iff_nat less_imp_le)
    then have "j + c \<le> k" using that by (metis dvd_imp_le le_diff_conv2 less_imp_le add.commute zero_less_diff)
    then have "pos_nat c r (j + c) \<le> pos_nat c r k"
      using pos_nat_step [OF assms(1), of "j + c" k] by (cases "j + c = k") auto
    moreover have "1 \<le> (2::nat) ^ r" by simp
    ultimately show ?thesis unfolding pos_nat_add [OF ring_okD(1) [OF assms(1)]] power_Suc by linarith
  qed
  note u = unat_pos [OF assms(1,2)] unat_pos [OF assms(1,3)]
  note b = pos_nat_bound [OF assms(1,2)] pos_nat_bound [OF assms(1,3)]
  show "cmp (sint (pos_word c r j - pos_word c r k)) 0 = cmp j k"
    using sint_diff [of "pos_word c r j" "pos_word c r k"] u b lap pos_nat_step [OF assms(1), of k j]
    by (cases j k rule: linorder_cases) (auto simp: cmp_def)
  show "cmp (sint (pos_word c r j + 1 - pos_word c r k)) 0 = (if j < k then Less else Greater)"
    using sint_diff [of "pos_word c r j + 1" "pos_word c r k"] u b lap pos_nat_step [OF assms(1), of k j]
    by (cases j k rule: linorder_cases) (auto simp: cmp_def)
qed

section \<open>Invariant\<close>

text \<open>With \<open>lg\<close> the messages for which a slot was reserved so far and \<open>d\<close> of them handed to the
  consumer: the number of slots that were recycled.\<close>

definition recycled :: "'m consumer \<Rightarrow> nat \<Rightarrow> nat" where
  "recycled co d = (case co of C_borrow m i st \<Rightarrow> d - 1 | C_release i st \<Rightarrow> d - 1 | _ \<Rightarrow> d)"

definition free_slot :: "nat \<Rightarrow> nat \<Rightarrow> nat \<Rightarrow> 'm slot" where
  "free_slot c r k = \<lparr>stamp = pos_word c r k, message = Vacated\<rparr>"

definition written_slot :: "nat \<Rightarrow> nat \<Rightarrow> 'm list \<Rightarrow> nat \<Rightarrow> 'm slot" where
  "written_slot c r lg k = \<lparr>stamp = pos_word c r k, message = Populated (lg ! k)\<rparr>"

definition full_slot :: "nat \<Rightarrow> nat \<Rightarrow> 'm list \<Rightarrow> nat \<Rightarrow> 'm slot" where
  "full_slot c r lg k = \<lparr>stamp = pos_word c r k + 1, message = Populated (lg ! k)\<rparr>"

lemmas slot_defs = free_slot_def written_slot_def full_slot_def

text \<open>The message a producer has reserved a slot for and not published yet.\<close>

fun owns :: "nat \<Rightarrow> nat \<Rightarrow> 'm producer \<Rightarrow> nat \<Rightarrow> bool" where
  "owns c r (P_write pos st m) k \<longleftrightarrow> pos = pos_word c r k"
| "owns c r (P_publish pos st) k \<longleftrightarrow> pos = pos_word c r k"
| "owns c r p k \<longleftrightarrow> False"

fun producer_ok :: "nat \<Rightarrow> nat \<Rightarrow> 'm list \<Rightarrow> nat \<Rightarrow> nat \<Rightarrow> 'm slot list \<Rightarrow> 'm producer \<Rightarrow> bool" where
  "producer_ok c r lg d rel bf (P_loop pos m) \<longleftrightarrow>
     (\<exists>k\<le>length lg. pos = pos_word c r k \<or> pos = closed_word c r k)"
| "producer_ok c r lg d rel bf (P_exchange pos st m) \<longleftrightarrow>
     (\<exists>k\<le>length lg. pos = pos_word c r k \<and> st = pos \<and> k < rel + c)"
| "producer_ok c r lg d rel bf (P_write pos st m) \<longleftrightarrow>
     (\<exists>k<length lg. d \<le> k \<and> pos = pos_word c r k \<and> st = pos \<and> m = lg ! k \<and> bf ! (k mod c) = free_slot c r k)"
| "producer_ok c r lg d rel bf (P_publish pos st) \<longleftrightarrow>
     (\<exists>k<length lg. d \<le> k \<and> pos = pos_word c r k \<and> st = pos \<and> bf ! (k mod c) = written_slot c r lg k)"
| "producer_ok c r lg d rel bf P_panic \<longleftrightarrow> False"
| "producer_ok c r lg d rel bf p \<longleftrightarrow> True"

fun consumer_ok :: "nat \<Rightarrow> nat \<Rightarrow> 'm list \<Rightarrow> nat \<Rightarrow> 'm slot list \<Rightarrow> 'm consumer \<Rightarrow> bool" where
  "consumer_ok c r lg d bf (C_idle e) \<longleftrightarrow> True"
| "consumer_ok c r lg d bf (C_take pos st) \<longleftrightarrow>
     pos = pos_word c r d \<and> st = pos + 1 \<and> d < length lg \<and> bf ! (d mod c) = full_slot c r lg d"
| "consumer_ok c r lg d bf (C_check pos) \<longleftrightarrow> pos = pos_word c r d"
| "consumer_ok c r lg d bf (C_borrow m i st) \<longleftrightarrow>
     0 < d \<and> i = (d - 1) mod c \<and> st = pos_word c r (d - 1 + c) \<and> m = lg ! (d - 1) \<and>
     bf ! i = \<lparr>stamp = pos_word c r (d - 1) + 1, message = NoBox\<rparr>"
| "consumer_ok c r lg d bf (C_release i st) \<longleftrightarrow>
     0 < d \<and> i = (d - 1) mod c \<and> st = pos_word c r (d - 1 + c) \<and>
     bf ! i = \<lparr>stamp = pos_word c r (d - 1) + 1, message = Vacated\<rparr>"
| "consumer_ok c r lg d bf C_panic \<longleftrightarrow> False"

definition queue_inv :: "nat \<Rightarrow> nat \<Rightarrow> 'm list \<Rightarrow> nat \<Rightarrow> ('t, 'm) config \<Rightarrow> bool" where
  "queue_inv c r lg d s \<longleftrightarrow>
     (let q = cf_queue s; e = length lg; rel = recycled (consumer s) d; bf = buffer q
      in ring_queue c r q \<and> (enqueue_pos q = pos_word c r e \<or> enqueue_pos q = closed_word c r e) \<and>
         dequeue_pos q = pos_word c r d \<and> d \<le> e \<and> e \<le> rel + c \<and>
         (\<forall>k. e \<le> k \<longrightarrow> k < rel + c \<longrightarrow> bf ! (k mod c) = free_slot c r k) \<and>
         (\<forall>k. d \<le> k \<longrightarrow> k < e \<longrightarrow> bf ! (k mod c) \<in> {free_slot c r k, written_slot c r lg k, full_slot c r lg k}) \<and>
         (\<forall>t. producer_ok c r lg d rel bf (producers s t)) \<and>
         (\<forall>t t' k. t \<noteq> t' \<longrightarrow> owns c r (producers s t) k \<longrightarrow> \<not> owns c r (producers s t') k) \<and>
         consumer_ok c r lg d bf (consumer s))"

lemma index_pos: "ring_ok c r \<Longrightarrow> ring_queue c r q \<Longrightarrow> k \<le> 2 ^ 60 \<Longrightarrow> slot_index q (pos_word c r k) = k mod c"
  using pos_bits(1) [of c r k] by (simp add: slot_index_def ring_queue_def)

lemma flag_pos:
  assumes "ring_ok c r" "ring_queue c r q" "k \<le> 2 ^ 60"
  shows "pos_word c r k AND closed_channel_mask q = 0" "closed_word c r k AND closed_channel_mask q \<noteq> 0"
    "pos_word c r k OR closed_channel_mask q = closed_word c r k" "closed_word c r k OR closed_channel_mask q = closed_word c r k"
  using pos_bits(2) [OF assms(1,3)] closed_facts(1,2) [OF assms(1,3,3)] bit_flag_test [of r] ring_okD(5) [OF assms(1)] assms(2)
  by (auto simp: ring_queue_def closed_word_def)

lemma nth_slot: "ring_ok c r \<Longrightarrow> ring_queue c r q \<Longrightarrow> nth_opt (buffer q) (k mod c) = Some (buffer q ! (k mod c))"
  by (simp add: nth_opt_def ring_queue_def ring_ok_def)

lemma ring_queue_set [simp]:
  "ring_queue c r (set_slot i sl q) = ring_queue c r q" "ring_queue c r (q\<lparr>enqueue_pos := w\<rparr>) = ring_queue c r q"
  "ring_queue c r (q\<lparr>dequeue_pos := w\<rparr>) = ring_queue c r q"
  by (simp_all add: ring_queue_def set_slot_def)

lemma set_slot_fields [simp]:
  "enqueue_pos (set_slot i sl q) = enqueue_pos q" "dequeue_pos (set_slot i sl q) = dequeue_pos q"
  "buffer (set_slot i sl q) = (buffer q)[i := sl]"
  by (simp_all add: set_slot_def)

text \<open>Messages less than one lap apart lie in different slots.\<close>

lemma same_slot:
  assumes "j mod c = k mod c" "(j::nat) < k + c" "k < j + c"
  shows "j = k"
proof -
  have "c dvd j - k" "c dvd k - j" using assms(1) by (metis mod_eq_dvd_iff_nat diff_is_0_eq dvd_0_right nle_le)+
  then show ?thesis using assms(2,3) by (metis add.commute diff_is_0_eq' dvd_imp_le less_diff_conv2 nat_less_le nle_le not_less zero_less_diff)
qed

text \<open>Writing one slot of the ring leaves the others.\<close>

lemma other_slot:
  assumes "j mod c \<noteq> k mod c"
  shows "bf[j mod c := sl] ! (k mod c) = bf ! (k mod c)"
  using assms by simp

lemma queue_invD:
  assumes "queue_inv c r lg d s"
  shows "ring_queue c r (cf_queue s)"
    "enqueue_pos (cf_queue s) = pos_word c r (length lg) \<or> enqueue_pos (cf_queue s) = closed_word c r (length lg)"
    "dequeue_pos (cf_queue s) = pos_word c r d" "d \<le> length lg" "length lg \<le> recycled (consumer s) d + c"
    "\<And>k. length lg \<le> k \<Longrightarrow> k < recycled (consumer s) d + c \<Longrightarrow> buffer (cf_queue s) ! (k mod c) = free_slot c r k"
    "\<And>k. d \<le> k \<Longrightarrow> k < length lg \<Longrightarrow>
       buffer (cf_queue s) ! (k mod c) \<in> {free_slot c r k, written_slot c r lg k, full_slot c r lg k}"
    "\<And>t. producer_ok c r lg d (recycled (consumer s) d) (buffer (cf_queue s)) (producers s t)"
    "\<And>t t' k. t \<noteq> t' \<Longrightarrow> owns c r (producers s t) k \<Longrightarrow> \<not> owns c r (producers s t') k"
    "consumer_ok c r lg d (buffer (cf_queue s)) (consumer s)"
  using assms unfolding queue_inv_def Let_def by blast+

lemma queue_invI:
  assumes "ring_queue c r (cf_queue s)"
    "enqueue_pos (cf_queue s) = pos_word c r (length lg) \<or> enqueue_pos (cf_queue s) = closed_word c r (length lg)"
    "dequeue_pos (cf_queue s) = pos_word c r d" "d \<le> length lg" "length lg \<le> recycled (consumer s) d + c"
    "\<And>k. length lg \<le> k \<Longrightarrow> k < recycled (consumer s) d + c \<Longrightarrow> buffer (cf_queue s) ! (k mod c) = free_slot c r k"
    "\<And>k. d \<le> k \<Longrightarrow> k < length lg \<Longrightarrow>
       buffer (cf_queue s) ! (k mod c) \<in> {free_slot c r k, written_slot c r lg k, full_slot c r lg k}"
    "\<And>t. producer_ok c r lg d (recycled (consumer s) d) (buffer (cf_queue s)) (producers s t)"
    "\<And>t t' k. t \<noteq> t' \<Longrightarrow> owns c r (producers s t) k \<Longrightarrow> \<not> owns c r (producers s t') k"
    "consumer_ok c r lg d (buffer (cf_queue s)) (consumer s)"
  shows "queue_inv c r lg d s"
  using assms unfolding queue_inv_def Let_def by blast

lemma recycled_le: "consumer_ok c r lg d bf co \<Longrightarrow> recycled co d \<le> d \<and> d \<le> recycled co d + 1"
  by (cases co) (auto simp: recycled_def)

text \<open>A step that changes nothing but the private state of one producer.\<close>

lemma queue_inv_producer:
  assumes "queue_inv c r lg d s" "producer_ok c r lg d (recycled (consumer s) d) (buffer (cf_queue s)) p" "\<And>k. \<not> owns c r p k"
  shows "queue_inv c r lg d (s\<lparr>producers := (producers s)(t := p)\<rparr>)"
  by (rule queue_invI) (use queue_invD [OF assms(1)] assms(2,3) in \<open>auto split: if_splits\<close>)

text \<open>At the top of its loop a producer finds its position closed, its slot free, the queue full, or that
  others went ahead.\<close>

lemma push_check_cases:
  fixes s :: "('t, 'm) config"
  assumes R: "ring_ok c r" and I: "queue_inv c r lg d s" and e: "length lg \<le> 2 ^ 59" and k: "k \<le> length lg"
  shows "push_check (cf_queue s) (closed_word c r k) m = P_done (Inl Closed)"
    "push_check (cf_queue s) (pos_word c r k) m =
       (if k = recycled (consumer s) d + c then P_done (Inl (Full m))
        else if recycled (consumer s) d \<le> k \<and> stamp (buffer (cf_queue s) ! (k mod c)) = pos_word c r k
          then P_exchange (pos_word c r k) (pos_word c r k) m
        else P_load m)"
proof -
  note i = queue_invD [OF I]
  let ?q = "cf_queue s" and ?rel = "recycled (consumer s) d"
  have c: "c \<le> 2 ^ 59" "0 < c" using ring_okD [OF R] by simp_all
  have k60: "k \<le> 2 ^ 60" using k e by simp
  show "push_check ?q (closed_word c r k) m = P_done (Inl Closed)"
    using flag_pos [OF R i(1) k60] by (simp add: push_check_def)
  have pc: "push_check ?q (pos_word c r k) m =
     (case cmp (sint (stamp (buffer ?q ! (k mod c)) - pos_word c r k)) 0 of
        Equal \<Rightarrow> P_exchange (pos_word c r k) (stamp (buffer ?q ! (k mod c))) m
      | Less \<Rightarrow> P_done (Inl (Full m))
      | Greater \<Rightarrow> P_load m)"
    using flag_pos [OF R i(1) k60] index_pos [OF R i(1) k60] nth_slot [OF R i(1)] by (simp add: push_check_def)
  have rel: "?rel \<le> d" "d \<le> ?rel + 1" using recycled_le [OF i(10)] by simp_all
  obtain j where j: "j mod c = k mod c" "?rel \<le> j" "j < ?rel + c"
  proof
    let ?j = "?rel + (k + c - ?rel mod c) mod c"
    show "?rel \<le> ?j" "?j < ?rel + c" using c(2) by simp_all
    have "?j mod c = (?rel + (k + c - ?rel mod c)) mod c" by (simp add: mod_add_right_eq)
    also have "\<dots> = (?rel mod c + (k + c - ?rel mod c)) mod c" by (simp add: mod_add_left_eq)
    also have "?rel mod c + (k + c - ?rel mod c) = k + c" using mod_less_divisor [OF c(2), of ?rel] by linarith
    finally show "?j mod c = k mod c" by simp
  qed
  have j60: "j \<le> 2 ^ 60" using j rel i(4) e c by simp
  have st: "stamp (buffer ?q ! (k mod c)) \<in> {pos_word c r j, pos_word c r j + 1}" unfolding j(1) [symmetric]
  proof (cases "j < d")
    case True
    then have "j = d - 1" "?rel \<noteq> d" using j(2) rel by linarith+
    with i(10) show "stamp (buffer ?q ! (j mod c)) \<in> {pos_word c r j, pos_word c r j + 1}"
      by (cases "consumer s") (auto simp: recycled_def)
  next
    case False
    then show "stamp (buffer ?q ! (j mod c)) \<in> {pos_word c r j, pos_word c r j + 1}"
      using i(6) [of j] i(7) [of j] j(3) by (cases "j < length lg") (auto simp: slot_defs)
  qed
  note cm = stamp_cmp [OF R k60 j60 j(1)]
  have ne: "pos_word c r j + 1 \<noteq> pos_word c r k" using cm(2) by (auto simp: cmp_def split: if_splits)
  consider "k < ?rel" | "k = ?rel + c" | "?rel \<le> k" "k < ?rel + c" using k i(5) by linarith
  then show "push_check ?q (pos_word c r k) m =
       (if k = ?rel + c then P_done (Inl (Full m))
        else if ?rel \<le> k \<and> stamp (buffer ?q ! (k mod c)) = pos_word c r k then P_exchange (pos_word c r k) (pos_word c r k) m
        else P_load m)"
  proof cases
    case 1
    then have "cmp j k = Greater" "\<not> j < k" using j by (simp_all add: cmp_def)
    with 1 st cm show ?thesis unfolding pc by auto
  next
    case 2
    then have "cmp j k = Less" "j < k" using j by (simp_all add: cmp_def)
    with 2 st cm show ?thesis unfolding pc by auto
  next
    case 3
    then have "j = k" using j same_slot [of j c k] by simp
    moreover from this have "cmp j k = Equal" by (simp add: cmp_def)
    ultimately show ?thesis using 3 st cm ne unfolding pc by auto
  qed
qed


lemma producer_ok_append: "producer_ok c r lg d rel bf p \<Longrightarrow> producer_ok c r (lg @ [m]) d rel bf p"
proof (cases p)
  case (P_write pos st m')
  assume "producer_ok c r lg d rel bf p"
  with P_write obtain k where "k < length lg" "d \<le> k" "pos = pos_word c r k" "st = pos" "m' = lg ! k"
    "bf ! (k mod c) = free_slot c r k" by auto
  with P_write show ?thesis by (auto simp: nth_append intro!: exI [of _ k])
next
  case (P_publish pos st)
  assume "producer_ok c r lg d rel bf p"
  with P_publish obtain k where "k < length lg" "d \<le> k" "pos = pos_word c r k" "st = pos"
    "bf ! (k mod c) = written_slot c r lg k" by auto
  with P_publish show ?thesis by (auto simp: nth_append written_slot_def intro!: exI [of _ k])
qed (auto intro: le_SucI)

lemma owns_bound: "producer_ok c r lg d rel bf p \<Longrightarrow> owns c r p k \<Longrightarrow> \<exists>j<length lg. d \<le> j \<and> pos_word c r j = pos_word c r k"
  by (cases p) auto

lemma trace_ends [simp]:
  "reserved [Tau] = []" "popped [Tau] = []" "reserved [Reserved m] = [m]" "popped [Reserved m] = []"
  "reserved [Popped m] = []" "popped [Popped m] = [m]" "reserved [Released] = []" "popped [Released] = []"
  "reserved [PushRefused e] = []" "popped [PushRefused e] = []" "reserved [PopRefused b] = []" "popped [PopRefused b] = []"
  "reserved [CloseCall] = []" "popped [CloseCall] = []"
  by (simp_all add: reserved_def popped_def map_filter_simps)

text \<open>Only a producer whose position is the current one gets the slot, and then the slot is free.\<close>

lemma push_exchange_ok:
  fixes s :: "('t, 'm) config"
  assumes R: "ring_ok c r" and I: "queue_inv c r lg d s" and e: "length lg < 2 ^ 59"
    and p: "producers s t = P_exchange pos st m"
    and x: "push_exchange spurious (cf_queue s) pos st m = (q, p', ev)"
  shows "queue_inv c r (lg @ reserved [ev]) (d + length (popped [ev])) (s\<lparr>cf_queue := q, producers := (producers s)(t := p')\<rparr>)"
proof -
  note i = queue_invD [OF I]
  let ?q = "cf_queue s" and ?rel = "recycled (consumer s) d" and ?e = "length lg"
  obtain k where k: "k \<le> ?e" "pos = pos_word c r k" "st = pos" "k < ?rel + c" using i(8) [of t] p by auto
  have k60: "k \<le> 2 ^ 60" using k e by simp
  have fl: "pos AND closed_channel_mask ?q = 0" using flag_pos(1) [OF R i(1) k60] k(2) by simp
  show ?thesis
  proof (cases "enqueue_pos ?q = pos \<and> \<not> spurious")
    case True
    have "?e \<le> 2 ^ 60" using e by simp
    then have ke: "k = ?e" using True i(2) k(2) closed_facts(3) [OF R _ k60] pos_word_inj [OF R _ k60] by metis
    have q: "q = ?q\<lparr>enqueue_pos := pos_word c r (Suc ?e)\<rparr>" "p' = P_write pos st m" "ev = Reserved m"
      using x True fl pos_word_next [OF R i(1), of ?e] k ke e by (auto simp: push_exchange_def)
    have free: "buffer ?q ! (?e mod c) = free_slot c r ?e" using i(6) [of ?e] k ke by simp
    have rel: "?rel \<le> d" using recycled_le [OF i(10)] by simp
    have noown: "\<not> owns c r (producers s t') ?e" for t'
      using owns_bound [OF i(8) [of t'], of ?e] pos_word_inj [OF R, of _ ?e] e by fastforce
    have own: "owns c r (P_write pos st m) j \<Longrightarrow> \<not> owns c r (producers s t') j" for j t'
      using k(2) ke noown [of t'] by (cases "producers s t'") auto
    have co: "consumer_ok c r (lg @ [m]) d (buffer ?q) (consumer s)"
      using i(10) i(4) by (cases "consumer s") (auto simp: nth_append full_slot_def)
    have "queue_inv c r (lg @ [m]) d (s\<lparr>cf_queue := q, producers := (producers s)(t := p')\<rparr>)"
    proof (rule queue_invI)
      fix k' assume "d \<le> k'" "k' < length (lg @ [m])"
      then show "buffer (cf_queue (s\<lparr>cf_queue := q, producers := (producers s)(t := p')\<rparr>)) ! (k' mod c)
          \<in> {free_slot c r k', written_slot c r (lg @ [m]) k', full_slot c r (lg @ [m]) k'}"
        using i(7) [of k'] free q(1) by (cases "k' = ?e") (auto simp: written_slot_def full_slot_def nth_append)
    next
      fix t'
      have "producer_ok c r (lg @ [m]) d ?rel (buffer ?q) (P_write pos st m)"
        using k ke i(4) free by (auto intro!: exI [of _ ?e])
      then show "producer_ok c r (lg @ [m]) d (recycled (consumer (s\<lparr>cf_queue := q, producers := (producers s)(t := p')\<rparr>)) d)
          (buffer (cf_queue (s\<lparr>cf_queue := q, producers := (producers s)(t := p')\<rparr>)))
          (producers (s\<lparr>cf_queue := q, producers := (producers s)(t := p')\<rparr>) t')"
        using producer_ok_append [OF i(8) [of t']] q by simp
    qed (use i(1-6) i(9) q k ke own co in \<open>auto split: if_splits\<close>)
    with q show ?thesis by simp
  next
    case False
    then have q: "q = ?q" "p' = P_loop (enqueue_pos ?q) m" "ev = Tau" using x fl by (auto simp: push_exchange_def)
    have "producer_ok c r lg d ?rel (buffer ?q) p'" using i(2) q by auto
    from queue_inv_producer [OF I this] show ?thesis using q by simp
  qed
qed

text \<open>A producer that fills the slot it owns.\<close>

lemma set_slot_inv:
  fixes s :: "('t, 'm) config"
  assumes R: "ring_ok c r" and I: "queue_inv c r lg d s" and k: "d \<le> k" "k < length lg" and e: "length lg < 2 ^ 59"
    and t: "owns c r (producers s t) k" and old: "buffer (cf_queue s) ! (k mod c) \<noteq> full_slot c r lg k"
    and sl: "sl \<in> {free_slot c r k, written_slot c r lg k, full_slot c r lg k}"
    and p: "producer_ok c r lg d (recycled (consumer s) d) ((buffer (cf_queue s))[k mod c := sl]) p"
      "\<And>j. owns c r p j \<Longrightarrow> owns c r (producers s t) j"
  shows "queue_inv c r lg d (s\<lparr>cf_queue := set_slot (k mod c) sl (cf_queue s), producers := (producers s)(t := p)\<rparr>)"
proof (rule queue_invI)
  note i = queue_invD [OF I]
  let ?q = "cf_queue s" and ?rel = "recycled (consumer s) d" and ?e = "length lg"
  let ?s = "s\<lparr>cf_queue := set_slot (k mod c) sl ?q, producers := (producers s)(t := p)\<rparr>"
  have rel: "?rel \<le> d" "d \<le> ?rel + 1" using recycled_le [OF i(10)] by simp_all
  have len: "k mod c < length (buffer ?q)" using i(1) ring_okD(3) [OF R] by (simp add: ring_queue_def)
  have ne: "k mod c \<noteq> j mod c" if "?rel \<le> j" "j < ?rel + c" "j \<noteq> k" for j
    using that k rel i(5) same_slot [of k c j] by auto
  show "buffer (cf_queue ?s) ! (j mod c) = free_slot c r j" if "?e \<le> j" "j < recycled (consumer ?s) d + c" for j
    using i(6) [of j] ne [of j] that k rel by simp
  show "buffer (cf_queue ?s) ! (j mod c) \<in> {free_slot c r j, written_slot c r lg j, full_slot c r lg j}" if "d \<le> j" "j < ?e" for j
    using i(7) [of j] ne [of j] that rel i(5) sl len by (cases "j = k") auto
  show "producer_ok c r lg d (recycled (consumer ?s) d) (buffer (cf_queue ?s)) (producers ?s t')" for t'
  proof (cases "t' = t")
    case False
    then have no: "\<not> owns c r (producers s t') k" using i(9) t by blast
    have "(buffer ?q)[k mod c := sl] ! (j mod c) = buffer ?q ! (j mod c)" if "owns c r (producers s t') j" "d \<le> j" "j < ?e" for j
      using ne [of j] that no rel i(5) by (cases "j = k") auto
    with i(8) [of t'] False show ?thesis by (cases "producers s t'") auto
  qed (use p(1) in simp)
  show "\<not> owns c r (producers ?s t2) j" if "t1 \<noteq> t2" "owns c r (producers ?s t1) j" for t1 t2 j
    using that i(9) p(2) by (auto split: if_splits)
  show "consumer_ok c r lg d (buffer (cf_queue ?s)) (consumer ?s)"
  proof (cases "consumer s")
    case (C_take pos st)
    then have "d \<noteq> k" using i(10) old by auto
    with C_take i(10) ne [of d] rel k i(5) show ?thesis by (auto simp: recycled_def)
  next
    case (C_borrow m x st)
    with i(10) ne [of "d - 1"] k ring_okD(1) [OF R] show ?thesis by (auto simp: recycled_def)
  next
    case (C_release x st)
    with i(10) ne [of "d - 1"] k ring_okD(1) [OF R] show ?thesis by (auto simp: recycled_def)
  qed (use i(10) in auto)
qed (use queue_invD [OF I] in simp_all)

lemma push_write_ok:
  fixes s :: "('t, 'm) config"
  assumes R: "ring_ok c r" and I: "queue_inv c r lg d s" and e: "length lg < 2 ^ 59" and p: "producers s t = P_write pos st m"
    and x: "push_write (cf_queue s) pos st m = (q, p')"
  shows "queue_inv c r lg d (s\<lparr>cf_queue := q, producers := (producers s)(t := p')\<rparr>)"
proof -
  note i = queue_invD [OF I]
  obtain k where k: "k < length lg" "d \<le> k" "pos = pos_word c r k" "st = pos" "m = lg ! k"
      "buffer (cf_queue s) ! (k mod c) = free_slot c r k"
    using i(8) [of t] p by auto
  have "k \<le> 2 ^ 60" using k e by simp
  note ix = index_pos [OF R i(1) this] nth_slot [OF R i(1), of k]
  have q: "q = set_slot (k mod c) (written_slot c r lg k) (cf_queue s)" "p' = P_publish pos st"
    using x ix k by (simp_all add: push_write_def slot_defs)
  show ?thesis unfolding q
    by (rule set_slot_inv [OF R I k(2,1) e])
      (use p k ix i(1) ring_okD(3) [OF R, of k] in \<open>auto simp: slot_defs ring_queue_def intro!: exI [of _ k]\<close>)
qed

lemma push_publish_ok:
  fixes s :: "('t, 'm) config"
  assumes R: "ring_ok c r" and I: "queue_inv c r lg d s" and e: "length lg < 2 ^ 59" and p: "producers s t = P_publish pos st"
    and x: "push_publish (cf_queue s) pos st = (q, p')"
  shows "queue_inv c r lg d (s\<lparr>cf_queue := q, producers := (producers s)(t := p')\<rparr>)"
proof -
  note i = queue_invD [OF I]
  obtain k where k: "k < length lg" "d \<le> k" "pos = pos_word c r k" "st = pos"
      "buffer (cf_queue s) ! (k mod c) = written_slot c r lg k"
    using i(8) [of t] p by auto
  have "k \<le> 2 ^ 60" using k e by simp
  note ix = index_pos [OF R i(1) this] nth_slot [OF R i(1), of k]
  have q: "q = set_slot (k mod c) (full_slot c r lg k) (cf_queue s)" "p' = P_done (Inr ())"
    using x ix k by (simp_all add: push_publish_def slot_defs)
  show ?thesis unfolding q
    by (rule set_slot_inv [OF R I k(2,1) e]) (use p k in \<open>auto simp: slot_defs\<close>)
qed

lemma push_loop_ok:
  fixes s :: "('t, 'm) config"
  assumes R: "ring_ok c r" and I: "queue_inv c r lg d s" and e: "length lg < 2 ^ 59" and p: "producers s t = P_loop pos m"
  shows "queue_inv c r lg d (s\<lparr>producers := (producers s)(t := push_check (cf_queue s) pos m)\<rparr>)"
proof -
  note i = queue_invD [OF I]
  obtain k where k: "k \<le> length lg" "pos = pos_word c r k \<or> pos = closed_word c r k" using i(8) [of t] p by auto
  note pc = push_check_cases [OF R I less_imp_le [OF e] k(1)]
  have "k < recycled (consumer s) d + c" if "k \<noteq> recycled (consumer s) d + c" using that k(1) i(5) by simp
  then show ?thesis using k by (intro queue_inv_producer [OF I]) (auto simp: pc split: if_splits intro!: exI [of _ k])
qed

lemma producer_step_ok:
  fixes s :: "('t, 'm) config"
  assumes R: "ring_ok c r" and I: "queue_inv c r lg d s" and e: "length lg < 2 ^ 59"
    and x: "producer_step spurious (cf_queue s) (producers s t) = Some (q, p', ev)"
  shows "queue_inv c r (lg @ reserved [ev]) (d + length (popped [ev])) (s\<lparr>cf_queue := q, producers := (producers s)(t := p')\<rparr>)"
proof (cases "producers s t")
  case (P_load m)
  have "producer_ok c r lg d (recycled (consumer s) d) (buffer (cf_queue s)) (P_loop (enqueue_pos (cf_queue s)) m)"
    using queue_invD(2) [OF I] by auto
  from queue_inv_producer [OF I this] x P_load show ?thesis by auto
next
  case (P_loop pos m)
  have "q = cf_queue s" "p' = push_check (cf_queue s) pos m" "reserved [ev] = []" "popped [ev] = []"
    using x P_loop by (auto split: producer.splits sum.splits)
  with push_loop_ok [OF R I e P_loop] show ?thesis by simp
next
  case (P_exchange pos st m)
  with push_exchange_ok [OF R I e this] x show ?thesis by simp
next
  case (P_write pos st m)
  with push_write_ok [OF R I e this] x show ?thesis by (auto split: prod.splits)
next
  case (P_publish pos st)
  with push_publish_ok [OF R I e this] x show ?thesis by (auto split: prod.splits)
qed (use x in auto)

section \<open>The consumer\<close>

lemma own_slot:
  assumes R: "ring_ok c r" and p: "producer_ok c r lg d rel bf p" "owns c r p k" and e: "length lg < 2 ^ 59" and k: "k \<le> 2 ^ 60"
  shows "bf ! (k mod c) \<in> {free_slot c r k, written_slot c r lg k}"
proof -
  from owns_bound [OF p] obtain j where "j < length lg" "pos_word c r j = pos_word c r k" by blast
  have eq: "j = k" if "j < length lg" "pos_word c r k = pos_word c r j" for j
    using that pos_word_inj [OF R, of j k] e k by simp
  show ?thesis using p eq by (cases p) auto
qed

lemma producer_ok_transfer:
  assumes "producer_ok c r lg d rel bf p" "rel \<le> rel'"
    and own: "\<And>j. owns c r p j \<Longrightarrow> j < length lg \<Longrightarrow> d \<le> j \<Longrightarrow> d' \<le> j \<and> bf' ! (j mod c) = bf ! (j mod c)"
  shows "producer_ok c r lg d' rel' bf' p"
proof (cases p)
  case (P_exchange pos st m)
  with assms(1,2) show ?thesis by auto
next
  case (P_write pos st m)
  with assms(1) obtain k where k: "k < length lg" "d \<le> k" "pos = pos_word c r k" "st = pos" "m = lg ! k"
    "bf ! (k mod c) = free_slot c r k" by auto
  with own [of k] P_write show ?thesis by (auto intro!: exI [of _ k])
next
  case (P_publish pos st)
  with assms(1) obtain k where k: "k < length lg" "d \<le> k" "pos = pos_word c r k" "st = pos"
    "bf ! (k mod c) = written_slot c r lg k" by auto
  with own [of k] P_publish show ?thesis by (auto intro!: exI [of _ k])
qed (use assms(1) in auto)

text \<open>A step that changes nothing but the private state of a consumer that borrows no message.\<close>

lemma queue_inv_consumer:
  assumes "queue_inv c r lg d s" "consumer_ok c r lg d (buffer (cf_queue s)) co" "recycled (consumer s) d = d" "recycled co d = d"
  shows "queue_inv c r lg d (s\<lparr>consumer := co\<rparr>)"
  by (rule queue_invI) (use queue_invD [OF assms(1)] assms(2-) in auto)

lemma pop_load_ok:
  fixes s :: "('t, 'm) config"
  assumes R: "ring_ok c r" and I: "queue_inv c r lg d s" and e: "length lg < 2 ^ 59" and co: "consumer s = C_idle x"
  shows "queue_inv c r lg d (s\<lparr>consumer := pop_load (cf_queue s)\<rparr>)"
proof -
  note i = queue_invD [OF I]
  have d60: "d \<le> 2 ^ 60" using i(4) e by simp
  have rel: "recycled (consumer s) d = d" using co by (simp add: recycled_def)
  have l: "pop_load (cf_queue s) =
     (let st = stamp (buffer (cf_queue s) ! (d mod c))
      in if pos_word c r d \<noteq> st then (if st = pos_word c r d + 1 then C_take (pos_word c r d) st else C_panic)
         else C_check (pos_word c r d))"
    using index_pos [OF R i(1) d60] nth_slot [OF R i(1), of d] i(3) by (simp add: pop_load_def Let_def)
  have "consumer_ok c r lg d (buffer (cf_queue s)) (pop_load (cf_queue s)) \<and> recycled (pop_load (cf_queue s)) d = d"
  proof (cases "d < length lg")
    case True
    with i(7) [of d] l show ?thesis by (auto simp: slot_defs recycled_def Let_def)
  next
    case False
    with i(4) i(6) [of d] rel ring_okD(1) [OF R] l show ?thesis by (auto simp: slot_defs recycled_def Let_def)
  qed
  with queue_inv_consumer [OF I] rel show ?thesis by blast
qed

lemma pop_take_ok:
  fixes s :: "('t, 'm) config"
  assumes R: "ring_ok c r" and I: "queue_inv c r lg d s" and e: "length lg < 2 ^ 59" and co: "consumer s = C_take pos st"
    and x: "pop_take (cf_queue s) pos st = (q, co', ev)"
  shows "ev = Popped (lg ! d) \<and> queue_inv c r lg (d + 1) (s\<lparr>cf_queue := q, consumer := co'\<rparr>)"
proof -
  note i = queue_invD [OF I]
  let ?q = "cf_queue s" and ?sl = "\<lparr>stamp = pos_word c r d + 1, message = NoBox\<rparr>"
  have k: "pos = pos_word c r d" "st = pos + 1" "d < length lg" "buffer ?q ! (d mod c) = full_slot c r lg d"
    using i(10) co by auto
  have d60: "d < 2 ^ 60" using k(3) e by simp
  note ix = index_pos [OF R i(1) less_imp_le [OF d60]] nth_slot [OF R i(1), of d] flag_pos(1) [OF R i(1) less_imp_le [OF d60]]
  have st': "st + right_mask ?q = pos_word c r (d + c)"
    using pos_word_lap [OF R, of d] i(1) k by (simp add: ring_queue_def)
  have q: "q = set_slot (d mod c) ?sl (?q\<lparr>dequeue_pos := pos_word c r (Suc d)\<rparr>)"
    "co' = C_borrow (lg ! d) (d mod c) (pos_word c r (d + c))" "ev = Popped (lg ! d)"
    using x ix k pos_word_next [OF R i(1) d60] st' by (auto simp: pop_take_def full_slot_def Let_def)
  have rel: "recycled (consumer s) d = d" "recycled co' (d + 1) = d" using co q by (simp_all add: recycled_def)
  have len: "d mod c < length (buffer ?q)" using i(1) ring_okD(3) [OF R] by (simp add: ring_queue_def)
  have ne: "d mod c \<noteq> j mod c" if "d \<le> j" "j < d + c" "j \<noteq> d" for j
    using that same_slot [of d c j] ring_okD(1) [OF R] by auto
  have no: "\<not> owns c r (producers s t) d" for t
    using own_slot [OF R i(8) [of t] _ e, of d] k(4) d60 by (auto simp: slot_defs)
  let ?s = "s\<lparr>cf_queue := q, consumer := co'\<rparr>"
  have "queue_inv c r lg (d + 1) ?s"
  proof (rule queue_invI)
    show "buffer (cf_queue ?s) ! (j mod c) = free_slot c r j" if "length lg \<le> j" "j < recycled (consumer ?s) (d + 1) + c" for j
      using i(6) [of j] ne [of j] that k(3) rel q(1) by simp
    show "buffer (cf_queue ?s) ! (j mod c) \<in> {free_slot c r j, written_slot c r lg j, full_slot c r lg j}"
      if "d + 1 \<le> j" "j < length lg" for j
      using i(5) i(7) [of j] ne [of j] that rel q(1) by simp
    show "producer_ok c r lg (d + 1) (recycled (consumer ?s) (d + 1)) (buffer (cf_queue ?s)) (producers ?s t)" for t
    proof (rule producer_ok_transfer)
      show "producer_ok c r lg d d (buffer ?q) (producers ?s t)" using i(8) [of t] rel by simp
      show "d + 1 \<le> j \<and> buffer (cf_queue ?s) ! (j mod c) = buffer ?q ! (j mod c)"
        if "owns c r (producers ?s t) j" "j < length lg" "d \<le> j" for j
        using ne [of j] that no [of t] rel i(5) q(1) by (cases "j = d") auto
    qed (use rel in simp)
  qed (use i(1-5) i(9) q rel k(3) len in auto)
  with q show ?thesis by simp
qed

lemma borrow_vacate_ok:
  fixes s :: "('t, 'm) config"
  assumes R: "ring_ok c r" and I: "queue_inv c r lg d s" and e: "length lg < 2 ^ 59" and co: "consumer s = C_borrow m x st"
    and x: "borrow_vacate (cf_queue s) x st = (q, co')"
  shows "queue_inv c r lg d (s\<lparr>cf_queue := q, consumer := co'\<rparr>)"
proof -
  note i = queue_invD [OF I]
  let ?q = "cf_queue s" and ?sl = "\<lparr>stamp = pos_word c r (d - 1) + 1, message = Vacated\<rparr>"
  have k: "0 < d" "x = (d - 1) mod c" "st = pos_word c r (d - 1 + c)"
      "buffer ?q ! x = \<lparr>stamp = pos_word c r (d - 1) + 1, message = NoBox\<rparr>"
    using i(10) co by auto
  have rel: "recycled (consumer s) d = d - 1" using co by (simp add: recycled_def)
  have q: "q = set_slot x ?sl ?q" "co' = C_release x st"
    using x k nth_slot [OF R i(1), of "d - 1"] by (simp_all add: borrow_vacate_def)
  have len: "x < length (buffer ?q)" using i(1) ring_okD(3) [OF R] k(2) by (simp add: ring_queue_def)
  have ne: "x \<noteq> j mod c" if "d \<le> j" "j < d - 1 + c" for j
  proof
    assume "x = j mod c"
    then have m: "(d - 1) mod c = j mod c" using k(2) by simp
    have "d - 1 = j" by (rule same_slot [OF m]) (use that k(1) ring_okD(1) [OF R] in linarith)+
    with that k(1) show False by simp
  qed
  let ?s = "s\<lparr>cf_queue := q, consumer := co'\<rparr>"
  have rel': "recycled (consumer ?s) d = d - 1" using q by (simp add: recycled_def)
  show ?thesis
  proof (rule queue_invI)
    show "buffer (cf_queue ?s) ! (j mod c) = free_slot c r j" if "length lg \<le> j" "j < recycled (consumer ?s) d + c" for j
      using i(4) i(6) [of j] ne [of j] that rel rel' q(1) by simp
    show "buffer (cf_queue ?s) ! (j mod c) \<in> {free_slot c r j, written_slot c r lg j, full_slot c r lg j}"
      if "d \<le> j" "j < length lg" for j
      using i(5) i(7) [of j] ne [of j] that rel q(1) by simp
    show "producer_ok c r lg d (recycled (consumer ?s) d) (buffer (cf_queue ?s)) (producers ?s t)" for t
    proof -
      have "producer_ok c r lg d (recycled co' d) (buffer q) (producers s t)"
        by (rule producer_ok_transfer [OF i(8) [of t]]) (use ne rel rel' i(5) q(1) in auto)
      then show ?thesis by simp
    qed
  qed (use i(1-5) i(9) q rel rel' k len in auto)
qed

lemma borrow_release_ok:
  fixes s :: "('t, 'm) config"
  assumes R: "ring_ok c r" and I: "queue_inv c r lg d s" and e: "length lg < 2 ^ 59" and co: "consumer s = C_release x st"
    and x: "borrow_release (cf_queue s) x st = (q, co')"
  shows "queue_inv c r lg d (s\<lparr>cf_queue := q, consumer := co'\<rparr>)"
proof -
  note i = queue_invD [OF I]
  let ?q = "cf_queue s"
  have k: "0 < d" "x = (d - 1) mod c" "st = pos_word c r (d - 1 + c)"
      "buffer ?q ! x = \<lparr>stamp = pos_word c r (d - 1) + 1, message = Vacated\<rparr>"
    using i(10) co by auto
  have rel: "recycled (consumer s) d = d - 1" using co by (simp add: recycled_def)
  have q: "q = set_slot x (free_slot c r (d - 1 + c)) ?q" "co' = C_idle None"
    using x k nth_slot [OF R i(1), of "d - 1"] by (simp_all add: borrow_release_def free_slot_def)
  have len: "x < length (buffer ?q)" using i(1) ring_okD(3) [OF R] k(2) by (simp add: ring_queue_def)
  have ne: "x \<noteq> j mod c" if "d \<le> j" "j < d - 1 + c" for j
  proof
    assume "x = j mod c"
    then have m: "(d - 1) mod c = j mod c" using k(2) by simp
    have "d - 1 = j" by (rule same_slot [OF m]) (use that k(1) ring_okD(1) [OF R] in linarith)+
    with that k(1) show False by simp
  qed
  let ?s = "s\<lparr>cf_queue := q, consumer := co'\<rparr>"
  have rel': "recycled (consumer ?s) d = d" using q by (simp add: recycled_def)
  show ?thesis
  proof (rule queue_invI)
    show "buffer (cf_queue ?s) ! (j mod c) = free_slot c r j" if "length lg \<le> j" "j < recycled (consumer ?s) d + c" for j
    proof (cases "j = d - 1 + c")
      case True
      then have "j mod c = x" using k(2) by simp
      with True q(1) len show ?thesis by simp
    next
      case False
      with i(4) i(6) [of j] ne [of j] that rel rel' q(1) k(1) show ?thesis by simp
    qed
    show "buffer (cf_queue ?s) ! (j mod c) \<in> {free_slot c r j, written_slot c r lg j, full_slot c r lg j}"
      if "d \<le> j" "j < length lg" for j
      using i(5) i(7) [of j] ne [of j] that rel q(1) by simp
    show "producer_ok c r lg d (recycled (consumer ?s) d) (buffer (cf_queue ?s)) (producers ?s t)" for t
    proof -
      have "producer_ok c r lg d (recycled co' d) (buffer q) (producers s t)"
        by (rule producer_ok_transfer [OF i(8) [of t]]) (use ne rel rel' i(5) q(1) in auto)
      then show ?thesis by simp
    qed
  qed (use i(1-5) i(9) q rel rel' k len in auto)
qed

lemma consumer_step_ok:
  fixes s :: "('t, 'm) config"
  assumes R: "ring_ok c r" and I: "queue_inv c r lg d s" and e: "length lg < 2 ^ 59"
    and x: "consumer_step (cf_queue s) (consumer s) = Some (q, co, ev)"
  shows "reserved [ev] = [] \<and> popped [ev] = take (length (popped [ev])) (drop d lg) \<and>
    queue_inv c r lg (d + length (popped [ev])) (s\<lparr>cf_queue := q, consumer := co\<rparr>)"
proof (cases "consumer s")
  case (C_idle y)
  with pop_load_ok [OF R I e this] x show ?thesis by auto
next
  case (C_take pos st)
  have "d < length lg" using queue_invD(10) [OF I] C_take by simp
  with pop_take_ok [OF R I e C_take] x C_take show ?thesis by (auto simp: take_Suc_conv_app_nth Cons_nth_drop_Suc [symmetric])
next
  case (C_check pos)
  have "queue_inv c r lg d (s\<lparr>consumer := C_idle y\<rparr>)" for y
    by (rule queue_inv_consumer [OF I]) (use C_check in \<open>simp_all add: recycled_def\<close>)
  with x C_check show ?thesis by (auto simp: Let_def)
next
  case (C_borrow m i st)
  with borrow_vacate_ok [OF R I e this] x show ?thesis by (auto split: prod.splits)
next
  case (C_release i st)
  with borrow_release_ok [OF R I e this] x show ?thesis by (auto split: prod.splits)
qed (use x in auto)


section \<open>Reachable states\<close>

lemma close_ok:
  assumes "ring_ok c r" "queue_inv c r lg d s" "length lg < 2 ^ 59"
  shows "queue_inv c r lg d (s\<lparr>cf_queue := queue_close (cf_queue s)\<rparr>)"
    "enqueue_pos (queue_close (cf_queue s)) = closed_word c r (length lg)"
proof -
  note i = queue_invD [OF assms(2)]
  show cl: "enqueue_pos (queue_close (cf_queue s)) = closed_word c r (length lg)"
    using flag_pos(3,4) [OF assms(1) i(1), of "length lg"] i(2) assms(3) by (auto simp: queue_close_def)
  show "queue_inv c r lg d (s\<lparr>cf_queue := queue_close (cf_queue s)\<rparr>)"
    by (rule queue_invI) (use i cl in \<open>auto simp: queue_close_def\<close>)
qed

lemma queue_new_ring:
  assumes "queue_new c = Some q" "c \<le> 2 ^ 59"
  obtains r where "ring_ok c r" "ring_queue c r q" "enqueue_pos q = 0" "dequeue_pos q = 0"
    "buffer q = map (\<lambda>i. \<lparr>stamp = word_of_nat i, message = Vacated\<rparr>) [0..<c]"
proof -
  have c: "1 \<le> c" using assms(1) by (auto simp: queue_new_def assert_opt_def split: if_splits)
  obtain r where r: "next_power_of_two c = 2 ^ r" "c \<le> 2 ^ r" "2 ^ r < 2 * c" using next_power_of_two_bounds [OF c] .
  show thesis
    by (rule that [of r]) (use assms c r in \<open>auto simp: queue_new_def assert_opt_def ring_ok_def ring_queue_def push_bit_eq_mult Let_def mult.commute
      split: if_splits\<close>)
qed

lemma queue_inv_start:
  assumes "ring_ok c r" "ring_queue c r q" "enqueue_pos q = 0" "dequeue_pos q = 0"
    "buffer q = map (\<lambda>i. \<lparr>stamp = word_of_nat i, message = Vacated\<rparr>) [0..<c]"
  shows "queue_inv c r [] 0 (queue_start q)"
  by (rule queue_invI) (use assms pos_first [OF assms(1)] ring_okD(1) [OF assms(1)] in
    \<open>simp_all add: queue_start_def recycled_def free_slot_def\<close>)

text \<open>What is known of a state from the events that led to it.\<close>

definition run_inv :: "nat \<Rightarrow> nat \<Rightarrow> 'm event list \<Rightarrow> ('t, 'm) config \<Rightarrow> bool" where
  "run_inv c r tr s \<longleftrightarrow>
     queue_inv c r (reserved tr) (length (popped tr)) s \<and> take (length (popped tr)) (reserved tr) = popped tr \<and>
     released tr = recycled (consumer s) (length (popped tr)) \<and>
     enqueue_pos (cf_queue s) =
       (if CloseCall \<in> set tr then closed_word c r (length (reserved tr)) else pos_word c r (length (reserved tr))) \<and>
     (\<forall>t pos m. producers s t = P_loop pos m \<longrightarrow> pos AND closed_channel_mask (cf_queue s) \<noteq> 0 \<longrightarrow> CloseCall \<in> set tr)"

lemma trace_append:
  "reserved (tr @ [ev]) = reserved tr @ reserved [ev]" "popped (tr @ [ev]) = popped tr @ popped [ev]"
  "released (tr @ [ev]) = released tr + (if ev = Released then 1 else 0)"
  by (simp_all add: reserved_def popped_def released_def List.map_filter_def)

text \<open>A producer does not move the consumer's part of the state, and conversely.\<close>

lemma producer_step_frame:
  assumes "producer_step spurious q p = Some (q', p', ev)"
  shows "closed_channel_mask q' = closed_channel_mask q" "ev \<noteq> Released" "popped [ev] = []" "ev \<noteq> CloseCall"
    "\<And>pos m. p' = P_loop pos m \<Longrightarrow> pos = enqueue_pos q"
    "reserved [ev] = [] \<Longrightarrow> enqueue_pos q' = enqueue_pos q"
    "reserved [ev] \<noteq> [] \<Longrightarrow> enqueue_pos q AND closed_channel_mask q = 0 \<and> enqueue_pos q' = next_queue_pos q (enqueue_pos q) \<and>
       length (reserved [ev]) = 1"
    "ev \<noteq> PopRefused b"
  using assms
  by (cases p; auto simp: push_check_def push_exchange_def push_write_def push_publish_def set_slot_def
      split: producer.splits sum.splits option.splits ordering.splits if_splits message_box.splits prod.splits)+

lemma producer_step_refused:
  assumes "producer_step spurious q p = Some (q', p', PushRefused x)"
  shows "\<exists>pos m. p = P_loop pos m \<and> push_check q pos m = P_done (Inl x)"
  using assms
  by (cases p) (auto simp: push_exchange_def split: producer.splits sum.splits if_splits prod.splits)

lemma consumer_step_frame:
  assumes "consumer_step q co = Some (q', co', ev)"
  shows "enqueue_pos q' = enqueue_pos q" "closed_channel_mask q' = closed_channel_mask q" "ev \<noteq> CloseCall"
    "ev = Released \<longleftrightarrow> (\<exists>i st. co = C_release i st)"
    "ev = PopRefused True \<Longrightarrow> \<exists>pos. co = C_check pos \<and> enqueue_pos q = pos OR closed_channel_mask q"
    "ev \<noteq> PushRefused x"
  using assms
  by (cases co; auto simp: pop_take_def pop_check_def borrow_vacate_def borrow_release_def set_slot_def Let_def
      split: option.splits if_splits message_box.splits prod.splits)+

lemma run_inv_push:
  fixes s :: "('t, 'm) config"
  assumes R: "ring_ok c r" and I: "run_inv c r tr s" and e: "length (reserved tr) < 2 ^ 59"
    and x: "producer_step spurious (cf_queue s) (producers s t) = Some (q, p, ev)"
  shows "run_inv c r (tr @ [ev]) (s\<lparr>cf_queue := q, producers := (producers s)(t := p)\<rparr>)"
proof -
  let ?s = "s\<lparr>cf_queue := q, producers := (producers s)(t := p)\<rparr>" and ?e = "length (reserved tr)"
  note f = producer_step_frame [OF x]
  have i: "queue_inv c r (reserved tr) (length (popped tr)) s" "take (length (popped tr)) (reserved tr) = popped tr"
    "released tr = recycled (consumer s) (length (popped tr))"
    "enqueue_pos (cf_queue s) = (if CloseCall \<in> set tr then closed_word c r ?e else pos_word c r ?e)"
    "\<And>t pos m. producers s t = P_loop pos m \<Longrightarrow> pos AND closed_channel_mask (cf_queue s) \<noteq> 0 \<Longrightarrow> CloseCall \<in> set tr"
    using I by (auto simp: run_inv_def)
  note ring = queue_invD(1) [OF i(1)]
  have inv: "queue_inv c r (reserved tr @ reserved [ev]) (length (popped tr)) ?s"
    using producer_step_ok [OF R i(1) e x] f(3) by simp
  have flag: "enqueue_pos (cf_queue s) AND closed_channel_mask (cf_queue s) \<noteq> 0 \<longleftrightarrow> CloseCall \<in> set tr"
    using flag_pos(1,2) [OF R ring, of ?e] i(4) e by simp
  have pop: "take (length (popped tr)) (reserved tr @ reserved [ev]) = popped tr"
    using i(2) queue_invD(4) [OF i(1)] by simp
  have enq: "enqueue_pos q =
      (if CloseCall \<in> set tr then closed_word c r (length (reserved tr @ reserved [ev])) else pos_word c r (length (reserved tr @ reserved [ev])))"
  proof (cases "reserved [ev] = []")
    case True
    with f(6) i(4) show ?thesis by simp
  next
    case False
    then have "CloseCall \<notin> set tr" using f(7) flag by blast
    with f(7) [OF False] i(4) pos_word_next [OF R ring, of ?e] e show ?thesis by simp
  qed
  show ?thesis using inv pop enq i(3,5) f flag by (auto simp: run_inv_def trace_append split: if_splits)
qed

lemma run_inv_pop:
  fixes s :: "('t, 'm) config"
  assumes R: "ring_ok c r" and I: "run_inv c r tr s" and e: "length (reserved tr) < 2 ^ 59"
    and x: "consumer_step (cf_queue s) (consumer s) = Some (q, co, ev)"
  shows "run_inv c r (tr @ [ev]) (s\<lparr>cf_queue := q, consumer := co\<rparr>)"
proof -
  let ?s = "s\<lparr>cf_queue := q, consumer := co\<rparr>" and ?d = "length (popped tr)"
  note f = consumer_step_frame [OF x]
  have i: "queue_inv c r (reserved tr) ?d s" "take ?d (reserved tr) = popped tr"
    "released tr = recycled (consumer s) ?d" using I by (auto simp: run_inv_def)
  have st: "reserved [ev] = []" "popped [ev] = take (length (popped [ev])) (drop ?d (reserved tr))"
    "queue_inv c r (reserved tr) (?d + length (popped [ev])) ?s"
    using consumer_step_ok [OF R i(1) e x] by blast+
  have "co \<noteq> C_panic" using queue_invD(10) [OF st(3)] by auto
  have "take (?d + length (popped [ev])) (reserved tr) = popped tr @ popped [ev]"
    using i(2) st(2) by (simp add: take_add)
  moreover have "released tr + (if ev = Released then 1 else 0) = recycled co (?d + length (popped [ev]))"
    using x i(3) queue_invD(10) [OF i(1)] \<open>co \<noteq> C_panic\<close>
    by (cases "consumer s") (auto simp: recycled_def pop_load_def pop_take_def borrow_vacate_def borrow_release_def Let_def
      nth_opt_def split: if_splits message_box.splits prod.splits)
  ultimately show ?thesis using st(1,3) f(1-3) I by (auto simp: run_inv_def trace_append)
qed

lemma run_inv_start:
  assumes "ring_ok c r" "ring_queue c r q" "enqueue_pos q = 0" "dequeue_pos q = 0"
    "buffer q = map (\<lambda>i. \<lparr>stamp = word_of_nat i, message = Vacated\<rparr>) [0..<c]"
  shows "run_inv c r [] (queue_start q)"
  using queue_inv_start [OF assms] assms(3) pos_first [OF assms(1), of 0] ring_okD(1) [OF assms(1)]
  by (simp add: run_inv_def reserved_def popped_def released_def queue_start_def recycled_def map_filter_simps)

lemma run_inv_step:
  fixes s :: "('t, 'm) config"
  assumes R: "ring_ok c r" and I: "run_inv c r tr s" and e: "length (reserved tr) < 2 ^ 59" and x: "queue_step s ev s'"
  shows "run_inv c r (tr @ [ev]) s'"
  using x
proof cases
  case (push_call t r' msg)
  have "queue_inv c r (reserved tr) (length (popped tr)) s'"
    unfolding push_call(2) by (rule queue_inv_producer) (use I in \<open>simp_all add: run_inv_def\<close>)
  with push_call I show ?thesis by (auto simp: run_inv_def trace_append split: if_splits)
next
  case (push_step spurious t q p)
  with run_inv_push [OF R I e] show ?thesis by blast
next
  case (pop_step q co)
  with run_inv_pop [OF R I e] show ?thesis by blast
next
  case close_call
  have "queue_inv c r (reserved tr) (length (popped tr)) s" using I by (simp add: run_inv_def)
  from close_ok [OF R this e] close_call I show ?thesis
    by (auto simp: run_inv_def trace_append queue_close_def)
qed

lemma queue_run_inv:
  assumes "queue_run (queue_start q :: ('t, 'm) config) tr s" "length (reserved tr) < 2 ^ 59"
    and "run_inv c r [] (queue_start q :: ('t, 'm) config)" "ring_ok c r"
  shows "run_inv c r tr s"
  using assms
proof (induction "queue_start q :: ('t, 'm) config" tr s rule: queue_run.induct)
  case (run_step tr s' ev s'')
  then have "length (reserved tr) < 2 ^ 59" by (simp add: trace_append)
  with run_step run_inv_step show ?case by blast
qed simp

text \<open>C9. The queue is a bounded FIFO whatever the interleaving of its producers and its consumer. Starting
  from a new queue, the messages handed to the consumer are, in order, the first of those for which a slot was
  reserved; nothing is lost, duplicated or reordered; there are never more messages in the queue, the borrowed
  one included, than its capacity; and no thread panics. The bound on the number of messages excludes a
  wrap-around of the sequence count.\<close>

theorem mpsc_fifo:
  fixes s :: "('t, 'm) config"
  assumes "queue_new c = Some q" "c \<le> 2 ^ 59" "queue_run (queue_start q) tr s" "length (reserved tr) < 2 ^ 59"
  shows "take (length (popped tr)) (reserved tr) = popped tr \<and> length (reserved tr) \<le> released tr + c \<and>
    (\<forall>t. producers s t \<noteq> P_panic) \<and> consumer s \<noteq> C_panic"
proof -
  obtain r where "ring_ok c r" "run_inv c r tr s"
    using queue_new_ring [OF assms(1,2)] queue_run_inv [OF assms(3,4)] run_inv_start by metis
  then have i: "run_inv c r tr s" "queue_inv c r (reserved tr) (length (popped tr)) s" by (simp_all add: run_inv_def)
  have "producers s t \<noteq> P_panic" for t using queue_invD(8) [OF i(2), of t] by auto
  with queue_invD(5,10) [OF i(2)] i(1) show ?thesis by (auto simp: run_inv_def)
qed

text \<open>C12. The refusals are right at the moment they are decided: a push is refused as full only while the queue
  holds as many messages as its capacity, and as closed only after a call of \<^verbatim>\<open>close\<close>; a pop is refused as
  closed only after a call of \<^verbatim>\<open>close\<close> and when every message was handed over.\<close>

theorem mpsc_refusals:
  fixes s :: "('t, 'm) config"
  assumes "queue_new c = Some q" "c \<le> 2 ^ 59" "queue_run (queue_start q) tr s" "length (reserved tr) < 2 ^ 59" "queue_step s ev s'"
  shows "(\<forall>m. ev = PushRefused (Full m) \<longrightarrow> length (reserved tr) = released tr + c) \<and>
    (ev = PushRefused Closed \<longrightarrow> CloseCall \<in> set tr) \<and>
    (ev = PopRefused True \<longrightarrow> CloseCall \<in> set tr \<and> popped tr = reserved tr)"
proof -
  obtain r where R: "ring_ok c r" and I: "run_inv c r tr s"
    using queue_new_ring [OF assms(1,2)] queue_run_inv [OF assms(3,4)] run_inv_start by metis
  then have i: "queue_inv c r (reserved tr) (length (popped tr)) s" by (simp add: run_inv_def)
  let ?e = "length (reserved tr)" and ?d = "length (popped tr)"
  have e: "?e \<le> 2 ^ 60" "?d \<le> 2 ^ 60" using assms(4) queue_invD(4) [OF i] by simp_all
  from assms(5) show ?thesis
  proof cases
    case (push_step spurious t q' p)
    have "?e = released tr + c" if pr: "ev = PushRefused (Full m)" for m
    proof -
      obtain pos m' where l: "producers s t = P_loop pos m'" "push_check (cf_queue s) pos m' = P_done (Inl (Full m))"
        using producer_step_refused [OF push_step(2) [unfolded pr]] by blast
      then obtain k where k: "k \<le> ?e" "pos = pos_word c r k \<or> pos = closed_word c r k"
        using queue_invD(8) [OF i, of t] by auto
      note pc = push_check_cases [OF R i less_imp_le [OF assms(4)] k(1), of m']
      have "k = released tr + c" using l(2) k(2) pc I by (auto simp: run_inv_def split: if_splits)
      with k(1) queue_invD(5) [OF i] I show ?thesis by (simp add: run_inv_def)
    qed
    moreover have "CloseCall \<in> set tr" if pr: "ev = PushRefused Closed"
    proof -
      obtain pos m where "producers s t = P_loop pos m" "pos AND closed_channel_mask (cf_queue s) \<noteq> 0"
        using producer_step_refused [OF push_step(2) [unfolded pr]]
        by (auto simp: push_check_def split: if_splits option.splits ordering.splits)
      with I show ?thesis unfolding run_inv_def by blast
    qed
    moreover have "ev \<noteq> PopRefused True" using producer_step_frame(8) [OF push_step(2)] .
    ultimately show ?thesis by blast
  next
    case (pop_step q' co)
    have ring: "ring_queue c r (cf_queue s)" using queue_invD(1) [OF i] .
    have "CloseCall \<in> set tr \<and> popped tr = reserved tr" if pr: "ev = PopRefused True"
    proof -
      obtain pos where pos: "consumer s = C_check pos" "enqueue_pos (cf_queue s) = pos OR closed_channel_mask (cf_queue s)"
        using consumer_step_frame(5) [OF pop_step(2) pr] by blast
      then have "enqueue_pos (cf_queue s) = closed_word c r ?d"
        using queue_invD(10) [OF i] flag_pos(3) [OF R ring e(2)] by simp
      then have "CloseCall \<in> set tr \<and> ?e = ?d"
        using I closed_facts(3) [OF R e(2,1)] closed_facts(4) [OF R e] by (auto simp: run_inv_def split: if_splits)
      with I show ?thesis by (auto simp: run_inv_def)
    qed
    moreover have "ev \<noteq> PushRefused x" for x using consumer_step_frame(6) [OF pop_step(2)] .
    ultimately show ?thesis by blast
  qed auto
qed

section \<open>Progress\<close>

text \<open>A producer that runs without interference, until it returns.\<close>

fun push_alone :: "nat \<Rightarrow> 'm queue \<Rightarrow> 'm producer \<Rightarrow> 'm queue \<times> 'm producer" where
  "push_alone 0 q p = (q, p)"
| "push_alone (Suc n) q p =
     (case producer_step False q p of None \<Rightarrow> (q, p) | Some (q', p', ev) \<Rightarrow> push_alone n q' p')"

text \<open>C11. A push that meets no interference returns after at most five accesses to shared memory, from every
  reachable state of the queue and whatever the other producers are doing: refused if the queue is closed or
  full, and successful otherwise.\<close>

theorem push_returns:
  fixes s :: "('t, 'm) config"
  assumes "queue_new c = Some q" "c \<le> 2 ^ 59" "queue_run (queue_start q) tr s" "length (reserved tr) < 2 ^ 59"
  shows "snd (push_alone 5 (cf_queue s) (P_load m)) =
    P_done (if CloseCall \<in> set tr then Inl Closed
            else if length (reserved tr) = released tr + c then Inl (Full m) else Inr ())"
proof -
  obtain r where R: "ring_ok c r" and I: "run_inv c r tr s"
    using queue_new_ring [OF assms(1,2)] queue_run_inv [OF assms(3,4)] run_inv_start by metis
  then have i: "queue_inv c r (reserved tr) (length (popped tr)) s" by (simp add: run_inv_def)
  let ?q = "cf_queue s" and ?e = "length (reserved tr)"
  note d = queue_invD [OF i]
  have e60: "?e \<le> 2 ^ 60" using assms(4) by simp
  have five: "push_alone 5 ?q (P_load m) = push_alone 4 ?q (P_loop (enqueue_pos ?q) m)"
    by (simp add: eval_nat_numeral)
  note pc = push_check_cases [OF R i less_imp_le [OF assms(4)] order_refl]
  have rel: "released tr = recycled (consumer s) (length (popped tr))" using I by (simp add: run_inv_def)
  show ?thesis
  proof (cases "CloseCall \<in> set tr")
    case True
    then have "enqueue_pos ?q = closed_word c r ?e" using I by (simp add: run_inv_def)
    then show ?thesis using True pc(1) unfolding five by (simp add: eval_nat_numeral)
  next
    case False
    then have pos: "enqueue_pos ?q = pos_word c r ?e" using I by (simp add: run_inv_def)
    show ?thesis
    proof (cases "?e = released tr + c")
      case True
      then show ?thesis using False pos pc(2) rel unfolding five by (simp add: eval_nat_numeral)
    next
      case nf: False
      then have free: "buffer ?q ! (?e mod c) = free_slot c r ?e" using d(5,6) rel by simp
      have "recycled (consumer s) (length (popped tr)) \<le> ?e" using recycled_le [OF d(10)] d(4) by linarith
      then have chk: "push_check ?q (pos_word c r ?e) m = P_exchange (pos_word c r ?e) (pos_word c r ?e) m"
        using pc(2) nf rel free by (simp add: free_slot_def)
      let ?q1 = "?q\<lparr>enqueue_pos := next_queue_pos ?q (pos_word c r ?e)\<rparr>"
      have ring1: "ring_queue c r ?q1" using d(1) by simp
      have w: "push_write ?q1 (pos_word c r ?e) (pos_word c r ?e) m =
          (set_slot (?e mod c) \<lparr>stamp = pos_word c r ?e, message = Populated m\<rparr> ?q1, P_publish (pos_word c r ?e) (pos_word c r ?e))"
        using index_pos [OF R ring1 e60] nth_slot [OF R ring1, of ?e] free by (simp add: push_write_def free_slot_def)
      have ring2: "ring_queue c r (set_slot (?e mod c) sl ?q1)" for sl using ring1 by simp
      let ?q2 = "set_slot (?e mod c) \<lparr>stamp = pos_word c r ?e, message = Populated m\<rparr> ?q1"
      obtain q3 where p: "push_publish ?q2 (pos_word c r ?e) (pos_word c r ?e) = (q3, P_done (Inr ()))"
        using index_pos [OF R ring2 e60] nth_slot [OF R ring2, where k = ?e] by (simp add: push_publish_def)
      show ?thesis using False nf pos chk w p flag_pos(1) [OF R d(1) e60] unfolding five
        by (simp add: eval_nat_numeral push_exchange_def)
    qed
  qed
qed

text \<open>Every reserved slot is either published or owned by the producer that will publish it.\<close>

definition pending_owned :: "nat \<Rightarrow> nat \<Rightarrow> 'm list \<Rightarrow> nat \<Rightarrow> ('t, 'm) config \<Rightarrow> bool" where
  "pending_owned c r lg d s \<longleftrightarrow>
     (\<forall>k. d \<le> k \<longrightarrow> k < length lg \<longrightarrow>
        buffer (cf_queue s) ! (k mod c) = full_slot c r lg k \<or> (\<exists>t. owns c r (producers s t) k))"

lemma pending_owned_keep:
  assumes "pending_owned c r lg d s" "d \<le> d'"
    and "\<And>k. d' \<le> k \<Longrightarrow> k < length lg \<Longrightarrow> buffer (cf_queue s) ! (k mod c) = full_slot c r lg k \<Longrightarrow>
      buffer (cf_queue s') ! (k mod c) = full_slot c r lg k"
    and "\<And>k t. d' \<le> k \<Longrightarrow> k < length lg \<Longrightarrow> owns c r (producers s t) k \<Longrightarrow>
      buffer (cf_queue s') ! (k mod c) = full_slot c r lg k \<or> owns c r (producers s' t) k"
  shows "pending_owned c r lg d' s'"
  unfolding pending_owned_def
proof (intro allI impI)
  fix k assume k: "d' \<le> k" "k < length lg"
  then have "d \<le> k" using assms(2) by simp
  then consider "buffer (cf_queue s) ! (k mod c) = full_slot c r lg k" | t where "owns c r (producers s t) k"
    using assms(1) k(2) unfolding pending_owned_def by blast
  then show "buffer (cf_queue s') ! (k mod c) = full_slot c r lg k \<or> (\<exists>t. owns c r (producers s' t) k)"
    using assms(3,4) [OF k] by cases blast+
qed

lemma pending_owned_write:
  fixes s :: "('t, 'm) config"
  assumes R: "ring_ok c r" and I: "queue_inv c r lg d s" and e: "length lg < 2 ^ 59" and P: "pending_owned c r lg d s"
    and k: "d \<le> k" "k < length lg" "producers s t = P_write (pos_word c r k) st m \<or> producers s t = P_publish (pos_word c r k) st"
    and q: "buffer q = (buffer (cf_queue s))[k mod c := sl]" "sl = full_slot c r lg k \<or> p = P_publish (pos_word c r k) st"
  shows "pending_owned c r lg d (s\<lparr>cf_queue := q, producers := (producers s)(t := p)\<rparr>)"
proof (rule pending_owned_keep [OF P order_refl])
  note i = queue_invD [OF I]
  have len: "k mod c < length (buffer (cf_queue s))" using i(1) ring_okD(3) [OF R] by (simp add: ring_queue_def)
  have rel: "recycled (consumer s) d \<le> d" using recycled_le [OF i(10)] by simp
  have ne: "k mod c \<noteq> j mod c" if "d \<le> j" "j < length lg" "j \<noteq> k" for j
    using that k rel i(5) same_slot [of k c j] by auto
  have t: "owns c r (producers s t) j \<longleftrightarrow> j = k" if "j < length lg" for j
    using k(2,3) pos_word_inj [OF R, of k j] e that by auto
  fix j assume j: "d \<le> j" "j < length lg"
  show "buffer (cf_queue (s\<lparr>cf_queue := q, producers := (producers s)(t := p)\<rparr>)) ! (j mod c) = full_slot c r lg j"
    if "buffer (cf_queue s) ! (j mod c) = full_slot c r lg j"
  proof (cases "j = k")
    case True
    with that own_slot [OF R i(8) [of t] _ e, of k] t [OF k(2)] k(2) e show ?thesis by (auto simp: slot_defs)
  next
    case False
    with that ne [OF j] q(1) show ?thesis by simp
  qed
  show "buffer (cf_queue (s\<lparr>cf_queue := q, producers := (producers s)(t := p)\<rparr>)) ! (j mod c) = full_slot c r lg j \<or>
      owns c r (producers (s\<lparr>cf_queue := q, producers := (producers s)(t := p)\<rparr>) t') j"
    if "owns c r (producers s t') j" for t'
    using that t [OF j(2)] q len by (cases "t' = t") auto
qed

lemma pending_owned_push:
  fixes s :: "('t, 'm) config"
  assumes R: "ring_ok c r" and I: "queue_inv c r lg d s" and e: "length lg < 2 ^ 59" and P: "pending_owned c r lg d s"
    and x: "producer_step spurious (cf_queue s) (producers s t) = Some (q, p', ev)"
  shows "pending_owned c r (lg @ reserved [ev]) d (s\<lparr>cf_queue := q, producers := (producers s)(t := p')\<rparr>)"
proof -
  note i = queue_invD [OF I]
  let ?s = "s\<lparr>cf_queue := q, producers := (producers s)(t := p')\<rparr>"
  have none: "pending_owned c r lg d ?s" if "q = cf_queue s" "\<And>k. \<not> owns c r (producers s t) k"
    using that by (intro pending_owned_keep [OF P]) auto
  show ?thesis
  proof (cases "producers s t")
    case (P_load m)
    with none x show ?thesis by auto
  next
    case (P_loop pos m)
    have "q = cf_queue s" "reserved [ev] = []" using x P_loop by (auto split: producer.splits sum.splits)
    with none P_loop show ?thesis by simp
  next
    case (P_exchange pos st m)
    obtain k where k: "k \<le> length lg" "pos = pos_word c r k" using i(8) [of t] P_exchange by auto
    show ?thesis
    proof (cases "reserved [ev] = []")
      case True
      with x P_exchange have "q = cf_queue s" by (auto simp: push_exchange_def split: if_splits)
      with none P_exchange True show ?thesis by simp
    next
      case False
      with x P_exchange have q: "q = cf_queue s\<lparr>enqueue_pos := next_queue_pos (cf_queue s) pos\<rparr>" "p' = P_write pos st m" "ev = Reserved m"
          "enqueue_pos (cf_queue s) = pos"
        by (auto simp: push_exchange_def split: if_splits)
      have "k \<le> 2 ^ 60" "length lg \<le> 2 ^ 60" using k e by simp_all
      then have "k = length lg"
        using i(2) q(4) k(2) closed_facts(3) [OF R] pos_word_inj [OF R] by metis
      then have new: "owns c r (producers ?s t) (length lg)" using q(2) k(2) by simp
      have old: "pending_owned c r lg d ?s" using q P_exchange by (intro pending_owned_keep [OF P]) auto
      show ?thesis
        using old new q(3) unfolding pending_owned_def by (auto simp: less_Suc_eq full_slot_def nth_append)
    qed
  next
    case (P_write pos st m)
    obtain k where k: "k < length lg" "d \<le> k" "pos = pos_word c r k" "st = pos" "m = lg ! k"
        "buffer (cf_queue s) ! (k mod c) = free_slot c r k"
      using i(8) [of t] P_write by auto
    have "k \<le> 2 ^ 60" using k e by simp
    note ix = index_pos [OF R i(1) this] nth_slot [OF R i(1), of k]
    have q: "q = set_slot (k mod c) (written_slot c r lg k) (cf_queue s)" "p' = P_publish pos st" "ev = Tau"
      using x P_write ix k by (auto simp: push_write_def slot_defs)
    show ?thesis using pending_owned_write [OF R I e P k(2,1), of t st m q _ p'] P_write k q by auto
  next
    case (P_publish pos st)
    obtain k where k: "k < length lg" "d \<le> k" "pos = pos_word c r k" "st = pos"
        "buffer (cf_queue s) ! (k mod c) = written_slot c r lg k"
      using i(8) [of t] P_publish by auto
    have "k \<le> 2 ^ 60" using k e by simp
    note ix = index_pos [OF R i(1) this] nth_slot [OF R i(1), of k]
    have q: "q = set_slot (k mod c) (full_slot c r lg k) (cf_queue s)" "ev = Tau"
      using x P_publish ix k by (auto simp: push_publish_def slot_defs)
    show ?thesis using pending_owned_write [OF R I e P k(2,1), of t st _ q "full_slot c r lg k" p'] P_publish k q by auto
  qed (use x in auto)
qed

text \<open>The consumer touches no slot that still waits to be popped.\<close>

lemma consumer_step_slots:
  fixes s :: "('t, 'm) config"
  assumes R: "ring_ok c r" and I: "queue_inv c r lg d s" and e: "length lg < 2 ^ 59"
    and x: "consumer_step (cf_queue s) (consumer s) = Some (q, co, ev)" and k: "d + length (popped [ev]) \<le> k" "k < length lg"
  shows "buffer q ! (k mod c) = buffer (cf_queue s) ! (k mod c)"
proof -
  note i = queue_invD [OF I]
  have ne: "j mod c \<noteq> k mod c" if "j < k" "k < j + c" for j using that same_slot [of j c k] by auto
  show ?thesis
  proof (cases "consumer s")
    case (C_take pos st)
    then have "d \<le> 2 ^ 60" "pos = pos_word c r d" using i(4,10) e by auto
    then have ix: "slot_index (cf_queue s) pos = d mod c" using index_pos [OF R i(1)] by simp
    have "ev = Popped (lg ! d)" using pop_take_ok [OF R I e C_take] x C_take by auto
    then have "d mod c \<noteq> k mod c" using ne [of d] k i(5) C_take by (auto simp: recycled_def)
    with x C_take ix show ?thesis
      by (auto simp: pop_take_def Let_def split: if_splits option.splits message_box.splits)
  next
    case (C_borrow m j st)
    have "(d - 1) mod c \<noteq> k mod c" by (rule ne) (use C_borrow k i(5,10) in \<open>auto simp: recycled_def\<close>)
    then have "j \<noteq> k mod c" using C_borrow i(10) by simp
    with x C_borrow show ?thesis by (auto simp: borrow_vacate_def split: option.splits)
  next
    case (C_release j st)
    have "(d - 1) mod c \<noteq> k mod c" by (rule ne) (use C_release k i(5,10) in \<open>auto simp: recycled_def\<close>)
    then have "j \<noteq> k mod c" using C_release i(10) by simp
    with x C_release show ?thesis by (auto simp: borrow_release_def split: option.splits)
  qed (use x in \<open>auto simp: Let_def\<close>)
qed

lemma queue_run_pending:
  assumes "queue_run (queue_start q :: ('t, 'm) config) tr s" "length (reserved tr) < 2 ^ 59"
    and "run_inv c r [] (queue_start q :: ('t, 'm) config)" "ring_ok c r"
  shows "pending_owned c r (reserved tr) (length (popped tr)) s"
  using assms
proof (induction "queue_start q :: ('t, 'm) config" tr s rule: queue_run.induct)
  case run_none
  then show ?case by (simp add: pending_owned_def reserved_def map_filter_simps)
next
  case (run_step tr s ev s')
  then have e: "length (reserved tr) < 2 ^ 59" by (simp add: trace_append)
  have P: "pending_owned c r (reserved tr) (length (popped tr)) s" using run_step e by simp
  have I: "queue_inv c r (reserved tr) (length (popped tr)) s"
    using queue_run_inv [OF run_step(1) e run_step(5,6)] by (simp add: run_inv_def)
  from \<open>queue_step s ev s'\<close> show ?case
  proof cases
    case (push_call t r' msg)
    have "pending_owned c r (reserved tr) (length (popped tr)) s'"
      unfolding push_call(2) by (rule pending_owned_keep [OF P]) (use push_call in auto)
    with push_call show ?thesis by (simp add: trace_append)
  next
    case (push_step spurious t q' p)
    with pending_owned_push [OF run_step(6) I e P push_step(2)] producer_step_frame(3) [OF push_step(2)]
    show ?thesis by (simp add: trace_append)
  next
    case (pop_step q' co)
    have "reserved [ev] = []" using consumer_step_ok [OF run_step(6) I e pop_step(2)] by simp
    moreover have "pending_owned c r (reserved tr) (length (popped tr) + length (popped [ev])) s'"
      unfolding pop_step(1)
      by (rule pending_owned_keep [OF P]) (use consumer_step_slots [OF run_step(6) I e pop_step(2)] in auto)
    ultimately show ?thesis by (simp add: trace_append)
  next
    case close_call
    have "pending_owned c r (reserved tr) (length (popped tr)) s'"
      unfolding close_call(2) by (rule pending_owned_keep [OF P]) (auto simp: queue_close_def)
    with close_call show ?thesis by (simp add: trace_append)
  qed
qed

text \<open>C10. A pop that starts when no producer is inside \<^verbatim>\<open>push\<close> hands over the next message, if there is one left:
  no message stays stuck in the queue.\<close>

theorem pop_delivers:
  fixes s :: "('t, 'm) config"
  assumes "queue_new c = Some q" "c \<le> 2 ^ 59" "queue_run (queue_start q) tr s" "length (reserved tr) < 2 ^ 59"
    and "\<forall>t. \<exists>x. producers s t = P_done x" "consumer s = C_idle y" "popped tr \<noteq> reserved tr"
  shows "\<exists>co q' i st. consumer_step (cf_queue s) (consumer s) = Some (cf_queue s, co, Tau) \<and>
    consumer_step (cf_queue s) co =
      Some (q', C_borrow (reserved tr ! length (popped tr)) i st, Popped (reserved tr ! length (popped tr)))"
proof -
  obtain r where R: "ring_ok c r" and I0: "run_inv c r [] (queue_start q :: ('t, 'm) config)"
    using queue_new_ring [OF assms(1,2)] run_inv_start by metis
  have I: "run_inv c r tr s" by (rule queue_run_inv [OF assms(3,4) I0 R])
  then have i: "queue_inv c r (reserved tr) (length (popped tr)) s" by (simp add: run_inv_def)
  let ?d = "length (popped tr)" and ?q = "cf_queue s"
  have d: "?d < length (reserved tr)"
    using I assms(7) queue_invD(4) [OF i] by (metis le_neq_implies_less run_inv_def take_all_iff order_refl)
  have no: "\<not> owns c r (producers s t) ?d" for t using assms(5) by (metis owns.simps(6))
  have full: "buffer ?q ! (?d mod c) = full_slot c r (reserved tr) ?d"
    using queue_run_pending [OF assms(3,4) I0 R] d no unfolding pending_owned_def by blast
  have d60: "?d \<le> 2 ^ 60" using d assms(4) by simp
  note ix = index_pos [OF R queue_invD(1) [OF i] d60] nth_slot [OF R queue_invD(1) [OF i], of ?d] flag_pos(1) [OF R queue_invD(1) [OF i] d60]
  have l: "pop_load ?q = C_take (pos_word c r ?d) (pos_word c r ?d + 1)"
    using ix full queue_invD(3) [OF i] by (simp add: pop_load_def full_slot_def Let_def)
  show ?thesis using assms(6) l ix full by (simp add: pop_take_def full_slot_def Let_def)
qed


section \<open>A sample run\<close>

text \<open>An executable scheduler for the step relation.\<close>

datatype ('t, 'm) act = ActCall 't 'm | ActPush 't | ActPop

fun exec_acts :: "('t, 'm) config \<Rightarrow> ('t, 'm) act list \<Rightarrow> ('m event list \<times> ('t, 'm) config) option" where
  "exec_acts s [] = Some ([], s)"
| "exec_acts s (ActCall t m # acts) =
     (case producers s t of
        P_done r \<Rightarrow> do { (tr, s') \<leftarrow> exec_acts (s\<lparr>producers := (producers s)(t := P_load m)\<rparr>) acts; Some (Tau # tr, s') }
      | _ \<Rightarrow> None)"
| "exec_acts s (ActPush t # acts) = do {
     (q, p, ev) \<leftarrow> producer_step False (cf_queue s) (producers s t);
     (tr, s') \<leftarrow> exec_acts (s\<lparr>cf_queue := q, producers := (producers s)(t := p)\<rparr>) acts; Some (ev # tr, s') }"
| "exec_acts s (ActPop # acts) = do {
     (q, co, ev) \<leftarrow> consumer_step (cf_queue s) (consumer s);
     (tr, s') \<leftarrow> exec_acts (s\<lparr>cf_queue := q, consumer := co\<rparr>) acts; Some (ev # tr, s') }"

lemma exec_acts_run: "exec_acts s acts = Some (tr, s') \<Longrightarrow> queue_run s0 tr0 s \<Longrightarrow> queue_run s0 (tr0 @ tr) s'"
proof (induction s acts arbitrary: tr tr0 rule: exec_acts.induct)
  case (2 s t m acts)
  then obtain r tr' where a: "producers s t = P_done r" "tr = Tau # tr'"
    "exec_acts (s\<lparr>producers := (producers s)(t := P_load m)\<rparr>) acts = Some (tr', s')"
    by (auto split: producer.splits Option.bind_splits)
  have "queue_run s0 ((tr0 @ [Tau]) @ tr') s'" by (rule 2(1) [OF a(1,3) run_step [OF 2(3) push_call [OF a(1)]]])
  with a(2) show ?case by simp
next
  case (3 s t acts)
  then obtain q p ev tr' where a: "producer_step False (cf_queue s) (producers s t) = Some (q, p, ev)" "tr = ev # tr'"
    "exec_acts (s\<lparr>cf_queue := q, producers := (producers s)(t := p)\<rparr>) acts = Some (tr', s')"
    by (auto split: Option.bind_splits)
  have "queue_run s0 ((tr0 @ [ev]) @ tr') s'"
    by (rule 3(1) [OF a(1) refl refl a(3) run_step [OF 3(3) push_step [OF a(1)]]])
  with a(2) show ?case by simp
next
  case (4 s acts)
  then obtain q co ev tr' where a: "consumer_step (cf_queue s) (consumer s) = Some (q, co, ev)" "tr = ev # tr'"
    "exec_acts (s\<lparr>cf_queue := q, consumer := co\<rparr>) acts = Some (tr', s')"
    by (auto split: Option.bind_splits)
  have "queue_run s0 ((tr0 @ [ev]) @ tr') s'"
    by (rule 4(1) [OF a(1) refl refl a(3) run_step [OF 4(3) pop_step [OF a(1)]]])
  with a(2) show ?case by simp
qed simp

text \<open>A queue of one slot, after a push of 7.\<close>

lemma sample_queue: "queue_new 1 = Some (\<lparr>enqueue_pos = 0, dequeue_pos = 0, buffer = [\<lparr>stamp = 0, message = Vacated\<rparr>],
    right_mask = 1, closed_channel_mask = 1\<rparr> :: nat queue)"
  by (simp add: queue_new_def assert_opt_def next_power_of_two_def next_pow2_from.simps)

abbreviation sample :: "nat queue" where
  "sample \<equiv> \<lparr>enqueue_pos = 0, dequeue_pos = 0, buffer = [\<lparr>stamp = 0, message = Vacated\<rparr>], right_mask = 1, closed_channel_mask = 1\<rparr>"

abbreviation sample_full :: "(unit, nat) config" where
  "sample_full \<equiv> \<lparr>cf_queue = \<lparr>enqueue_pos = 2, dequeue_pos = 0, buffer = [\<lparr>stamp = 1, message = Populated 7\<rparr>],
     right_mask = 1, closed_channel_mask = 1\<rparr>, producers = (\<lambda>t. P_done (Inr ())), consumer = C_idle None\<rparr>"

lemma sample_run: "queue_run (queue_start sample :: (unit, nat) config) [Tau, Tau, Tau, Reserved 7, Tau, Tau] sample_full"
proof -
  have "exec_acts (queue_start sample :: (unit, nat) config) (ActCall () 7 # replicate 5 (ActPush ())) =
      Some ([Tau, Tau, Tau, Reserved 7, Tau, Tau], sample_full)"
    by (simp add: queue_start_def eval_nat_numeral push_check_def push_exchange_def push_write_def push_publish_def
        nth_opt_def slot_index_def next_queue_pos_def set_slot_def cmp_def fun_upd_def)
  from exec_acts_run [OF this run_none] show ?thesis by simp
qed

lemma sample_trace:
  "reserved [Tau, Tau, Tau, Reserved 7, Tau, Tau] = [7]" "popped [Tau, Tau, Tau, Reserved 7, Tau, Tau] = []"
  "released [Tau, Tau, Tau, Reserved 7, Tau, Tau] = 0" "reserved [Tau, Tau, Tau, Reserved 7, Tau, Tau, Tau, Tau] = [7]"
  "popped [Tau, Tau, Tau, Reserved 7, Tau, Tau, Tau, Tau] = []" "released [Tau, Tau, Tau, Reserved 7, Tau, Tau, Tau, Tau] = 0"
  by (simp_all add: reserved_def popped_def released_def map_filter_simps)

theorem mpsc_fifo_witness:
  "take (length (popped [Tau, Tau, Tau, Reserved (7::nat), Tau, Tau])) [7] = popped [Tau, Tau, Tau, Reserved 7, Tau, Tau] \<and>
   length [7::nat] \<le> released [Tau, Tau, Tau, Reserved (7::nat), Tau, Tau] + 1 \<and>
   (\<forall>t. producers sample_full t \<noteq> P_panic) \<and> consumer sample_full \<noteq> C_panic"
  using mpsc_fifo [OF sample_queue _ sample_run] by (simp only: sample_trace) simp

theorem push_returns_witness: "snd (push_alone 5 (cf_queue sample_full) (P_load 8)) = P_done (Inl (Full 8))"
  using push_returns [OF sample_queue _ sample_run, of 8] by (simp add: sample_trace)

theorem pop_delivers_witness:
  "\<exists>co q' i st. consumer_step (cf_queue sample_full) (consumer sample_full) = Some (cf_queue sample_full, co, Tau) \<and>
     consumer_step (cf_queue sample_full) co = Some (q', C_borrow 7 i st, Popped 7)"
  using pop_delivers [OF sample_queue _ sample_run, of None] by (simp only: sample_trace) simp

theorem mpsc_refusals_witness:
  "\<exists>s s'. queue_run (queue_start sample :: (unit, nat) config) [Tau, Tau, Tau, Reserved 7, Tau, Tau, Tau, Tau] s \<and>
     queue_step s (PushRefused (Full 8)) s' \<and> length [7::nat] = 0 + 1"
proof -
  let ?s = "sample_full\<lparr>producers := \<lambda>t. P_loop 2 8\<rparr>"
  have "exec_acts sample_full [ActCall () 8, ActPush ()] = Some ([Tau, Tau], ?s)" by (simp add: fun_upd_def)
  from exec_acts_run [OF this sample_run]
  have run: "queue_run (queue_start sample :: (unit, nat) config) [Tau, Tau, Tau, Reserved 7, Tau, Tau, Tau, Tau] ?s" by simp
  have "producer_step False (cf_queue ?s) (producers ?s ()) = Some (cf_queue ?s, P_done (Inl (Full 8)), PushRefused (Full 8))"
    by (simp add: push_check_def nth_opt_def slot_index_def cmp_def)
  from push_step [OF this] obtain s' where st: "queue_step ?s (PushRefused (Full 8)) s'" by blast
  from mpsc_refusals [OF sample_queue _ run _ st] have "length [7::nat] = 0 + 1" by (simp add: sample_trace)
  with run st show ?thesis by blast
qed

end
