(* ===== verification/Task_State.thy ===== *)
theory Task_State
  imports Prelude "HOL-Library.Multiset"
begin

text \<open>
  The life of a task of the executor, \<^verbatim>\<open>asynchronix/src/executor/task.rs\<close> with \<^verbatim>\<open>runnable.rs\<close>, \<^verbatim>\<open>promise.rs\<close>,
  \<^verbatim>\<open>cancel_token.rs\<close> and \<^verbatim>\<open>util.rs\<close>: one atomic state word (flags, reference count, wake count), the core that
  holds the future or its output, and the references that share them. Every operation is split at its accesses
  to the task, and the references act concurrently in any order, each access taking effect at once. Touching
  the task after deallocation, or dropping a field of the core that is not there, is \<open>Undefined\<close>. What a
  future does when polled is arbitrary: it may clone or wake its waker, return, or panic. A panic of the
  library itself (too many references or wakes, a failed debug assertion) ends the execution.
\<close>

section \<open>The state word\<close>

definition POLLING :: u64 where
  "POLLING = 1"

definition CLOSED :: u64 where
  "CLOSED = 2"

definition REF_INC :: u64 where
  "REF_INC = 4"

definition WAKE_INC :: u64 where
  "WAKE_INC = 2 ^ 33"

definition REF_MASK :: u64 where
  "REF_MASK = NOT (REF_INC - 1) AND (WAKE_INC - 1)"

definition WAKE_MASK :: u64 where
  "WAKE_MASK = NOT (WAKE_INC - 1)"

definition REF_CRITICAL :: u64 where
  "REF_CRITICAL = (REF_MASK div 2) AND REF_MASK"

definition WAKE_CRITICAL :: u64 where
  "WAKE_CRITICAL = (WAKE_MASK div 2) AND WAKE_MASK"

definition runnable_exists :: "u64 \<Rightarrow> bool" where
  "runnable_exists s \<longleftrightarrow> s AND POLLING \<noteq> 0 \<and> s AND (WAKE_MASK OR CLOSED) \<noteq> 0"

section \<open>Tasks\<close>

datatype 'o task_core = CoreFuture | CoreOutput 'o | CoreEmpty

text \<open>The task in its allocated block: \<open>t_live\<close> until the block is deallocated, \<open>t_captures\<close> if the
  scheduling function captures variables.\<close>

record 'o task =
  t_state :: u64
  t_core :: "'o task_core"
  t_live :: bool
  t_captures :: bool

text \<open>Whoever refers to a task, with what it is about to do: a waker; a promise, which may be moving the
  output out; a cancellation token, which may be dropping the future or about to give up its reference; the
  runnable, from its creation by a wake to the end of \<^verbatim>\<open>run\<close> or \<^verbatim>\<open>cancel\<close>; and the last reference, which drops
  what is left in the task and deallocates it.\<close>

datatype 'o agent =
  Waker
| Promise | PromiseTaking
| Token | TokenDropping | TokenReleasing
| NewRunnable | Runnable | RunLoop u64 u64 | Polling u64 | RunPending u64
| RunReady 'o | RunPublish | RunDropOutput | RunClear
| CancelDrop | CancelClose
| ReapFuture | ReapOutput | Dealloc

datatype 'o task_event = Quiet | Polled "'o option" | Took 'o | StageCancelled | StagePending

datatype 'o outcome = Step "'o task" "'o agent list" "'o task_event" | Panic | Undefined | Disabled

text \<open>Accesses to the task. A read or write after deallocation is undefined, and so is the drop of a field of the
  core that is not there.\<close>

definition fetch_update :: "(u64 \<Rightarrow> u64) \<Rightarrow> 'o task \<Rightarrow> (u64 \<Rightarrow> 'o task \<Rightarrow> 'o outcome) \<Rightarrow> 'o outcome" where
  "fetch_update f t k = (if t_live t then k (t_state t) (t\<lparr>t_state := f (t_state t)\<rparr>) else Undefined)"

definition drop_future :: "'o task \<Rightarrow> ('o task \<Rightarrow> 'o outcome) \<Rightarrow> 'o outcome" where
  "drop_future t k = (if t_live t \<and> t_core t = CoreFuture then k (t\<lparr>t_core := CoreEmpty\<rparr>) else Undefined)"

definition take_output :: "'o task \<Rightarrow> ('o \<Rightarrow> 'o task \<Rightarrow> 'o outcome) \<Rightarrow> 'o outcome" where
  "take_output t k =
     (case t_core t of
        CoreOutput out \<Rightarrow> if t_live t then k out (t\<lparr>t_core := CoreEmpty\<rparr>) else Undefined
      | _ \<Rightarrow> Undefined)"

definition dealloc :: "'o task \<Rightarrow> 'o outcome" where
  "dealloc t = (if t_live t then Step (t\<lparr>t_live := False\<rparr>) [] Quiet else Undefined)"

section \<open>Wakers, promise and token\<close>

definition clone_waker :: "'o agent \<Rightarrow> 'o task \<Rightarrow> 'o outcome" where
  "clone_waker self t = fetch_update (\<lambda>s. s + REF_INC) t (\<lambda>s t.
     if s AND REF_MASK > REF_CRITICAL then Panic else Step t [self, Waker] Quiet)"

text \<open>The waker that finds an idle task creates the runnable; \<open>rest\<close> says what is left of the waker.\<close>

definition wake :: "u64 \<Rightarrow> (u64 \<Rightarrow> 'o agent list) \<Rightarrow> 'o task \<Rightarrow> 'o outcome" where
  "wake state_delta rest t = fetch_update (\<lambda>s. s + state_delta) t (\<lambda>s t.
     if s AND WAKE_MASK > WAKE_CRITICAL then Panic
     else Step t ((if s AND (WAKE_MASK OR CLOSED OR POLLING) = POLLING then [NewRunnable] else []) @ rest s) Quiet)"

definition wake_by_ref :: "'o agent \<Rightarrow> 'o task \<Rightarrow> 'o outcome" where
  "wake_by_ref self t = wake WAKE_INC (\<lambda>s. [self]) t"

text \<open>Drops of a waker, a promise or a token: the last reference cleans up, unless a runnable exists.\<close>

definition drop_waker :: "'o task \<Rightarrow> 'o outcome" where
  "drop_waker t = fetch_update (\<lambda>s. s - REF_INC) t (\<lambda>s t.
     Step t (if s AND REF_MASK = REF_INC \<and> \<not> runnable_exists s
             then [if s AND POLLING = POLLING then ReapFuture
                   else if s AND CLOSED = 0 then ReapOutput else Dealloc]
             else []) Quiet)"

definition promise_drop :: "'o task \<Rightarrow> 'o outcome" where
  "promise_drop t = drop_waker t"

definition token_drop :: "'o task \<Rightarrow> 'o outcome" where
  "token_drop t = drop_waker t"

definition wake_by_val :: "'o task \<Rightarrow> 'o outcome" where
  "wake_by_val t =
     (if t_captures t then (case drop_waker t of Undefined \<Rightarrow> Undefined | _ \<Rightarrow> Panic)
      else wake (WAKE_INC - REF_INC) (\<lambda>s.
        if s AND (REF_MASK OR POLLING) = REF_INC then [if s AND CLOSED = 0 then ReapOutput else Dealloc] else []) t)"

definition promise_poll :: "'o task \<Rightarrow> 'o outcome" where
  "promise_poll t = fetch_update (\<lambda>s. if s AND (POLLING OR CLOSED) = 0 then s OR CLOSED else s) t (\<lambda>s t.
     if s AND (POLLING OR CLOSED) = 0 then Step t [PromiseTaking] Quiet
     else Step t [Promise] (if s AND CLOSED = CLOSED then StageCancelled else StagePending))"

definition promise_take :: "'o task \<Rightarrow> 'o outcome" where
  "promise_take t = take_output t (\<lambda>out t. Step t [Promise] (Took out))"

definition token_cancel :: "'o task \<Rightarrow> 'o outcome" where
  "token_cancel t = fetch_update (\<lambda>s.
       if s AND POLLING = 0 then s - REF_INC
       else if runnable_exists s then (s OR CLOSED) - REF_INC
       else (s OR CLOSED) AND NOT POLLING) t (\<lambda>s t.
     if runnable_exists s then Step t [] Quiet
     else if s AND POLLING = 0
     then Step t (if s AND REF_MASK = REF_INC then [if s AND CLOSED = 0 then ReapOutput else Dealloc] else []) Quiet
     else Step t [TokenDropping] Quiet)"

definition token_release :: "'o task \<Rightarrow> 'o outcome" where
  "token_release t = fetch_update (\<lambda>s. s - REF_INC) t (\<lambda>s t.
     Step t (if s AND REF_MASK = REF_INC then [Dealloc] else []) Quiet)"

section \<open>The runnable\<close>

definition schedule_task :: "'o task \<Rightarrow> 'o outcome" where
  "schedule_task t = (if t_live t then Step t [Runnable] Quiet else Undefined)"

definition run_enter :: "'o task \<Rightarrow> 'o outcome" where
  "run_enter t = fetch_update (\<lambda>s. s) t (\<lambda>s t.
     if s AND POLLING = POLLING then Step t [RunLoop s (s AND WAKE_MASK)] Quiet else Panic)"

definition run_loop :: "u64 \<Rightarrow> u64 \<Rightarrow> 'o task \<Rightarrow> 'o outcome" where
  "run_loop s wake_count t =
     (if s AND CLOSED = CLOSED then Step t [CancelDrop] Quiet
      else if t_live t \<and> t_core t = CoreFuture then Step t [Polling wake_count] Quiet else Undefined)"

text \<open>A ready future is dropped and its output stored; if a drop panics, the guard closes the task.\<close>

definition run_ready :: "'o \<Rightarrow> 'o task \<Rightarrow> 'o outcome" where
  "run_ready out t = drop_future t (\<lambda>t. Step (t\<lparr>t_core := CoreOutput out\<rparr>) [RunPublish] Quiet)"

definition run_publish :: "'o task \<Rightarrow> 'o outcome" where
  "run_publish t = fetch_update (\<lambda>s. if s AND CLOSED = CLOSED \<or> s AND REF_MASK = 0 then s else s AND NOT POLLING) t (\<lambda>s t.
     Step t (if s AND CLOSED = CLOSED \<or> s AND REF_MASK = 0 then [RunDropOutput] else []) Quiet)"

definition run_clear :: "'o task \<Rightarrow> 'o outcome" where
  "run_clear t = fetch_update (\<lambda>s. s AND NOT POLLING) t (\<lambda>s t. Step t (if s AND REF_MASK = 0 then [Dealloc] else []) Quiet)"

definition run_pending :: "u64 \<Rightarrow> 'o task \<Rightarrow> 'o outcome" where
  "run_pending wake_count t = fetch_update (\<lambda>s. s - wake_count) t (\<lambda>s t.
     if \<not> s > wake_count then Panic
     else let wake_count = (s AND WAKE_MASK) - wake_count
          in if wake_count = 0 \<and> s AND CLOSED = 0
             then Step t (if s AND REF_MASK = 0 then [ReapFuture] else []) Quiet
             else Step t [RunLoop s wake_count] Quiet)"

definition cancel_close :: "'o task \<Rightarrow> 'o outcome" where
  "cancel_close t = fetch_update (\<lambda>s. (s OR CLOSED) AND NOT POLLING) t (\<lambda>s t.
     Step t (if s AND REF_MASK = 0 then [Dealloc] else []) Quiet)"

section \<open>Concurrent execution\<close>

datatype 'o choice = Go | Clone | WakeVal | WakeRef | DropRef | PollPromise | Cancel | RunIt | Ready 'o | Pending | Unwind

fun act :: "'o agent \<Rightarrow> 'o choice \<Rightarrow> 'o task \<Rightarrow> 'o outcome" where
  "act Waker ch t =
     (case ch of Clone \<Rightarrow> clone_waker Waker t | WakeVal \<Rightarrow> wake_by_val t | WakeRef \<Rightarrow> wake_by_ref Waker t
      | DropRef \<Rightarrow> drop_waker t | _ \<Rightarrow> Disabled)"
| "act Promise ch t = (case ch of PollPromise \<Rightarrow> promise_poll t | DropRef \<Rightarrow> promise_drop t | _ \<Rightarrow> Disabled)"
| "act PromiseTaking ch t = promise_take t"
| "act Token ch t = (case ch of Cancel \<Rightarrow> token_cancel t | DropRef \<Rightarrow> token_drop t | _ \<Rightarrow> Disabled)"
| "act TokenDropping ch t = drop_future t (\<lambda>t. Step t [TokenReleasing] Quiet)"
| "act TokenReleasing ch t = token_release t"
| "act NewRunnable ch t = schedule_task t"
| "act Runnable ch t =
     (case ch of RunIt \<Rightarrow> run_enter t | DropRef \<Rightarrow> Step t [CancelDrop] Quiet | _ \<Rightarrow> Disabled)"
| "act (RunLoop s wc) ch t = run_loop s wc t"
| "act (Polling wc) ch t =
     (case ch of
        Clone \<Rightarrow> clone_waker (Polling wc) t
      | WakeRef \<Rightarrow> wake_by_ref (Polling wc) t
      | Ready out \<Rightarrow> Step t [RunReady out] (Polled (Some out))
      | Pending \<Rightarrow> Step t [RunPending wc] (Polled None)
      | Unwind \<Rightarrow> Step t [CancelDrop] Quiet
      | _ \<Rightarrow> Disabled)"
| "act (RunPending wc) ch t = run_pending wc t"
| "act (RunReady out) ch t =
     (case ch of Unwind \<Rightarrow> drop_future t (\<lambda>t. Step t [CancelClose] Quiet) | _ \<Rightarrow> run_ready out t)"
| "act RunPublish ch t = run_publish t"
| "act RunDropOutput ch t =
     take_output t (\<lambda>out t. Step t [if ch = Unwind then CancelClose else RunClear] Quiet)"
| "act RunClear ch t = run_clear t"
| "act CancelDrop ch t = drop_future t (\<lambda>t. Step t [CancelClose] Quiet)"
| "act CancelClose ch t = cancel_close t"
| "act ReapFuture ch t = drop_future t (\<lambda>t. Step t [Dealloc] Quiet)"
| "act ReapOutput ch t = take_output t (\<lambda>out t. Step t [Dealloc] Quiet)"
| "act Dealloc ch t = dealloc t"

record 'o system =
  sys_task :: "'o task"
  agents :: "'o agent multiset"

inductive task_step :: "'o system \<Rightarrow> 'o task_event \<Rightarrow> 'o system \<Rightarrow> bool" where
  task_act: "agents s = add_mset a rest \<Longrightarrow> act a ch (sys_task s) = Step t new ev \<Longrightarrow>
     task_step s ev \<lparr>sys_task = t, agents = rest + mset new\<rparr>"

inductive task_run :: "'o system \<Rightarrow> 'o task_event list \<Rightarrow> 'o system \<Rightarrow> bool" where
  task_run_none: "task_run s [] s"
| task_run_step: "task_run s tr s' \<Longrightarrow> task_step s' ev s'' \<Longrightarrow> task_run s (tr @ [ev]) s''"

definition spawn :: "bool \<Rightarrow> 'o system" where
  "spawn captures =
     \<lparr>sys_task = \<lparr>t_state = (2 * REF_INC) OR WAKE_INC OR POLLING, t_core = CoreFuture, t_live = True, t_captures = captures\<rparr>,
      agents = {#Promise, Runnable, Token#}\<rparr>"

definition spawn_and_forget :: "bool \<Rightarrow> 'o system" where
  "spawn_and_forget captures =
     \<lparr>sys_task = \<lparr>t_state = REF_INC OR WAKE_INC OR POLLING, t_core = CoreFuture, t_live = True, t_captures = captures\<rparr>,
      agents = {#Runnable, Token#}\<rparr>"


section \<open>Fields of the state word\<close>

definition state_nat :: "nat \<Rightarrow> nat \<Rightarrow> bool \<Rightarrow> bool \<Rightarrow> nat" where
  "state_nat w r c p = w * 2 ^ 33 + r * 4 + (if c then 2 else 0) + (if p then 1 else 0)"

definition state_word :: "nat \<Rightarrow> nat \<Rightarrow> bool \<Rightarrow> bool \<Rightarrow> u64" where
  "state_word w r c p = word_of_nat (state_nat w r c p)"

definition counts_ok :: "nat \<Rightarrow> nat \<Rightarrow> bool" where
  "counts_ok w r \<longleftrightarrow> w < 2 ^ 31 \<and> r < 2 ^ 31"

lemma unat_state:
  assumes "counts_ok w r"
  shows "unat (state_word w r c p) = state_nat w r c p"
proof -
  have "state_nat w r c p < 2 ^ 64" using assms by (simp add: state_nat_def counts_ok_def)
  then show ?thesis by (simp add: state_word_def unat_of_nat)
qed

lemma state_mods:
  assumes "counts_ok w r"
  shows "state_nat w r c p mod 2 = (if p then 1 else 0)"
    "state_nat w r c p mod 4 = (if c then 2 else 0) + (if p then 1 else 0)"
    "state_nat w r c p mod 2 ^ 33 = r * 4 + (if c then 2 else 0) + (if p then 1 else 0)"
proof -
  have s: "state_nat w r c p = (w * 2 ^ 31 + r) * 4 + ((if c then 2 else 0) + (if p then 1 else 0))" by (simp add: state_nat_def)
  show m4: "state_nat w r c p mod 4 = (if c then 2 else 0) + (if p then 1 else 0)" unfolding s by (subst mod_mult_self3) simp
  then show "state_nat w r c p mod 2 = (if p then 1 else 0)" by (cases c; cases p) presburger+
  have "r * 4 + (if c then 2 else 0) + (if p then 1 else 0) < 2 ^ 33" using assms by (simp add: counts_ok_def)
  moreover have "state_nat w r c p = w * 2 ^ 33 + (r * 4 + (if c then 2 else 0) + (if p then 1 else 0))" by (simp add: state_nat_def)
  ultimately show "state_nat w r c p mod 2 ^ 33 = r * 4 + (if c then 2 else 0) + (if p then 1 else 0)"
    by (metis mod_mult_self3 mod_less)
qed

lemma unat_mask_numerals:
  "unat (w AND 1 :: u64) = unat w mod 2" "unat (w AND 3 :: u64) = unat w mod 4" "unat (w AND NOT 3 :: u64) = unat w - unat w mod 4"
  "unat (w AND NOT 1 :: u64) = unat w - unat w mod 2"
  using unat_and_mask [of w 1] unat_and_mask [of w 2] unat_and_not_mask [of w 2] unat_and_not_mask [of w 1] by simp_all

lemma u64_eqI: "unat a = unat b \<Longrightarrow> a = (b :: u64)"
  by (simp add: word_unat_eq_iff)

lemma unat_small: "n < 2 ^ 64 \<Longrightarrow> unat (word_of_nat n :: u64) = n"
  by (simp add: unat_of_nat)

lemma state_polling_num: "counts_ok w r \<Longrightarrow> state_word w r c p AND POLLING = (if p then 1 else 0)"
  by (rule u64_eqI) (simp add: POLLING_def unat_mask_numerals unat_state state_mods)

lemma and_two: "unat (w AND 2 :: u64) = unat w mod 4 - unat w mod 2"
proof -
  have "w AND 2 = (w AND 3) AND NOT 1" by (simp add: and.assoc)
  then have "unat (w AND 2) = unat w mod 4 - unat w mod 4 mod 2" by (simp only: unat_mask_numerals)
  then show ?thesis by (simp add: mod_mod_cancel)
qed

lemma state_closed_num: "counts_ok w r \<Longrightarrow> state_word w r c p AND CLOSED = (if c then 2 else 0)"
  by (rule u64_eqI) (simp add: CLOSED_def and_two unat_state state_mods)

lemma state_ref:
  assumes "counts_ok w r"
  shows "state_word w r c p AND REF_MASK = word_of_nat (r * 4)"
proof (rule u64_eqI)
  have "state_word w r c p AND REF_MASK = (state_word w r c p AND (2 ^ 33 - 1)) AND NOT 3"
    by (simp add: REF_MASK_def REF_INC_def WAKE_INC_def and.assoc)
  then have "unat (state_word w r c p AND REF_MASK) = state_nat w r c p mod 2 ^ 33 - state_nat w r c p mod 2 ^ 33 mod 4"
    using assms by (simp only: unat_mask_numerals unat_and_mask unat_state)
  also have "\<dots> = state_nat w r c p mod 2 ^ 33 - state_nat w r c p mod 4"
    using mod_mod_cancel [of 4 "2 ^ 33" "state_nat w r c p"] by simp
  also have "\<dots> = r * 4" unfolding state_mods [OF assms] by simp
  finally show "unat (state_word w r c p AND REF_MASK) = unat (word_of_nat (r * 4) :: u64)"
    using assms by (subst unat_small) (simp_all add: counts_ok_def)
qed

lemma state_wake:
  assumes "counts_ok w r"
  shows "state_word w r c p AND WAKE_MASK = word_of_nat (w * 2 ^ 33)"
proof (rule u64_eqI)
  have "unat (state_word w r c p AND WAKE_MASK) = state_nat w r c p - state_nat w r c p mod 2 ^ 33"
    unfolding WAKE_MASK_def WAKE_INC_def unat_and_not_mask using assms by (simp only: unat_state)
  also have "\<dots> = w * 2 ^ 33" using assms unfolding state_mods(3) [OF assms] by (simp add: state_nat_def)
  finally show "unat (state_word w r c p AND WAKE_MASK) = unat (word_of_nat (w * 2 ^ 33) :: u64)"
    using assms by (subst unat_small) (simp_all add: counts_ok_def)
qed

lemma state_idle:
  assumes "counts_ok w r"
  shows "state_word w r c p AND (WAKE_MASK OR CLOSED OR POLLING) = POLLING \<longleftrightarrow> w = 0 \<and> \<not> c \<and> p"
proof -
  have m: "WAKE_MASK OR CLOSED OR POLLING = NOT REF_MASK"
    by (simp add: WAKE_MASK_def CLOSED_def POLLING_def REF_MASK_def REF_INC_def WAKE_INC_def)
  have "state_word w r c p AND NOT REF_MASK = state_word w r c p - (state_word w r c p AND REF_MASK)"
    using and_not_plus_and [of "state_word w r c p" REF_MASK] by (simp add: eq_diff_eq)
  also have "\<dots> = word_of_nat (state_nat w r c p - r * 4)"
    unfolding state_ref [OF assms] by (simp add: state_word_def of_nat_diff state_nat_def)
  finally have u: "unat (state_word w r c p AND NOT REF_MASK) = state_nat w r c p - r * 4"
    using assms by (simp only:) (rule unat_small, simp add: counts_ok_def state_nat_def)
  have "state_word w r c p AND NOT REF_MASK = 1 \<longleftrightarrow> state_nat w r c p - r * 4 = 1" by (simp only: word_unat_eq_iff u unsigned_1)
  then show ?thesis unfolding m by (auto simp: POLLING_def state_nat_def)
qed

lemma state_last:
  assumes "counts_ok w r"
  shows "state_word w r c p AND (REF_MASK OR POLLING) = REF_INC \<longleftrightarrow> r = 1 \<and> \<not> p"
proof -
  let ?s = "state_word w r c p"
  have "?s AND (REF_MASK OR POLLING) = (?s AND REF_MASK) OR (?s AND POLLING)" by (rule bit_word_eqI) (auto simp: bit_and_iff bit_or_iff)
  also have "\<dots> = (?s AND REF_MASK) + (?s AND POLLING)"
  proof (rule disjunctive_add_eq_or [symmetric])
    have "REF_MASK AND POLLING = 0" by (simp add: REF_MASK_def POLLING_def REF_INC_def WAKE_INC_def)
    moreover have "(?s AND REF_MASK) AND (?s AND POLLING) = ?s AND (REF_MASK AND POLLING)"
      by (rule bit_word_eqI) (auto simp: bit_and_iff)
    ultimately show "(?s AND REF_MASK) AND (?s AND POLLING) = 0" by simp
  qed
  also have "\<dots> = word_of_nat (r * 4 + (if p then 1 else 0))" using assms by (simp add: state_ref state_polling_num)
  finally have "unat (?s AND (REF_MASK OR POLLING)) = r * 4 + (if p then 1 else 0)"
    using assms by (simp only:) (rule unat_small, simp add: counts_ok_def)
  moreover have "unat REF_INC = 4" by (simp add: REF_INC_def)
  ultimately have "?s AND (REF_MASK OR POLLING) = REF_INC \<longleftrightarrow> r * 4 + (if p then 1 else 0) = 4"
    by (simp only: word_unat_eq_iff)
  also have "\<dots> \<longleftrightarrow> r = 1 \<and> \<not> p" by (cases p) presburger+
  finally show ?thesis .
qed

lemma state_or_masks:
  assumes "counts_ok w r"
  shows "state_word w r c p AND (WAKE_MASK OR CLOSED) = 0 \<longleftrightarrow> w = 0 \<and> \<not> c"
    "state_word w r c p AND (POLLING OR CLOSED) = 0 \<longleftrightarrow> \<not> p \<and> \<not> c"
proof -
  have d: "s AND (m OR n) = 0 \<longleftrightarrow> s AND m = 0 \<and> s AND n = 0" for s m n :: u64
    unfolding bit.conj_disj_distrib or_eq_0_iff ..
  have "word_of_nat (w * 2 ^ 33) = (0 :: u64) \<longleftrightarrow> w = 0"
    using unat_small [of "w * 2 ^ 33"] assms by (auto simp: counts_ok_def)
  then show "state_word w r c p AND (WAKE_MASK OR CLOSED) = 0 \<longleftrightarrow> w = 0 \<and> \<not> c"
    unfolding d state_wake [OF assms] state_closed_num [OF assms] by simp
  show "state_word w r c p AND (POLLING OR CLOSED) = 0 \<longleftrightarrow> \<not> p \<and> \<not> c"
    unfolding d state_polling_num [OF assms] state_closed_num [OF assms] by simp
qed

lemma state_runnable: "counts_ok w r \<Longrightarrow> runnable_exists (state_word w r c p) \<longleftrightarrow> p \<and> (w > 0 \<or> c)"
  by (simp add: runnable_exists_def state_polling_num state_or_masks)

lemma state_ref_iff:
  assumes "counts_ok w r"
  shows "state_word w r c p AND REF_MASK = REF_INC \<longleftrightarrow> r = 1" "state_word w r c p AND REF_MASK = 0 \<longleftrightarrow> r = 0"
    "state_word w r c p AND REF_MASK > REF_CRITICAL \<longleftrightarrow> r \<ge> 2 ^ 30"
    "state_word w r c p AND WAKE_MASK > WAKE_CRITICAL \<longleftrightarrow> w \<ge> 2 ^ 30"
proof -
  have u: "unat (word_of_nat (r * 4) :: u64) = r * 4" "unat (word_of_nat (w * 2 ^ 33) :: u64) = w * 2 ^ 33"
    by (rule unat_small, use assms in \<open>simp add: counts_ok_def\<close>)+
  have k: "unat REF_INC = 4" "unat REF_CRITICAL = (2 ^ 30 - 1) * 4" "unat WAKE_CRITICAL = (2 ^ 30 - 1) * 2 ^ 33"
    by (simp_all add: REF_INC_def REF_CRITICAL_def WAKE_CRITICAL_def REF_MASK_def WAKE_MASK_def WAKE_INC_def)
  show "state_word w r c p AND REF_MASK = REF_INC \<longleftrightarrow> r = 1"
    unfolding state_ref [OF assms] word_unat_eq_iff u k by auto
  show "state_word w r c p AND REF_MASK = 0 \<longleftrightarrow> r = 0"
    unfolding state_ref [OF assms] word_unat_eq_iff u unsigned_0 by simp
  show "state_word w r c p AND REF_MASK > REF_CRITICAL \<longleftrightarrow> r \<ge> 2 ^ 30"
    unfolding state_ref [OF assms] word_less_nat_alt u k by auto
  show "state_word w r c p AND WAKE_MASK > WAKE_CRITICAL \<longleftrightarrow> w \<ge> 2 ^ 30"
    unfolding state_wake [OF assms] word_less_nat_alt u k by auto
qed

text \<open>Updates of the fields.\<close>

lemma state_updates:
  assumes "counts_ok w r"
  shows "state_word w r c p + REF_INC = state_word w (r + 1) c p"
    "0 < r \<Longrightarrow> state_word w r c p - REF_INC = state_word w (r - 1) c p"
    "state_word w r c p + WAKE_INC = state_word (w + 1) r c p"
    "0 < r \<Longrightarrow> state_word w r c p + (WAKE_INC - REF_INC) = state_word (w + 1) (r - 1) c p"
    "v \<le> w \<Longrightarrow> state_word w r c p - word_of_nat (v * 2 ^ 33) = state_word (w - v) r c p"
    "state_word w r c p OR CLOSED = state_word w r True p" "state_word w r c p AND NOT POLLING = state_word w r c False"
proof -
  show "state_word w r c p + REF_INC = state_word w (r + 1) c p" "state_word w r c p + WAKE_INC = state_word (w + 1) r c p"
    by (simp_all add: state_word_def state_nat_def REF_INC_def WAKE_INC_def)
  show "state_word w r c p - REF_INC = state_word w (r - 1) c p" if "0 < r"
    using that by (cases r) (simp_all add: state_word_def state_nat_def REF_INC_def)
  show "state_word w r c p + (WAKE_INC - REF_INC) = state_word (w + 1) (r - 1) c p" if "0 < r"
    using that by (cases r) (simp_all add: state_word_def state_nat_def REF_INC_def WAKE_INC_def)
  show "state_word w r c p - word_of_nat (v * 2 ^ 33) = state_word (w - v) r c p" if "v \<le> w"
    using that by (simp add: state_word_def state_nat_def of_nat_diff algebra_simps)
  show "state_word w r c p OR CLOSED = state_word w r True p"
  proof (cases c)
    case True
    have "state_word w r True p AND CLOSED = CLOSED" using state_closed_num [OF assms, of True p] by (simp add: CLOSED_def)
    then have "bit (state_word w r True p) n" if "bit CLOSED n" for n using that by (metis bit_and_iff)
    with True show ?thesis by (intro bit_word_eqI) (auto simp: bit_or_iff)
  next
    case False
    then have "state_word w r c p AND CLOSED = 0" using state_closed_num [OF assms] by simp
    then have "state_word w r c p OR CLOSED = state_word w r c p + CLOSED" by (rule disjunctive_add_eq_or [symmetric])
    with False show ?thesis by (simp add: state_word_def state_nat_def CLOSED_def)
  qed
  have "state_word w r c p AND NOT POLLING = state_word w r c p - (state_word w r c p AND POLLING)"
    using and_not_plus_and [of "state_word w r c p" POLLING] by (simp add: eq_diff_eq)
  then show "state_word w r c p AND NOT POLLING = state_word w r c False"
    unfolding state_polling_num [OF assms] by (simp add: state_word_def state_nat_def)
qed

lemma state_flags:
  assumes "counts_ok w r"
  shows "state_word w r c p AND POLLING = (if p then POLLING else 0)" "state_word w r c p AND CLOSED = (if c then CLOSED else 0)"
  using state_polling_num [OF assms] state_closed_num [OF assms] by (simp_all add: POLLING_def CLOSED_def)

section \<open>Invariant\<close>

text \<open>Which agents count as references, act for the runnable, or own the core for themselves.\<close>

fun holds_ref :: "'o agent \<Rightarrow> bool" where
  "holds_ref Waker = True"
| "holds_ref Promise = True"
| "holds_ref PromiseTaking = True"
| "holds_ref Token = True"
| "holds_ref TokenDropping = True"
| "holds_ref TokenReleasing = True"
| "holds_ref a = False"

fun is_runner :: "'o agent \<Rightarrow> bool" where
  "is_runner NewRunnable = True"
| "is_runner Runnable = True"
| "is_runner (RunLoop s wc) = True"
| "is_runner (Polling wc) = True"
| "is_runner (RunPending wc) = True"
| "is_runner (RunReady out) = True"
| "is_runner RunPublish = True"
| "is_runner RunDropOutput = True"
| "is_runner RunClear = True"
| "is_runner CancelDrop = True"
| "is_runner CancelClose = True"
| "is_runner a = False"

fun is_reaper :: "'o agent \<Rightarrow> bool" where
  "is_reaper ReapFuture = True"
| "is_reaper ReapOutput = True"
| "is_reaper Dealloc = True"
| "is_reaper a = False"

fun is_taker :: "'o agent \<Rightarrow> bool" where
  "is_taker PromiseTaking = True"
| "is_taker TokenDropping = True"
| "is_taker a = False"

definition has_output :: "'o task \<Rightarrow> bool" where
  "has_output t \<longleftrightarrow> (\<exists>out. t_core t = CoreOutput out)"

text \<open>What a runner relies on, with \<open>w\<close>, \<open>r\<close> and \<open>c\<close> the wake count, the reference count and the closed flag.\<close>

fun runner_ok :: "nat \<Rightarrow> nat \<Rightarrow> bool \<Rightarrow> 'o task \<Rightarrow> 'o agent \<Rightarrow> bool" where
  "runner_ok w r c t (RunLoop s wc) \<longleftrightarrow>
     t_core t = CoreFuture \<and> (\<exists>v\<le>w. wc = word_of_nat (v * 2 ^ 33)) \<and> (s AND CLOSED = CLOSED \<longrightarrow> c)"
| "runner_ok w r c t (Polling wc) \<longleftrightarrow> t_core t = CoreFuture \<and> (\<exists>v\<le>w. wc = word_of_nat (v * 2 ^ 33))"
| "runner_ok w r c t (RunPending wc) \<longleftrightarrow> t_core t = CoreFuture \<and> (\<exists>v\<le>w. wc = word_of_nat (v * 2 ^ 33))"
| "runner_ok w r c t RunPublish \<longleftrightarrow> has_output t"
| "runner_ok w r c t RunDropOutput \<longleftrightarrow> has_output t \<and> (c \<or> r = 0)"
| "runner_ok w r c t RunClear \<longleftrightarrow> t_core t = CoreEmpty \<and> (c \<or> r = 0)"
| "runner_ok w r c t CancelClose \<longleftrightarrow> t_core t = CoreEmpty"
| "runner_ok w r c t a \<longleftrightarrow> t_core t = CoreFuture"

fun reaper_ok :: "'o task \<Rightarrow> 'o agent \<Rightarrow> bool" where
  "reaper_ok t ReapFuture \<longleftrightarrow> t_core t = CoreFuture"
| "reaper_ok t ReapOutput \<longleftrightarrow> has_output t"
| "reaper_ok t Dealloc \<longleftrightarrow> t_core t = CoreEmpty"
| "reaper_ok t a \<longleftrightarrow> False"

text \<open>The phases of the documentation: while a runnable exists; idle, completed and closed otherwise, where in the
  closed phase one reference may still be moving the output out or dropping the future.\<close>

definition running_phase :: "nat \<Rightarrow> nat \<Rightarrow> bool \<Rightarrow> bool \<Rightarrow> 'o task \<Rightarrow> 'o agent multiset \<Rightarrow> bool" where
  "running_phase w r c p t A \<longleftrightarrow>
     p \<and> (0 < w \<or> c) \<and> filter_mset is_taker A = {#} \<and> (\<exists>a. filter_mset is_runner A = {#a#} \<and> runner_ok w r c t a)"

definition resting_phase :: "nat \<Rightarrow> nat \<Rightarrow> bool \<Rightarrow> bool \<Rightarrow> 'o task \<Rightarrow> 'o agent multiset \<Rightarrow> bool" where
  "resting_phase w r c p t A \<longleftrightarrow>
     0 < r \<and> filter_mset is_runner A = {#} \<and>
     (p \<and> \<not> c \<and> w = 0 \<and> t_core t = CoreFuture \<and> filter_mset is_taker A = {#} \<or>
      \<not> p \<and> \<not> c \<and> has_output t \<and> filter_mset is_taker A = {#} \<or>
      \<not> p \<and> c \<and> (t_core t = CoreEmpty \<and> filter_mset is_taker A = {#} \<or>
        has_output t \<and> filter_mset is_taker A = {#PromiseTaking#} \<or>
        t_core t = CoreFuture \<and> filter_mset is_taker A = {#TokenDropping#}))"

definition shared_inv :: "nat \<Rightarrow> nat \<Rightarrow> bool \<Rightarrow> bool \<Rightarrow> 'o task \<Rightarrow> 'o agent multiset \<Rightarrow> bool" where
  "shared_inv w r c p t A \<longleftrightarrow>
     t_live t \<and> t_state t = state_word w r c p \<and> w \<le> 2 ^ 30 \<and> r \<le> 2 ^ 30 \<and> r = size (filter_mset holds_ref A) \<and>
     filter_mset is_reaper A = {#} \<and> (running_phase w r c p t A \<or> resting_phase w r c p t A) \<and>
     (TokenReleasing \<in># A \<longrightarrow> \<not> p \<and> c)"

definition task_inv :: "'o system \<Rightarrow> bool" where
  "task_inv s \<longleftrightarrow>
     (\<exists>w r c p. shared_inv w r c p (sys_task s) (agents s)) \<or>
     (\<exists>a. agents s = {#a#} \<and> t_live (sys_task s) \<and> reaper_ok (sys_task s) a) \<or>
     (agents s = {#} \<and> \<not> t_live (sys_task s) \<and> t_core (sys_task s) = CoreEmpty)"

lemma agent_kinds:
  "holds_ref a \<or> is_runner a \<or> is_reaper a" "\<not> (holds_ref a \<and> is_runner a)" "\<not> (holds_ref a \<and> is_reaper a)"
  "\<not> (is_runner a \<and> is_reaper a)" "is_taker a \<Longrightarrow> holds_ref a"
  by (cases a; simp)+

text \<open>Without runner and reaper, the references are all there is.\<close>

lemma only_refs:
  assumes "filter_mset is_runner A = {#}" "filter_mset is_reaper A = {#}"
  shows "filter_mset holds_ref A = A"
proof -
  have "\<forall>a\<in>#A. holds_ref a" using assms agent_kinds(1) unfolding filter_mset_eq_mempty_iff by blast
  then show ?thesis by (induction A) auto
qed

definition good :: "'o agent multiset \<Rightarrow> 'o outcome \<Rightarrow> bool" where
  "good R out = (case out of Step t new ev \<Rightarrow> task_inv \<lparr>sys_task = t, agents = R + mset new\<rparr> | Undefined \<Rightarrow> False | _ \<Rightarrow> True)"

lemma good_simps [simp]:
  "good R Panic" "good R Disabled" "\<not> good R Undefined"
  by (simp_all add: good_def)

lemma good_shared: "shared_inv w r c p t (R + mset new) \<Longrightarrow> good R (Step t new ev)"
  unfolding good_def task_inv_def by auto

lemma good_reap: "R = {#} \<Longrightarrow> t_live t \<Longrightarrow> reaper_ok t a \<Longrightarrow> good R (Step t [a] ev)"
  unfolding good_def task_inv_def by auto

lemma shared_counts: "shared_inv w r c p t A \<Longrightarrow> counts_ok w r" "shared_inv w r c p t A \<Longrightarrow> counts_ok (w + 1) (r + 1)"
  by (simp_all add: shared_inv_def counts_ok_def)

lemmas state_reads = state_flags state_idle state_last state_or_masks state_runnable state_ref_iff

lemma flags_nonzero [simp]: "POLLING \<noteq> 0" "CLOSED \<noteq> 0"
  by (simp_all add: POLLING_def CLOSED_def)

section \<open>Every step keeps the invariant\<close>

text \<open>The last reference finds nobody else, unless a runnable exists.\<close>

lemma last_reference:
  assumes "shared_inv w 1 c p t (add_mset a R)" "holds_ref a" "\<not> (p \<and> (0 < w \<or> c))"
  shows "R = {#}" "is_taker a \<or> (if p then t_core t = CoreFuture else if c then t_core t = CoreEmpty else has_output t)"
proof -
  have r: "resting_phase w 1 c p t (add_mset a R)" using assms by (auto simp: shared_inv_def running_phase_def)
  then have R: "filter_mset is_runner R = {#}" "filter_mset is_reaper R = {#}"
    using assms(1,2) agent_kinds(2,3) [of a] by (auto simp: resting_phase_def shared_inv_def split: if_splits)
  have "size (filter_mset holds_ref R) = 0" using assms(1,2) by (simp add: shared_inv_def)
  then show e: "R = {#}" using only_refs [OF R] by simp
  show "is_taker a \<or> (if p then t_core t = CoreFuture else if c then t_core t = CoreEmpty else has_output t)"
    using r e by (auto simp: resting_phase_def split: if_splits)
qed

text \<open>A runner relies on less when the closed flag is set, references go away or wakes arrive.\<close>

lemma runner_ok_mono:
  assumes "runner_ok w r c t a" "w \<le> w'" "c \<longrightarrow> c'" "c \<or> r = 0 \<longrightarrow> c' \<or> r' = 0" "t_core t' = t_core t"
  shows "runner_ok w' r' c' t' a"
  using assms by (cases a) (auto simp: has_output_def intro: order_trans)

lemma has_output_cong: "t_core t' = t_core t \<Longrightarrow> has_output t' = has_output t"
  by (simp add: has_output_def)

text \<open>A reference that goes away while others remain, or that leaves the task to the runnable.\<close>

lemma drop_reference:
  assumes I: "shared_inv w r c p t (add_mset a R)" and a: "holds_ref a" "\<not> is_taker a" and l: "r \<noteq> 1 \<or> p \<and> (0 < w \<or> c)"
    and c': "c \<longrightarrow> c'" "c' = c \<or> p \<and> (0 < w \<or> c)" and t': "t_live t'" "t_core t' = t_core t" "t_state t' = state_word w (r - 1) c' p"
  shows "shared_inv w (r - 1) c' p t' R"
proof -
  have f: "filter_mset is_runner (add_mset a R) = filter_mset is_runner R" "filter_mset is_taker (add_mset a R) = filter_mset is_taker R"
    "filter_mset is_reaper (add_mset a R) = filter_mset is_reaper R"
    using a agent_kinds [of a] by auto
  have r: "r = Suc (size (filter_mset holds_ref R))" using I a(1) by (simp add: shared_inv_def)
  have "running_phase w (r - 1) c' p t' R \<or> resting_phase w (r - 1) c' p t' R"
  proof (cases "running_phase w r c p t (add_mset a R)")
    case True
    then obtain b where b: "filter_mset is_runner R = {#b#}" "runner_ok w r c t b" "p" "0 < w \<or> c" "filter_mset is_taker R = {#}"
      unfolding running_phase_def f by blast
    have "runner_ok w (r - 1) c' t' b" by (rule runner_ok_mono [OF b(2)]) (use c' r t' in auto)
    with b c'(1) show ?thesis unfolding running_phase_def by auto
  next
    case False
    then have "resting_phase w r c p t (add_mset a R)" using I unfolding shared_inv_def by blast
    then have q: "resting_phase w r c p t R" unfolding resting_phase_def f .
    then have "\<not> (p \<and> (0 < w \<or> c))" by (auto simp: resting_phase_def)
    then have "r \<noteq> 1" "c' = c" using l c' by auto
    then have "0 < r - 1" using r by linarith
    with q \<open>c' = c\<close> t'(2) show ?thesis using has_output_cong [OF t'(2)] by (simp add: resting_phase_def)
  qed
  moreover have "w \<le> 2 ^ 30" "r \<le> 2 ^ 30" "filter_mset is_reaper R = {#}" "TokenReleasing \<in># R \<longrightarrow> \<not> p \<and> c'"
    using I c'(1) unfolding shared_inv_def f by auto
  moreover from this r have "r - 1 \<le> 2 ^ 30" "r - 1 = size (filter_mset holds_ref R)" by linarith+
  ultimately show ?thesis using t' unfolding shared_inv_def by blast
qed

text \<open>What the last reference has to clean up.\<close>

lemma reap_last:
  assumes "shared_inv w 1 c p t (add_mset a R)" "holds_ref a" "\<not> is_taker a" "\<not> (p \<and> (0 < w \<or> c))"
    and "t_live t'" "t_core t' = t_core t"
  shows "good R (Step t' [if p then ReapFuture else if \<not> c then ReapOutput else Dealloc] ev)"
  using last_reference [OF assms(1,2,4)] assms(3,5,6) has_output_cong [OF assms(6)]
  by (auto intro!: good_reap split: if_splits)

lemma drop_waker_ok:
  assumes I: "shared_inv w r c p t (add_mset a R)" and a: "holds_ref a" "\<not> is_taker a"
  shows "good R (drop_waker t)"
proof -
  note k = shared_counts(1) [OF I]
  let ?t = "t\<lparr>t_state := state_word w (r - 1) c p\<rparr>"
  have r: "0 < r" "t_live t" "t_state t = state_word w r c p" using I a(1) by (auto simp: shared_inv_def)
  have eq: "drop_waker t = Step ?t (if r = 1 \<and> \<not> (p \<and> (0 < w \<or> c))
      then [if p then ReapFuture else if \<not> c then ReapOutput else Dealloc] else []) Quiet"
    unfolding drop_waker_def fetch_update_def r(3) state_reads [OF k] state_updates(2) [OF k r(1)] using r(2) by auto
  show ?thesis
  proof (cases "r = 1 \<and> \<not> (p \<and> (0 < w \<or> c))")
    case True
    with reap_last [of w c p t a R ?t Quiet] I a r show ?thesis unfolding eq by simp
  next
    case False
    then have "shared_inv w (r - 1) c p ?t (R + mset [])" using drop_reference [OF I a, of c ?t] r by auto
    then show ?thesis unfolding eq if_not_P [OF False] by (rule good_shared)
  qed
qed

text \<open>The flags say whether there is a runnable.\<close>

lemma runnable_phase:
  assumes "shared_inv w r c p t A"
  shows "running_phase w r c p t A \<longleftrightarrow> p \<and> (0 < w \<or> c)" "resting_phase w r c p t A \<longleftrightarrow> \<not> (p \<and> (0 < w \<or> c))"
  using assms by (auto simp: shared_inv_def running_phase_def resting_phase_def)

lemma token_cancel_ok:
  assumes I: "shared_inv w r c p t (add_mset Token R)"
  shows "good R (token_cancel t)"
proof -
  note k = shared_counts(1) [OF I]
  let ?t = "t\<lparr>t_state := state_word w (r - 1) c p\<rparr>"
  have r: "0 < r" "t_live t" "t_state t = state_word w r c p" using I by (auto simp: shared_inv_def)
  consider "p" "0 < w \<or> c" | "\<not> p" | "p" "w = 0" "\<not> c" by auto
  then show ?thesis
  proof cases
    case 1
    have "token_cancel t = Step (t\<lparr>t_state := state_word w (r - 1) True p\<rparr>) [] Quiet"
      unfolding token_cancel_def fetch_update_def r(3) state_reads [OF k] state_updates(6) [OF k] state_updates(2) [OF k r(1)]
      using 1 r(2) by auto
    moreover have "shared_inv w (r - 1) True p (t\<lparr>t_state := state_word w (r - 1) True p\<rparr>) (R + mset [])"
      using drop_reference [OF I, of True "t\<lparr>t_state := state_word w (r - 1) True p\<rparr>"] 1 r by auto
    ultimately show ?thesis by (simp only: good_shared)
  next
    case 2
    have eq: "token_cancel t = Step ?t (if r = 1 then [if p then ReapFuture else if \<not> c then ReapOutput else Dealloc] else []) Quiet"
      unfolding token_cancel_def fetch_update_def r(3) state_reads [OF k] state_updates(2) [OF k r(1)] using 2 r(2) by auto
    show ?thesis
    proof (cases "r = 1")
      case True
      with reap_last [of w c p t Token R ?t Quiet] I 2 r show ?thesis unfolding eq by simp
    next
      case False
      then have "shared_inv w (r - 1) c p ?t (R + mset [])" using drop_reference [OF I, of c ?t] r by auto
      then show ?thesis unfolding eq if_not_P [OF False] by (rule good_shared)
    qed
  next
    case 3
    let ?t = "t\<lparr>t_state := state_word w r True False\<rparr>"
    have eq: "token_cancel t = Step ?t [TokenDropping] Quiet"
      unfolding token_cancel_def fetch_update_def r(3) state_reads [OF k] state_updates(6,7) [OF k] using 3 r(2) by auto
    have "resting_phase w r c p t (add_mset Token R)" using runnable_phase(2) [OF I] 3 by simp
    then have "resting_phase w r True False ?t (R + mset [TokenDropping])" using 3 by (simp add: resting_phase_def)
    with I r(2) have "shared_inv w r True False ?t (R + mset [TokenDropping])" by (auto simp: shared_inv_def)
    then show ?thesis unfolding eq by (rule good_shared)
  qed
qed


text \<open>The runner and its surroundings.\<close>

lemma runner_elim:
  assumes I: "shared_inv w r c p t (add_mset a R)" and a: "is_runner a"
  shows "t_live t" "t_state t = state_word w r c True" "p" "0 < w \<or> c" "filter_mset is_taker R = {#}"
    "filter_mset is_runner R = {#}" "filter_mset is_reaper R = {#}" "runner_ok w r c t a"
    "r = size (filter_mset holds_ref R)" "w \<le> 2 ^ 30" "r \<le> 2 ^ 30" "counts_ok w r"
    "TokenReleasing \<notin># R"
proof -
  have n: "\<not> holds_ref a" "\<not> is_reaper a" "\<not> is_taker a" using a agent_kinds [of a] by auto
  have "\<not> resting_phase w r c p t (add_mset a R)" using a by (simp add: resting_phase_def)
  then have q: "running_phase w r c p t (add_mset a R)" using I unfolding shared_inv_def by blast
  then show p: "p" "0 < w \<or> c" by (simp_all add: running_phase_def)
  show "filter_mset is_taker R = {#}" "filter_mset is_runner R = {#}" "runner_ok w r c t a"
    using q a n by (auto simp: running_phase_def)
  show "t_live t" "t_state t = state_word w r c True" "filter_mset is_reaper R = {#}"
    "r = size (filter_mset holds_ref R)" "w \<le> 2 ^ 30" "r \<le> 2 ^ 30" "TokenReleasing \<notin># R"
    using I n p unfolding shared_inv_def by auto
  then show "counts_ok w r" by (simp add: counts_ok_def)
qed

lemma runner_intro:
  assumes "filter_mset is_taker R = {#}" "filter_mset is_runner R = {#}" "filter_mset is_reaper R = {#}" "is_runner b"
    and "r = size (filter_mset holds_ref R)" "w \<le> 2 ^ 30" "r \<le> 2 ^ 30" "TokenReleasing \<notin># R"
    and "t_live t" "t_state t = state_word w r c True" "0 < w \<or> c" "runner_ok w r c t b"
  shows "good R (Step t [b] ev)"
proof -
  have n: "\<not> holds_ref b" "\<not> is_reaper b" "\<not> is_taker b" using assms(4) agent_kinds [of b] by auto
  have "running_phase w r c True t (R + mset [b])" using assms n by (simp add: running_phase_def)
  then have "shared_inv w r c True t (R + mset [b])" using assms n by (auto simp: shared_inv_def)
  then show ?thesis by (rule good_shared)
qed

text \<open>A runner moves on without touching the state word.\<close>

lemma runner_moves:
  assumes I: "shared_inv w r c p t (add_mset a R)" and a: "is_runner a" "is_runner b"
    and "t_live t'" "t_state t' = t_state t" "runner_ok w r c t' b"
  shows "good R (Step t' [b] ev)"
  by (rule runner_intro [OF runner_elim(5-7) [OF I a(1)] a(2) runner_elim(9-11) [OF I a(1)] runner_elim(13) [OF I a(1)] assms(4) _ runner_elim(4) [OF I a(1)] assms(6)])
    (use assms(5) runner_elim(2) [OF I a(1)] in simp)

text \<open>A runner ends and leaves the task to the references, or has the last word.\<close>

lemma runner_ends:
  assumes I: "shared_inv w r c p t (add_mset a R)" and a: "is_runner a" and t: "t_live t'" "t_state t' = state_word w' r c' p'" "w' \<le> w"
    and rest: "p' \<and> \<not> c' \<and> w' = 0 \<and> t_core t' = CoreFuture \<or> \<not> p' \<and> \<not> c' \<and> has_output t' \<or> \<not> p' \<and> c' \<and> t_core t' = CoreEmpty"
    and r: "0 < r"
  shows "good R (Step t' [] ev)"
proof -
  note e = runner_elim [OF I a]
  have "resting_phase w' r c' p' t' (R + mset [])" using e(5,6) rest r by (auto simp: resting_phase_def)
  then have "shared_inv w' r c' p' t' (R + mset [])" using e(7,9,10,11,13) t by (auto simp: shared_inv_def)
  then show ?thesis by (rule good_shared)
qed

lemma runner_last:
  assumes I: "shared_inv w r c p t (add_mset a R)" and a: "is_runner a" and r: "r = 0" and t: "t_live t'" "reaper_ok t' b"
  shows "good R (Step t' [b] ev)"
proof -
  note e = runner_elim [OF I a]
  have "R = {#}" using only_refs [OF e(6,7)] e(9) r by simp
  then show ?thesis using t by (rule good_reap)
qed

lemma run_pending_eq:
  assumes k: "counts_ok w r" and t: "t_live t" "t_state t = state_word w r c True" and v: "v \<le> w" "wc = word_of_nat (v * 2 ^ 33)"
  shows "run_pending wc t =
     (if w = v \<and> \<not> c then Step (t\<lparr>t_state := state_word (w - v) r c True\<rparr>) (if r = 0 then [ReapFuture] else []) Quiet
      else Step (t\<lparr>t_state := state_word (w - v) r c True\<rparr>) [RunLoop (state_word w r c True) (word_of_nat ((w - v) * 2 ^ 33))] Quiet)"
proof -
  have b: "(w - v) * 2 ^ 33 < 2 ^ 64" "v * 2 ^ 33 < 2 ^ 64" using k v(1) by (auto simp: counts_ok_def)
  have u: "unat wc = v * 2 ^ 33" unfolding v(2) using b(2) by (rule unat_small)
  have gt: "state_word w r c True > wc"
    using v(1) by (simp add: word_less_nat_alt u unat_state [OF k] state_nat_def)
  have d: "(state_word w r c True AND WAKE_MASK) - wc = word_of_nat ((w - v) * 2 ^ 33)"
    unfolding state_wake [OF k] v(2) using v(1) by (simp add: of_nat_diff algebra_simps)
  have z: "word_of_nat ((w - v) * 2 ^ 33) = (0::u64) \<longleftrightarrow> w = v"
    using unat_small [OF b(1)] v(1) by (auto simp: word_unat_eq_iff)
  show ?thesis
    unfolding run_pending_def fetch_update_def t(2) Let_def d z state_reads [OF k] v(2) [symmetric]
    using gt t(1) state_updates(5) [OF k v(1), of c True, folded v(2)] by auto
qed

lemma run_pending_ok:
  assumes I: "shared_inv w r c p t (add_mset (RunPending wc) R)"
  shows "good R (run_pending wc t)"
proof -
  note e = runner_elim [OF I, simplified]
  note k = e(12)
  obtain v where v: "v \<le> w" "wc = word_of_nat (v * 2 ^ 33)" using e(8) by auto
  let ?t = "t\<lparr>t_state := state_word (w - v) r c True\<rparr>"
  note eq = run_pending_eq [OF k e(1,2) v]
  have c: "t_core t = CoreFuture" using e(8) by simp
  show ?thesis
  proof (cases "w = v \<and> \<not> c")
    case True
    then show ?thesis unfolding eq using c e(1)
      by (cases "r = 0") (auto intro!: runner_last [OF I] runner_ends [OF I, where w' = 0 and c' = False and p' = True])
  next
    case False
    have "runner_ok (w - v) r c ?t (RunLoop (state_word w r c True) (word_of_nat ((w - v) * 2 ^ 33)))"
      using c state_flags [OF k] by auto
    then show ?thesis unfolding eq if_not_P [OF False]
      using e v False by (intro runner_intro [where w = "w - v" and r = r and c = c]) auto
  qed
qed

text \<open>A new reference next to an agent \<open>a\<close> that stays.\<close>

lemma clone_waker_ok:
  assumes I: "shared_inv w r c p t (add_mset a R)" and a: "a = Waker \<or> (\<exists>wc. a = Polling wc)"
  shows "good R (clone_waker a t)"
proof -
  note k = shared_counts(1) [OF I]
  let ?t = "t\<lparr>t_state := state_word w (r + 1) c p\<rparr>"
  have t: "t_live t" "t_state t = state_word w r c p" using I by (auto simp: shared_inv_def)
  have eq: "clone_waker a t = (if 2 ^ 30 \<le> r then Panic else Step ?t [a, Waker] Quiet)"
    unfolding clone_waker_def fetch_update_def t(2) state_reads [OF k] state_updates(1) [OF k] using t(1) by auto
  have f: "filter_mset is_runner (add_mset a R) = filter_mset is_runner (R + mset [a, Waker])"
    "filter_mset is_taker (add_mset a R) = filter_mset is_taker (R + mset [a, Waker])"
    "filter_mset is_reaper (add_mset a R) = filter_mset is_reaper (R + mset [a, Waker])"
    "size (filter_mset holds_ref (R + mset [a, Waker])) = size (filter_mset holds_ref (add_mset a R)) + 1"
    by auto
  show ?thesis
  proof (cases "2 ^ 30 \<le> r")
    case False
    have "running_phase w (r + 1) c p ?t (R + mset [a, Waker]) \<or> resting_phase w (r + 1) c p ?t (R + mset [a, Waker])"
    proof (cases "is_runner a")
      case True
      note e = runner_elim [OF I True]
      have "runner_ok w (r + 1) c ?t a" using e(8) a by auto
      with e a True show ?thesis by (auto simp: running_phase_def)
    next
      case nr: False
      show ?thesis
      proof (cases "running_phase w r c p t (add_mset a R)")
        case True
        then obtain b where b: "filter_mset is_runner (R + mset [a, Waker]) = {#b#}" "runner_ok w r c t b" "p" "0 < w \<or> c"
            "filter_mset is_taker (R + mset [a, Waker]) = {#}"
          unfolding running_phase_def f by blast
        have "0 < r" using I a nr by (auto simp: shared_inv_def)
        then have "runner_ok w (r + 1) c ?t b" using runner_ok_mono [OF b(2)] by auto
        with b show ?thesis by (auto simp: running_phase_def)
      next
        case False
        then have "resting_phase w r c p t (add_mset a R)" using I unfolding shared_inv_def by blast
        then have "resting_phase w (r + 1) c p ?t (R + mset [a, Waker])"
          using has_output_cong [of ?t t] unfolding resting_phase_def f by simp
        then show ?thesis ..
      qed
    qed
    moreover have "r + 1 \<le> 2 ^ 30" "w \<le> 2 ^ 30" "r = size (filter_mset holds_ref (add_mset a R))"
        "filter_mset is_reaper (R + mset [a, Waker]) = {#}" "TokenReleasing \<in># R + mset [a, Waker] \<longrightarrow> \<not> p \<and> c"
      using I False unfolding shared_inv_def f by auto
    ultimately have "shared_inv w (r + 1) c p ?t (R + mset [a, Waker])" using t unfolding shared_inv_def f by simp
    then show ?thesis unfolding eq if_not_P [OF False] by (rule good_shared)
  qed (simp add: eq)
qed

text \<open>A wake-up: an idle task gets its runnable; otherwise only the count changes.\<close>

lemma wake_shared:
  assumes I: "shared_inv w r c p t A" and w: "w < 2 ^ 30"
    and t': "t_live t'" "t_core t' = t_core t" "t_state t' = state_word (w + 1) r c p"
  shows "shared_inv (w + 1) r c p t' (A + (if w = 0 \<and> \<not> c \<and> p then {#NewRunnable#} else {#}))"
proof -
  let ?B = "A + (if w = 0 \<and> \<not> c \<and> p then {#NewRunnable#} else {#})"
  have i: "r \<le> 2 ^ 30" "r = size (filter_mset holds_ref A)" "filter_mset is_reaper A = {#}" "running_phase w r c p t A \<or> resting_phase w r c p t A"
    "TokenReleasing \<in># ?B \<longrightarrow> \<not> p \<and> c"
    using I unfolding shared_inv_def by auto
  have f: "filter_mset holds_ref ?B = filter_mset holds_ref A" "filter_mset is_reaper ?B = filter_mset is_reaper A"
    "filter_mset is_taker ?B = filter_mset is_taker A" by simp_all
  have "running_phase (w + 1) r c p t' ?B \<or> resting_phase (w + 1) r c p t' ?B"
  proof (cases "running_phase w r c p t A")
    case True
    then obtain b where b: "filter_mset is_runner A = {#b#}" "runner_ok w r c t b" "p" "0 < w \<or> c" "filter_mset is_taker A = {#}"
      unfolding running_phase_def by blast
    have "runner_ok (w + 1) r c t' b" using runner_ok_mono [OF b(2)] t'(2) by auto
    with b show ?thesis by (auto simp: running_phase_def)
  next
    case False
    then have q: "resting_phase w r c p t A" using i(4) by simp
    show ?thesis
    proof (cases "w = 0 \<and> \<not> c \<and> p")
      case True
      then have "running_phase (w + 1) r c p t' ?B" using q t'(2) by (auto simp: running_phase_def resting_phase_def)
      then show ?thesis ..
    next
      case False
      then have "resting_phase (w + 1) r c p t' A" using q t'(2) has_output_cong [OF t'(2)] by (auto simp: resting_phase_def)
      then show ?thesis unfolding if_not_P [OF False] by simp
    qed
  qed
  with i(1-3) i(5) w t' f show ?thesis unfolding shared_inv_def f by simp
qed

lemma wake_by_ref_ok:
  assumes I: "shared_inv w r c p t (add_mset a R)"
  shows "good R (wake_by_ref a t)"
proof -
  note k = shared_counts(1) [OF I]
  let ?t = "t\<lparr>t_state := state_word (w + 1) r c p\<rparr>"
  have t: "t_live t" "t_state t = state_word w r c p" using I by (auto simp: shared_inv_def)
  have eq: "wake_by_ref a t = (if 2 ^ 30 \<le> w then Panic else
      Step ?t ((if w = 0 \<and> \<not> c \<and> p then [NewRunnable] else []) @ [a]) Quiet)"
    unfolding wake_by_ref_def wake_def fetch_update_def t(2) state_reads [OF k] state_updates(3) [OF k] using t(1) by auto
  show ?thesis
  proof (cases "2 ^ 30 \<le> w")
    case False
    have "shared_inv (w + 1) r c p ?t (R + mset ((if w = 0 \<and> \<not> c \<and> p then [NewRunnable] else []) @ [a]))"
      using wake_shared [OF I, of ?t] False t(1) by (auto simp: add_mset_commute split: if_splits)
    then show ?thesis unfolding eq if_not_P [OF False] by (rule good_shared)
  qed (simp add: eq)
qed

lemma wake_by_val_ok:
  assumes I: "shared_inv w r c p t (add_mset Waker R)"
  shows "good R (wake_by_val t)"
proof (cases "t_captures t")
  case True
  have "drop_waker t \<noteq> Undefined" using drop_waker_ok [OF I] by auto
  with True show ?thesis by (auto simp: wake_by_val_def split: outcome.splits)
next
  case nc: False
  note k = shared_counts(1) [OF I]
  let ?t = "t\<lparr>t_state := state_word (w + 1) (r - 1) c p\<rparr>" and ?new = "if w = 0 \<and> \<not> c \<and> p then [NewRunnable] else [] :: 'a agent list"
  have t: "t_live t" "t_state t = state_word w r c p" "0 < r" using I by (auto simp: shared_inv_def)
  have eq: "wake_by_val t = (if 2 ^ 30 \<le> w then Panic else
      Step ?t (?new @ (if r = 1 \<and> \<not> p then [if \<not> c then ReapOutput else Dealloc] else [])) Quiet)"
    unfolding wake_by_val_def wake_def fetch_update_def t(2) state_reads [OF k] state_updates(4) [OF k t(3)] using t(1) nc by auto
  show ?thesis
  proof (cases "2 ^ 30 \<le> w")
    case False
    show ?thesis
    proof (cases "r = 1 \<and> \<not> p")
      case True
      then show ?thesis unfolding eq if_not_P [OF False] using reap_last [of w c p t Waker R ?t Quiet] I t(1) by simp
    next
      case l: False
      let ?u = "t\<lparr>t_state := state_word (w + 1) r c p\<rparr>"
      have "shared_inv (w + 1) r c p ?u (add_mset Waker (R + mset ?new))"
        using wake_shared [OF I, of ?u] False t(1) by (auto simp: add_mset_commute split: if_splits)
      then have "shared_inv (w + 1) (r - 1) c p ?t (R + mset ?new)"
        using drop_reference [of "w + 1" r c p ?u Waker "R + mset ?new" c ?t] l t(1) by auto
      then have "good R (Step ?t ?new Quiet)" by (rule good_shared)
      then show ?thesis unfolding eq if_not_P [OF False] if_not_P [OF l] by simp
    qed
  qed (simp add: eq)
qed

lemma promise_poll_ok:
  assumes I: "shared_inv w r c p t (add_mset Promise R)"
  shows "good R (promise_poll t)"
proof -
  note k = shared_counts(1) [OF I]
  have t: "t_live t" "t_state t = state_word w r c p" using I by (auto simp: shared_inv_def)
  let ?t = "t\<lparr>t_state := state_word w r True p\<rparr>"
  have eq: "promise_poll t = (if \<not> p \<and> \<not> c then Step ?t [PromiseTaking] Quiet
      else Step t [Promise] (if c then StageCancelled else StagePending))"
    unfolding promise_poll_def fetch_update_def t(2) state_reads [OF k] state_updates(6) [OF k] using t by auto
  show ?thesis
  proof (cases "\<not> p \<and> \<not> c")
    case True
    then have "resting_phase w r c p t (add_mset Promise R)" using runnable_phase(2) [OF I] by simp
    then have "resting_phase w r True p ?t (R + mset [PromiseTaking])"
      using True has_output_cong [of ?t t] by (auto simp: resting_phase_def)
    then have "shared_inv w r True p ?t (R + mset [PromiseTaking])" using I t(1) by (auto simp: shared_inv_def)
    then show ?thesis unfolding eq if_P [OF True] by (rule good_shared)
  next
    case False
    have "shared_inv w r c p t (R + mset [Promise])" using I by simp
    then show ?thesis unfolding eq if_not_P [OF False] by (rule good_shared)
  qed
qed

text \<open>The references that own the core for themselves.\<close>

lemma taker_phase:
  assumes I: "shared_inv w r c p t (add_mset a R)" and a: "is_taker a"
  shows "\<not> p" "c" "a = PromiseTaking \<and> has_output t \<or> a = TokenDropping \<and> t_core t = CoreFuture" "filter_mset is_taker R = {#}"
    "filter_mset is_runner R = {#}"
proof -
  have n: "\<not> is_runner a" using a agent_kinds [of a] by auto
  have q: "resting_phase w r c p t (add_mset a R)" using I a by (auto simp: shared_inv_def running_phase_def)
  show "\<not> p" "c" "a = PromiseTaking \<and> has_output t \<or> a = TokenDropping \<and> t_core t = CoreFuture" "filter_mset is_taker R = {#}"
      "filter_mset is_runner R = {#}"
    using q a n by (auto simp: resting_phase_def)
qed

lemma taker_done:
  assumes I: "shared_inv w r c p t (add_mset a R)" and a: "is_taker a" and b: "holds_ref b" "\<not> is_taker b"
    and t': "t' = t\<lparr>t_core := CoreEmpty\<rparr>"
  shows "good R (Step t' [b] ev)"
proof -
  note q = taker_phase [OF I a]
  have n: "\<not> is_runner b" "\<not> is_reaper b" "holds_ref a" "\<not> is_reaper a" using a b agent_kinds [of a] agent_kinds [of b] by auto
  have r: "0 < r" using I n by (simp add: shared_inv_def)
  have "resting_phase w r c p t' (R + mset [b])" using q b n r t' by (simp add: resting_phase_def)
  then have "shared_inv w r c p t' (R + mset [b])" using I n b t' q by (auto simp: shared_inv_def)
  then show ?thesis by (rule good_shared)
qed

lemma token_release_ok:
  assumes I: "shared_inv w r c p t (add_mset TokenReleasing R)"
  shows "good R (token_release t)"
proof -
  note k = shared_counts(1) [OF I]
  let ?t = "t\<lparr>t_state := state_word w (r - 1) c p\<rparr>"
  have r: "0 < r" "t_live t" "t_state t = state_word w r c p" and c: "\<not> p" "c"
    using I by (auto simp: shared_inv_def)
  have eq: "token_release t = Step ?t (if r = 1 then [Dealloc] else []) Quiet"
    unfolding token_release_def fetch_update_def r(3) state_reads [OF k] state_updates(2) [OF k r(1)] using r(2) by auto
  show ?thesis
  proof (cases "r = 1")
    case True
    with reap_last [of w c p t TokenReleasing R ?t Quiet] I c r show ?thesis unfolding eq by simp
  next
    case False
    then have "shared_inv w (r - 1) c p ?t (R + mset [])" using drop_reference [OF I, of c ?t] r by auto
    then show ?thesis unfolding eq if_not_P [OF False] by (rule good_shared)
  qed
qed

lemma has_outputE:
  assumes "has_output t" "t_live t"
  obtains out where "t_core t = CoreOutput out" "\<And>k. take_output t k = k out (t\<lparr>t_core := CoreEmpty\<rparr>)"
  using assms by (auto simp: has_output_def take_output_def)

lemma drop_future_eq: "t_live t \<Longrightarrow> t_core t = CoreFuture \<Longrightarrow> drop_future t k = k (t\<lparr>t_core := CoreEmpty\<rparr>)"
  by (simp add: drop_future_def)

lemma run_enter_ok:
  assumes I: "shared_inv w r c p t (add_mset Runnable R)"
  shows "good R (run_enter t)"
proof -
  note e = runner_elim [OF I, simplified]
  have "run_enter t = Step t [RunLoop (state_word w r c True) (word_of_nat (w * 2 ^ 33))] Quiet"
    unfolding run_enter_def fetch_update_def e(2) state_flags [OF e(12)] state_wake [OF e(12)] using e(1,2) by simp
  then show ?thesis using e(1,8) state_flags [OF e(12)] by (auto intro!: runner_moves [OF I] simp del: of_nat_mult)
qed

lemma run_loop_ok:
  assumes I: "shared_inv w r c p t (add_mset (RunLoop s wc) R)"
  shows "good R (run_loop s wc t)"
proof -
  have "is_runner (RunLoop s wc)" by simp
  note e = runner_elim(1,8) [OF I this]
  then show ?thesis unfolding run_loop_def by (auto intro!: runner_moves [OF I] simp del: of_nat_mult)
qed

lemma run_publish_ok:
  assumes I: "shared_inv w r c p t (add_mset RunPublish R)"
  shows "good R (run_publish t)"
proof -
  note e = runner_elim [OF I, simplified]
  let ?t = "t\<lparr>t_state := state_word w r c False\<rparr>"
  have eq: "run_publish t = (if c \<or> r = 0 then Step t [RunDropOutput] Quiet else Step ?t [] Quiet)"
    unfolding run_publish_def fetch_update_def e(2) state_reads [OF e(12)] state_updates(7) [OF e(12)] using e(1,2) by auto
  show ?thesis
  proof (cases "c \<or> r = 0")
    case True
    then show ?thesis unfolding eq if_P [OF True] using e by (intro runner_moves [OF I]) auto
  next
    case False
    then have "0 < r" by simp
    with False show ?thesis unfolding eq if_not_P [OF False] using e(1,8) has_output_cong [of ?t t]
      by (intro runner_ends [OF I, where w' = w and c' = c and p' = False]) auto
  qed
qed

text \<open>The runner closes the task, with the core already empty.\<close>

lemma closing_ok:
  assumes I: "shared_inv w r c p t (add_mset a R)" and a: "is_runner a" and e: "t_core t = CoreEmpty" and r: "c' \<or> r = 0"
  shows "good R (Step (t\<lparr>t_state := state_word w r c' False\<rparr>) (if r = 0 then [Dealloc] else []) Quiet)"
proof (cases "r = 0")
  case True
  with runner_last [OF I a True, of "t\<lparr>t_state := state_word w r c' False\<rparr>" Dealloc] e runner_elim(1) [OF I a] show ?thesis by simp
next
  case False
  then show ?thesis unfolding if_not_P [OF False]
    by (intro runner_ends [OF I a, where w' = w and c' = c' and p' = False]) (use e r runner_elim(1) [OF I a] in auto)
qed

lemma run_clear_ok:
  assumes I: "shared_inv w r c p t (add_mset RunClear R)"
  shows "good R (run_clear t)"
proof -
  note e = runner_elim [OF I, simplified]
  have eq: "run_clear t = Step (t\<lparr>t_state := state_word w r c False\<rparr>) (if r = 0 then [Dealloc] else []) Quiet"
    unfolding run_clear_def fetch_update_def e(2) state_reads [OF e(12)] state_updates(7) [OF e(12)] using e(1) by auto
  show ?thesis unfolding eq by (rule closing_ok [OF I]) (use e(8) in simp_all)
qed

lemma cancel_close_ok:
  assumes I: "shared_inv w r c p t (add_mset CancelClose R)"
  shows "good R (cancel_close t)"
proof -
  note e = runner_elim [OF I, simplified]
  have eq: "cancel_close t = Step (t\<lparr>t_state := state_word w r True False\<rparr>) (if r = 0 then [Dealloc] else []) Quiet"
    unfolding cancel_close_def fetch_update_def e(2) state_reads [OF e(12)] state_updates(6,7) [OF e(12)] using e(1) by auto
  show ?thesis unfolding eq by (rule closing_ok [OF I]) (use e(8) in simp_all)
qed

lemma runner_act_ok:
  assumes I: "shared_inv w r c p t (add_mset a R)" and a: "is_runner a"
  shows "good R (act a ch t)"
proof -
  note e = runner_elim(1,8) [OF I a]
  note mv = runner_moves [OF I a]
  show ?thesis
  proof (cases a)
    case NewRunnable
    with e show ?thesis by (auto simp: schedule_task_def intro!: mv)
  next
    case Runnable
    with e I run_enter_ok [of w r c p t R] show ?thesis by (auto split: choice.splits intro!: mv)
  next
    case (RunLoop s wc)
    with I run_loop_ok [of w r c p t s wc R] show ?thesis by simp
  next
    case (Polling wc)
    with e I clone_waker_ok [OF I] wake_by_ref_ok [OF I] show ?thesis
      by (auto split: choice.splits intro!: mv simp del: of_nat_mult)
  next
    case (RunPending wc)
    with I run_pending_ok [of w r c p t wc R] show ?thesis by simp
  next
    case (RunReady out)
    with e show ?thesis
      by (auto simp: run_ready_def drop_future_eq has_output_def split: choice.splits intro!: mv)
  next
    case RunPublish
    with I run_publish_ok [of w r c p t R] show ?thesis by simp
  next
    case RunDropOutput
    with e obtain out where "t_core t = CoreOutput out" "\<And>k. take_output t k = k out (t\<lparr>t_core := CoreEmpty\<rparr>)" "c \<or> r = 0"
      by (auto elim: has_outputE)
    with e RunDropOutput show ?thesis by (auto intro!: mv)
  next
    case RunClear
    with I run_clear_ok [of w r c p t R] show ?thesis by simp
  next
    case CancelDrop
    with e show ?thesis by (auto simp: drop_future_eq intro!: mv)
  next
    case CancelClose
    with I cancel_close_ok [of w r c p t R] show ?thesis by simp
  qed (use a in auto)
qed

lemma ref_act_ok:
  assumes I: "shared_inv w r c p t (add_mset a R)" and a: "holds_ref a"
  shows "good R (act a ch t)"
proof -
  have l: "t_live t" using I by (simp add: shared_inv_def)
  show ?thesis
  proof (cases a)
    case Waker
    with I drop_waker_ok [OF I] clone_waker_ok [OF I] wake_by_val_ok [of w r c p t R] wake_by_ref_ok [OF I] show ?thesis
      by (auto split: choice.splits)
  next
    case Promise
    with I drop_waker_ok [OF I] promise_poll_ok [of w r c p t R] show ?thesis
      by (auto simp: promise_drop_def split: choice.splits)
  next
    case PromiseTaking
    with taker_phase(3) [OF I] have "has_output t" by simp
    then obtain out where "\<And>k. take_output t k = k out (t\<lparr>t_core := CoreEmpty\<rparr>)" using l by (auto elim: has_outputE)
    with PromiseTaking show ?thesis by (auto simp: promise_take_def intro!: taker_done [OF I])
  next
    case Token
    with I drop_waker_ok [OF I] token_cancel_ok [of w r c p t R] show ?thesis
      by (auto simp: token_drop_def split: choice.splits)
  next
    case TokenDropping
    with taker_phase(3) [OF I] l show ?thesis by (auto simp: drop_future_eq intro!: taker_done [OF I])
  next
    case TokenReleasing
    with I token_release_ok [of w r c p t R] show ?thesis by simp
  qed (use a in auto)
qed

lemma reaper_act_ok:
  assumes "t_live t" "reaper_ok t a"
  shows "good {#} (act a ch t)"
proof (cases a)
  case ReapFuture
  with assms show ?thesis by (auto simp: drop_future_eq intro!: good_reap)
next
  case ReapOutput
  with assms obtain out where "\<And>k. take_output t k = k out (t\<lparr>t_core := CoreEmpty\<rparr>)" by (auto elim: has_outputE)
  with assms ReapOutput show ?thesis by (auto intro!: good_reap)
next
  case Dealloc
  with assms show ?thesis by (simp add: dealloc_def good_def task_inv_def)
qed (use assms in auto)

text \<open>Whatever agent acts, its accesses are defined and the invariant survives.\<close>

lemma act_ok:
  assumes "task_inv s" "agents s = add_mset a R"
  shows "good R (act a ch (sys_task s))"
proof -
  from assms(1) consider (shared) w r c p where "shared_inv w r c p (sys_task s) (add_mset a R)"
    | (reap) "R = {#}" "t_live (sys_task s)" "reaper_ok (sys_task s) a"
    unfolding task_inv_def assms(2) by auto
  then show ?thesis
  proof cases
    case shared
    have "\<not> is_reaper a" using shared by (auto simp: shared_inv_def)
    then show ?thesis using agent_kinds(1) [of a] ref_act_ok [OF shared] runner_act_ok [OF shared] by blast
  next
    case reap
    then show ?thesis using reaper_act_ok by blast
  qed
qed

section \<open>Reachable states\<close>

lemma task_inv_step:
  assumes "task_inv s" "task_step s ev s'"
  shows "task_inv s'"
  using assms(2)
proof cases
  case (task_act a rest ch t new)
  with act_ok [OF assms(1), of a rest ch] show ?thesis by (simp add: good_def)
qed

lemma task_inv_spawn: "task_inv (spawn b)" "task_inv (spawn_and_forget b)"
proof -
  have s: "(2 * REF_INC) OR WAKE_INC OR POLLING = state_word 1 2 False True" "REF_INC OR WAKE_INC OR POLLING = state_word 1 1 False True"
    by (simp_all add: REF_INC_def WAKE_INC_def POLLING_def state_word_def state_nat_def)
  have "shared_inv 1 2 False True (sys_task (spawn b)) (agents (spawn b))"
    by (simp add: spawn_def s shared_inv_def running_phase_def)
  then show "task_inv (spawn b)" unfolding task_inv_def by blast
  have "shared_inv 1 1 False True (sys_task (spawn_and_forget b)) (agents (spawn_and_forget b))"
    by (simp add: spawn_and_forget_def s shared_inv_def running_phase_def)
  then show "task_inv (spawn_and_forget b)" unfolding task_inv_def by blast
qed

lemma task_inv_run:
  assumes "task_run s0 tr s" "s0 \<in> {spawn b, spawn_and_forget b}"
  shows "task_inv s"
  using assms
proof (induction rule: task_run.induct)
  case (task_run_none s)
  then show ?case using task_inv_spawn by auto
next
  case (task_run_step s tr s' ev s'')
  then show ?case using task_inv_step by blast
qed

lemma one_runner:
  assumes "shared_inv w r c p t A"
  shows "size (filter_mset is_runner A) \<le> 1"
proof -
  consider "filter_mset is_runner A = {#}" | a where "filter_mset is_runner A = {#a#}"
    using assms unfolding shared_inv_def running_phase_def resting_phase_def by blast
  then show ?thesis by cases (simp_all only: size_empty size_single order_refl zero_le)
qed

text \<open>C5. The task's memory is used safely under every interleaving of its references. In every state that a
  spawned task can reach, no access of any agent touches the task after its deallocation, drops a future or an
  output that is not there, or drops one twice; there is never more than one runnable; and when the last agent
  is gone, the task has been deallocated with nothing left in it, so nothing is leaked either.\<close>

theorem task_memory_safe:
  assumes "s0 \<in> {spawn b, spawn_and_forget b}" "task_run s0 tr s"
  shows "(\<forall>a ch. a \<in># agents s \<longrightarrow> act a ch (sys_task s) \<noteq> Undefined) \<and>
    size (filter_mset is_runner (agents s)) \<le> 1 \<and>
    (agents s = {#} \<longrightarrow> \<not> t_live (sys_task s) \<and> t_core (sys_task s) = CoreEmpty)"
proof (intro conjI allI impI)
  have I: "task_inv s" using task_inv_run [OF assms(2,1)] .
  fix a ch assume "a \<in># agents s"
  then obtain R where "agents s = add_mset a R" by (meson mset_add)
  from act_ok [OF I this, of ch] show "act a ch (sys_task s) \<noteq> Undefined" by auto
next
  have "task_inv s" using task_inv_run [OF assms(2,1)] .
  then show "size (filter_mset is_runner (agents s)) \<le> 1" unfolding task_inv_def using one_runner by auto
next
  assume e: "agents s = {#}"
  have "task_inv s" using task_inv_run [OF assms(2,1)] .
  moreover have "\<not> shared_inv w r c p (sys_task s) {#}" for w r c p
    by (auto simp: shared_inv_def running_phase_def resting_phase_def)
  ultimately show "\<not> t_live (sys_task s)" "t_core (sys_task s) = CoreEmpty"
    using e unfolding task_inv_def by auto
qed

text \<open>C7. The state word means what its documentation says, in every reachable state in which the task is still
  shared: the wake count, the flags and the reference count tell whether a runnable exists and how many
  references there are, and the core holds the future while the task is being polled for, an output once it
  is completed, and nothing once it is closed (unless a reference is just emptying it).\<close>

theorem task_phase_table:
  assumes "s0 \<in> {spawn b, spawn_and_forget b}" "task_run s0 tr s" "agents s \<noteq> {#}" "filter_mset is_reaper (agents s) = {#}"
  shows "(runnable_exists (t_state (sys_task s)) \<longleftrightarrow> (\<exists>a\<in>#agents s. is_runner a)) \<and>
    unat (t_state (sys_task s) AND REF_MASK) = 4 * size (filter_mset holds_ref (agents s)) \<and>
    (\<not> (\<exists>a\<in>#agents s. is_runner a \<or> is_taker a) \<longrightarrow>
       t_core (sys_task s) = CoreFuture \<and> t_state (sys_task s) AND POLLING \<noteq> 0 \<or>
       has_output (sys_task s) \<and> t_state (sys_task s) AND (POLLING OR CLOSED) = 0 \<or>
       t_core (sys_task s) = CoreEmpty \<and> t_state (sys_task s) AND POLLING = 0 \<and> t_state (sys_task s) AND CLOSED \<noteq> 0)"
proof -
  have "task_inv s" using task_inv_run [OF assms(2,1)] .
  moreover have "\<not> reaper_ok (sys_task s) a" if "agents s = {#a#}" for a using that assms(4) by (cases a) auto
  ultimately obtain w r c p where I: "shared_inv w r c p (sys_task s) (agents s)"
    using assms(3) unfolding task_inv_def by blast
  note k = shared_counts(1) [OF I]
  have t: "t_state (sys_task s) = state_word w r c p" "r = size (filter_mset holds_ref (agents s))"
    using I unfolding shared_inv_def by blast+
  have run: "p \<and> (0 < w \<or> c) \<longleftrightarrow> (\<exists>a\<in>#agents s. is_runner a)"
  proof (cases "p \<and> (0 < w \<or> c)")
    case True
    then obtain a where "filter_mset is_runner (agents s) = {#a#}" using runnable_phase(1) [OF I] by (auto simp: running_phase_def)
    then have "a \<in># filter_mset is_runner (agents s)" by simp
    with True show ?thesis by auto
  next
    case False
    then have "filter_mset is_runner (agents s) = {#}" using runnable_phase(2) [OF I] by (auto simp: resting_phase_def)
    with False show ?thesis by (auto simp: filter_mset_eq_mempty_iff)
  qed
  have ref: "unat (state_word w r c p AND REF_MASK) = 4 * r"
    unfolding state_ref [OF k] by (subst unat_small) (use k in \<open>simp_all add: counts_ok_def\<close>)
  have rest: "t_core (sys_task s) = CoreFuture \<and> p \<or> has_output (sys_task s) \<and> \<not> p \<and> \<not> c \<or> t_core (sys_task s) = CoreEmpty \<and> \<not> p \<and> c"
    if n: "\<not> (\<exists>a\<in>#agents s. is_runner a \<or> is_taker a)"
  proof -
    have e: "filter_mset is_taker (agents s) = {#}" using n by (auto simp: filter_mset_eq_mempty_iff)
    have "resting_phase w r c p (sys_task s) (agents s)" using runnable_phase(2) [OF I] run n by blast
    then show ?thesis unfolding resting_phase_def e by auto
  qed
  show ?thesis using run ref rest t(2) unfolding t(1) state_reads [OF k] by auto
qed

text \<open>C6. No wake-up is lost. When a waker wakes a task that is neither completed nor closed, a runnable exists
  afterwards; and a runnable that was polling the future, or had polled it, when the wake arrived does not
  retire: the check that ends its round finds the wake and polls the future again.\<close>

theorem wake_not_lost:
  assumes "s0 \<in> {spawn b, spawn_and_forget b}" "task_run s0 tr s" "agents s = add_mset a R" "ch = WakeRef \<or> ch = WakeVal"
    and "t_state (sys_task s) AND POLLING \<noteq> 0" "t_state (sys_task s) AND CLOSED = 0"
    and "act a ch (sys_task s) = Step t new ev" "a = Waker \<or> (\<exists>wc. a = Polling wc)"
  shows "(\<exists>x\<in>#R + mset new. is_runner x) \<and>
    (\<forall>wc. Polling wc \<in># R + mset new \<or> RunPending wc \<in># R + mset new \<longrightarrow>
       (\<exists>t' s' wc'. run_pending wc t = Step t' [RunLoop s' wc'] Quiet \<and> s' AND CLOSED = 0))"
proof -
  have "task_inv s" using task_inv_run [OF assms(2,1)] .
  moreover have "\<not> reaper_ok (sys_task s) a" using assms(8) by auto
  ultimately obtain w r c p where I: "shared_inv w r c p (sys_task s) (add_mset a R)"
    using assms(3) unfolding task_inv_def by auto
  note k = shared_counts(1) [OF I]
  have t: "t_live (sys_task s)" "t_state (sys_task s) = state_word w r c p" "w \<le> 2 ^ 30" "r \<le> 2 ^ 30" using I by (auto simp: shared_inv_def)
  have pc: "p" "\<not> c" using assms(5,6) unfolding t(2) state_flags [OF k] by (auto split: if_splits)
  obtain r' rest where st: "t = sys_task s\<lparr>t_state := state_word (w + 1) r' c True\<rparr>" "r' \<le> r"
      "new = (if w = 0 then [NewRunnable] else []) @ rest" "rest = [a] \<or> a = Waker \<and> rest = []"
  proof (cases "ch = WakeRef")
    case True
    then have "wake_by_ref a (sys_task s) = Step t new ev" using assms(7,8) by auto
    then have "t = sys_task s\<lparr>t_state := state_word (w + 1) r c True\<rparr>" "new = (if w = 0 then [NewRunnable] else []) @ [a]"
      unfolding wake_by_ref_def wake_def fetch_update_def t(2) state_reads [OF k] state_updates(3) [OF k] using t(1) pc
      by (auto split: if_splits)
    then show ?thesis using that [of r "[a]"] by simp
  next
    case False
    then have a: "a = Waker" "wake_by_val (sys_task s) = Step t new ev" using assms(4,7,8) by auto
    then have nc: "\<not> t_captures (sys_task s)" by (auto simp: wake_by_val_def split: outcome.splits)
    have r: "0 < r" using I a(1) by (auto simp: shared_inv_def)
    have "t = sys_task s\<lparr>t_state := state_word (w + 1) (r - 1) c True\<rparr>" "new = (if w = 0 then [NewRunnable] else []) @ []"
      using a(2) unfolding wake_by_val_def wake_def fetch_update_def t(2) state_reads [OF k] state_updates(4) [OF k r] using t(1) pc nc
      by (auto split: if_splits)
    then show ?thesis using that [of "r - 1" "[]"] a by simp
  qed
  have k': "counts_ok (w + 1) r'" using t(3,4) st(2) by (simp add: counts_ok_def)
  have "\<exists>x\<in>#R + mset new. is_runner x"
  proof (cases "w = 0")
    case False
    then obtain x where "filter_mset is_runner (add_mset a R) = {#x#}" using runnable_phase(1) [OF I] pc by (auto simp: running_phase_def)
    then have "x \<in># filter_mset is_runner (add_mset a R)" by simp
    then have "x \<in># add_mset a R" "is_runner x" by (auto split: if_splits)
    then show ?thesis using st(3,4) by auto
  qed (use st(3) in simp)
  moreover have "\<exists>t' s' wc'. run_pending wc t = Step t' [RunLoop s' wc'] Quiet \<and> s' AND CLOSED = 0"
    if "Polling wc \<in># R + mset new \<or> RunPending wc \<in># R + mset new" for wc
  proof -
    have "Polling wc \<in># add_mset a R \<or> RunPending wc \<in># add_mset a R" using that st(3,4) by (auto split: if_splits)
    then obtain x where x: "x \<in># add_mset a R" "x = Polling wc \<or> x = RunPending wc" by blast
    from x(1) obtain A where A: "add_mset a R = add_mset x A" by (rule mset_add)
    then have "runner_ok w r c (sys_task s) x" using runner_elim(8) [of w r c p "sys_task s" x A] I x(2) by auto
    then obtain v where v: "v \<le> w" "wc = word_of_nat (v * 2 ^ 33)" using x(2) by auto
    have l: "t_live t" "t_state t = state_word (w + 1) r' c True" using st(1) t(1) by simp_all
    have "v \<le> w + 1" "w + 1 \<noteq> v" using v(1) by simp_all
    then show ?thesis using run_pending_eq [OF k' l _ v(2)] pc(2) state_flags(2) [OF k'] by simp
  qed
  ultimately show ?thesis by blast
qed

text \<open>An output in the core, or on its way there, was returned by the future.\<close>

definition outputs_polled :: "'o task_event list \<Rightarrow> 'o system \<Rightarrow> bool" where
  "outputs_polled tr s \<longleftrightarrow>
     (\<forall>out. t_core (sys_task s) = CoreOutput out \<or> RunReady out \<in># agents s \<longrightarrow> Polled (Some out) \<in> set tr)"

lemma act_output:
  assumes "act a ch t = Step t' new ev"
  shows "t_core t' = CoreOutput out \<Longrightarrow> t_core t = CoreOutput out \<or> a = RunReady out"
    "RunReady out \<in> set new \<Longrightarrow> ev = Polled (Some out)" "ev = Took out \<Longrightarrow> t_core t = CoreOutput out"
  using assms
  by (cases a; auto simp: clone_waker_def wake_def wake_by_ref_def wake_by_val_def drop_waker_def promise_drop_def token_drop_def
      promise_poll_def promise_take_def token_cancel_def token_release_def schedule_task_def run_enter_def run_loop_def
      run_ready_def run_publish_def run_clear_def run_pending_def cancel_close_def fetch_update_def drop_future_def
      take_output_def dealloc_def Let_def split: choice.splits if_splits task_core.splits outcome.splits)+

lemma outputs_polled_run:
  assumes "task_run s0 tr s" "s0 \<in> {spawn b, spawn_and_forget b}"
  shows "outputs_polled tr s"
  using assms
proof (induction rule: task_run.induct)
  case (task_run_none s)
  then show ?case by (auto simp: outputs_polled_def spawn_def spawn_and_forget_def)
next
  case (task_run_step s0 tr s ev s')
  then have I: "outputs_polled tr s" by blast
  from task_run_step(2) show ?case
  proof cases
    case (task_act a rest ch t new)
    with I act_output(1,2) [OF task_act(3)] show ?thesis by (auto simp: outputs_polled_def)
  qed
qed

text \<open>An output stays in the core until it is moved out; nothing replaces it.\<close>

lemma act_core_future:
  assumes "act a ch t = Step t' new ev"
  shows "t_core t' = CoreFuture \<Longrightarrow> t_core t = CoreFuture"
  using assms
  by (cases a; auto simp: clone_waker_def wake_def wake_by_ref_def wake_by_val_def drop_waker_def promise_drop_def token_drop_def
      promise_poll_def promise_take_def token_cancel_def token_release_def schedule_task_def run_enter_def run_loop_def
      run_ready_def run_publish_def run_clear_def run_pending_def cancel_close_def fetch_update_def drop_future_def
      take_output_def dealloc_def Let_def split: choice.splits if_splits task_core.splits outcome.splits)+

lemma ready_has_future:
  assumes "task_inv s" "RunReady out \<in># agents s"
  shows "t_core (sys_task s) = CoreFuture"
proof -
  obtain R where R: "agents s = add_mset (RunReady out) R" using assms(2) by (meson mset_add)
  have "\<not> (\<exists>a. agents s = {#a#} \<and> t_live (sys_task s) \<and> reaper_ok (sys_task s) a)" unfolding R by auto
  then obtain w r c p where "shared_inv w r c p (sys_task s) (add_mset (RunReady out) R)"
    using assms(1) R unfolding task_inv_def by auto
  from runner_elim(8) [OF this] show ?thesis by simp
qed

lemma output_stays:
  assumes "task_run s tr s'" "task_inv s" "t_core (sys_task s) = CoreOutput out"
  shows "task_inv s' \<and> (t_core (sys_task s') = CoreOutput out \<or> t_core (sys_task s') = CoreEmpty)"
  using assms
proof (induction rule: task_run.induct)
  case (task_run_step s tr s1 ev s2)
  then have I: "task_inv s1" and c: "t_core (sys_task s1) = CoreOutput out \<or> t_core (sys_task s1) = CoreEmpty" by auto
  have "t_core (sys_task s2) = CoreOutput out \<or> t_core (sys_task s2) = CoreEmpty"
    using task_run_step(2)
  proof cases
    case (task_act a rest ch t new)
    have "a \<noteq> RunReady out'" for out' using ready_has_future [OF I, of out'] c task_act(2) by auto
    then show ?thesis using act_output(1) [OF task_act(3)] act_core_future [OF task_act(3)] c task_act(1)
      by (cases "t_core t") auto
  qed
  with task_inv_step [OF I task_run_step(2)] show ?case by blast
qed auto

text \<open>Whoever moves the output out finds it.\<close>

lemma taking_has_output:
  assumes "task_inv s" "PromiseTaking \<in># agents s"
  shows "t_live (sys_task s)" "has_output (sys_task s)"
proof -
  obtain R where R: "agents s = add_mset PromiseTaking R" using assms(2) by (meson mset_add)
  have "\<not> (\<exists>a. agents s = {#a#} \<and> t_live (sys_task s) \<and> reaper_ok (sys_task s) a)" unfolding R by auto
  then obtain w r c p where I: "shared_inv w r c p (sys_task s) (add_mset PromiseTaking R)"
    using assms(1) R unfolding task_inv_def by auto
  then show "t_live (sys_task s)" "has_output (sys_task s)"
    by (auto simp: shared_inv_def running_phase_def resting_phase_def)
qed

text \<open>C8. Polling the promise tells the stage of the task, in every reachable state and whatever the other references
  do. While a runnable exists, the stage is pending, or cancelled if the task was closed. Without a runnable, it is
  pending if the future is there, cancelled if the future or the output is gone or on its way out, and
  ready if the output is there: the promise closes the task and then moves out, however the other references
  are interleaved before it does, exactly the output that the future returned when it was polled.\<close>

theorem promise_output:
  assumes "s0 \<in> {spawn b, spawn_and_forget b}" "task_run s0 tr s" "agents s = add_mset Promise rest"
  defines "t \<equiv> sys_task s"
  shows "if \<exists>a \<in># rest. is_runner a
    then promise_poll t = Step t [Promise] (if t_state t AND CLOSED = 0 then StagePending else StageCancelled)
    else case t_core t of
        CoreFuture \<Rightarrow> promise_poll t = Step t [Promise] (if TokenDropping \<in># rest then StageCancelled else StagePending)
      | CoreEmpty \<Rightarrow> promise_poll t = Step t [Promise] StageCancelled
      | CoreOutput out \<Rightarrow> Polled (Some out) \<in> set tr \<and>
          (if PromiseTaking \<in># rest then promise_poll t = Step t [Promise] StageCancelled
           else \<exists>t'. promise_poll t = Step t' [PromiseTaking] Quiet \<and> t_state t' AND CLOSED = CLOSED \<and>
             (\<forall>tr' s'. task_run \<lparr>sys_task = t', agents = add_mset PromiseTaking rest\<rparr> tr' s' \<longrightarrow> PromiseTaking \<in># agents s' \<longrightarrow>
                (\<exists>t''. promise_take (sys_task s') = Step t'' [Promise] (Took out))))"
proof -
  have I: "task_inv s" using task_inv_run [OF assms(2,1)] .
  have "\<not> (\<exists>a. agents s = {#a#} \<and> t_live (sys_task s) \<and> reaper_ok (sys_task s) a)" unfolding assms(3) by auto
  then obtain w r c p where S: "shared_inv w r c p t (add_mset Promise rest)"
    using I assms(3) unfolding task_inv_def t_def by auto
  note k = shared_counts(1) [OF S]
  have live: "t_live t" "t_state t = state_word w r c p" using S by (auto simp: shared_inv_def)
  have cl: "t_state t AND CLOSED = 0 \<longleftrightarrow> \<not> c" unfolding live(2) state_flags [OF k] by simp
  let ?t = "t\<lparr>t_state := state_word w r True p\<rparr>"
  have poll: "promise_poll t = (if \<not> p \<and> \<not> c then Step ?t [PromiseTaking] Quiet
      else Step t [Promise] (if c then StageCancelled else StagePending))"
    unfolding promise_poll_def fetch_update_def live(2) state_or_masks(2) [OF k] state_flags [OF k] state_updates(6) [OF k]
    using live by auto
  show ?thesis
  proof (cases "\<exists>a \<in># rest. is_runner a")
    case True
    then have "\<not> resting_phase w r c p t (add_mset Promise rest)" by (auto simp: resting_phase_def filter_mset_eq_mempty_iff)
    then have "running_phase w r c p t (add_mset Promise rest)" using S by (auto simp: shared_inv_def)
    then have "p" by (simp add: running_phase_def)
    with True cl show ?thesis by (simp add: poll)
  next
    case False
    then have no: "filter_mset is_runner rest = {#}" by (auto simp: filter_mset_eq_mempty_iff)
    then have f: "filter_mset is_runner (add_mset Promise rest) = {#}" by simp
    have "\<not> running_phase w r c p t (add_mset Promise rest)" unfolding running_phase_def f by simp
    then have rest: "resting_phase w r c p t (add_mset Promise rest)" using S by (auto simp: shared_inv_def)
    have mem: "a \<in># rest \<longleftrightarrow> a \<in># filter_mset is_taker rest" if "is_taker a" for a using that by simp
    consider (idle) "p" "\<not> c" "t_core t = CoreFuture" "filter_mset is_taker rest = {#}"
      | (completed) "\<not> p" "\<not> c" "has_output t" "filter_mset is_taker rest = {#}"
      | (empty) "\<not> p" "c" "t_core t = CoreEmpty"
      | (taking) "\<not> p" "c" "has_output t" "filter_mset is_taker rest = {#PromiseTaking#}"
      | (dropping) "\<not> p" "c" "t_core t = CoreFuture" "filter_mset is_taker rest = {#TokenDropping#}"
      using rest by (auto simp: resting_phase_def)
    then show ?thesis
    proof cases
      case completed
      then obtain out where out: "t_core t = CoreOutput out" by (auto simp: has_output_def)
      have polled: "Polled (Some out) \<in> set tr"
        using outputs_polled_run [OF assms(2,1)] out by (simp add: outputs_polled_def t_def)
      have none: "PromiseTaking \<notin># rest" using mem [of PromiseTaking] completed(4) by simp
      let ?s = "\<lparr>sys_task = ?t, agents = add_mset PromiseTaking rest\<rparr>"
      have step: "promise_poll t = Step ?t [PromiseTaking] Quiet" using completed poll by simp
      have "task_inv ?s" using act_ok [OF I assms(3), of PollPromise] step by (simp add: good_def t_def)
      then have "\<exists>t''. promise_take (sys_task s') = Step t'' [Promise] (Took out)"
        if "task_run ?s tr' s'" "PromiseTaking \<in># agents s'" for tr' s'
        using output_stays [OF that(1), of out] taking_has_output [OF _ that(2)] out
        by (auto simp: promise_take_def take_output_def has_output_def)
      moreover have "t_state ?t AND CLOSED = CLOSED" using state_flags(2) [OF k, of True p] by simp
      ultimately show ?thesis using False out polled none step by auto
    next
      case taking
      then obtain out where out: "t_core t = CoreOutput out" by (auto simp: has_output_def)
      have "Polled (Some out) \<in> set tr" using outputs_polled_run [OF assms(2,1)] out by (simp add: outputs_polled_def t_def)
      moreover have "PromiseTaking \<in># rest" using mem [of PromiseTaking] taking(4) by simp
      ultimately show ?thesis using False out taking(2) by (simp add: poll)
    next
      case idle
      with False mem [of TokenDropping] show ?thesis by (simp add: poll)
    next
      case dropping
      with False mem [of TokenDropping] show ?thesis by (simp add: poll)
    next
      case empty
      with False show ?thesis by (simp add: poll)
    qed
  qed
qed

section \<open>A sample run\<close>

fun exec_task :: "'o system \<Rightarrow> ('o agent \<times> 'o choice) list \<Rightarrow> ('o task_event list \<times> 'o system) option" where
  "exec_task s [] = Some ([], s)"
| "exec_task s ((a, ch) # xs) =
     (if a \<in># agents s then
        (case act a ch (sys_task s) of
           Step t new ev \<Rightarrow>
             do { (tr, s') \<leftarrow> exec_task \<lparr>sys_task = t, agents = agents s - {#a#} + mset new\<rparr> xs; Some (ev # tr, s') }
         | _ \<Rightarrow> None)
      else None)"

lemma exec_task_run: "exec_task s xs = Some (tr, s') \<Longrightarrow> task_run s0 tr0 s \<Longrightarrow> task_run s0 (tr0 @ tr) s'"
proof (induction s xs arbitrary: tr tr0 rule: exec_task.induct)
  case (2 s a ch xs)
  then obtain t new ev tr' where a: "a \<in># agents s" "act a ch (sys_task s) = Step t new ev" "tr = ev # tr'"
    "exec_task \<lparr>sys_task = t, agents = agents s - {#a#} + mset new\<rparr> xs = Some (tr', s')"
    by (auto split: if_splits outcome.splits Option.bind_splits)
  have "task_step s ev \<lparr>sys_task = t, agents = agents s - {#a#} + mset new\<rparr>"
    by (rule task_act [OF _ a(2)]) (use a(1) in simp)
  from 2(1) [OF a(1,2,4) task_run_step [OF 2(3) this]] a(3) show ?case by simp
qed simp

lemmas act_defs = clone_waker_def wake_def wake_by_ref_def wake_by_val_def drop_waker_def promise_drop_def token_drop_def
  promise_poll_def promise_take_def token_cancel_def token_release_def schedule_task_def run_enter_def run_loop_def
  run_ready_def run_publish_def run_clear_def run_pending_def cancel_close_def fetch_update_def drop_future_def
  take_output_def dealloc_def

lemmas state_consts = POLLING_def CLOSED_def REF_INC_def WAKE_INC_def REF_MASK_def WAKE_MASK_def REF_CRITICAL_def
  WAKE_CRITICAL_def runnable_exists_def


text \<open>A task that is polled while a clone of its waker wakes it, polled again to completion, and whose output is
  then taken.\<close>

abbreviation sample_task :: "u64 \<Rightarrow> nat task_core \<Rightarrow> nat task" where
  "sample_task s core \<equiv> \<lparr>t_state = s, t_core = core, t_live = True, t_captures = False\<rparr>"

lemma sample_cloned:
  "task_run (spawn False :: nat system) [Quiet, Quiet, Quiet]
     \<lparr>sys_task = sample_task 8589934605 CoreFuture, agents = {#Polling 8589934592, Waker, Promise, Token#}\<rparr>"
proof -
  have "exec_task (spawn False :: nat system) [(Runnable, RunIt), (RunLoop 8589934601 8589934592, Go), (Polling 8589934592, Clone)] =
    Some ([Quiet, Quiet, Quiet], \<lparr>sys_task = sample_task 8589934605 CoreFuture, agents = {#Polling 8589934592, Waker, Promise, Token#}\<rparr>)"
    by (simp add: spawn_def act_defs state_consts)
  from exec_task_run [OF this task_run_none] show ?thesis by simp
qed

theorem task_memory_safe_witness:
  "\<forall>ch. act Waker ch (sample_task 8589934605 CoreFuture) \<noteq> Undefined"
  using task_memory_safe [OF _ sample_cloned, of False] by simp

theorem task_phase_table_witness: "unat (8589934605 AND REF_MASK) = 4 * 3"
  using task_phase_table [OF _ sample_cloned, of False] by simp

theorem wake_not_lost_witness:
  "\<exists>t' s' wc'. run_pending 8589934592 (sample_task 17179869197 CoreFuture) = Step t' [RunLoop s' wc'] Quiet \<and> s' AND CLOSED = 0"
proof -
  have a: "act Waker WakeRef (sample_task 8589934605 CoreFuture) = Step (sample_task 17179869197 CoreFuture) [Waker] Quiet"
    by (simp add: act_defs state_consts)
  show ?thesis
    using wake_not_lost [OF _ sample_cloned, of False Waker "{#Polling 8589934592, Promise, Token#}" WakeRef
        "sample_task 17179869197 CoreFuture" "[Waker]" Quiet] a
    by (simp add: POLLING_def CLOSED_def)
qed

theorem promise_output_witness:
  "\<exists>t'. promise_poll (sample_task 8589934600 (CoreOutput (7 :: nat))) = Step t' [PromiseTaking] Quiet \<and>
     (\<forall>tr' s'. task_run \<lparr>sys_task = t', agents = {#PromiseTaking, Token#}\<rparr> tr' s' \<longrightarrow> PromiseTaking \<in># agents s' \<longrightarrow>
        (\<exists>t''. promise_take (sys_task s') = Step t'' [Promise] (Took 7)))"
proof -
  let ?s = "\<lparr>sys_task = sample_task 8589934600 (CoreOutput 7), agents = {#Promise, Token#}\<rparr>"
  have "exec_task (spawn False :: nat system) [(Runnable, RunIt), (RunLoop 8589934601 8589934592, Go), (Polling 8589934592, Ready 7),
      (RunReady 7, Go), (RunPublish, Go)] = Some ([Quiet, Quiet, Polled (Some 7), Quiet, Quiet], ?s)"
    by (simp add: spawn_def act_defs state_consts)
  from exec_task_run [OF this task_run_none] have run: "task_run (spawn False) [Quiet, Quiet, Polled (Some 7), Quiet, Quiet] ?s" by simp
  show ?thesis using promise_output [OF _ run, of False "{#Token#}"] by auto
qed

end
