(* ===== verification/Double_Order.thy ===== *)
theory Double_Order
  imports Floats "HOL-Library.Signed_Division"
begin

text \<open>
  What the rate controllers use of the language beyond \<^verbatim>\<open>Floats\<close>: signed 64-bit integers as \<open>int\<close> with the
  wrap-around of the release build written out, the remaining operations on \<^verbatim>\<open>f64\<close> (negation, absolute
  value, square root, casts), and the order theory of floating-point values: rounding is monotone and
  leaves representable values alone, so comparisons, \<^verbatim>\<open>max\<close>, \<^verbatim>\<open>min\<close> and clamping behave as on the exact
  values they stand for.
\<close>

section \<open>Signed integers\<close>

type_synonym i64 = int

definition I64_MIN :: i64 where
  "I64_MIN = - (2 ^ 63)"

definition I64_MAX :: i64 where
  "I64_MAX = 2 ^ 63 - 1"

definition i64_wrap :: "int \<Rightarrow> i64" where
  "i64_wrap x = (x + 2 ^ 63) mod 2 ^ 64 - 2 ^ 63"

definition i64_add :: "i64 \<Rightarrow> i64 \<Rightarrow> i64" where
  "i64_add a b = i64_wrap (a + b)"

definition i64_sub :: "i64 \<Rightarrow> i64 \<Rightarrow> i64" where
  "i64_sub a b = i64_wrap (a - b)"

definition i64_of_usize :: "nat \<Rightarrow> i64" where
  "i64_of_usize n = i64_wrap (int n)"

definition usize_of_i64 :: "i64 \<Rightarrow> nat" where
  "usize_of_i64 x = nat (x mod 2 ^ 64)"

definition i64_clamp :: "i64 \<Rightarrow> i64 \<Rightarrow> i64 \<Rightarrow> i64" where
  "i64_clamp x lo hi = (if x < lo then lo else if hi < x then hi else x)"

text \<open>A duration's microseconds and milliseconds cast to \<^verbatim>\<open>i64\<close>.\<close>

definition as_micros_i64 :: "nat \<Rightarrow> i64" where
  "as_micros_i64 d = i64_wrap (int d div 1000)"

definition as_millis_i64 :: "nat \<Rightarrow> i64" where
  "as_millis_i64 d = i64_wrap (int d div 1000000)"

lemma i64_wrap_bounds: "I64_MIN \<le> i64_wrap x" "i64_wrap x \<le> I64_MAX"
  using pos_mod_bound [of "2 ^ 64" "x + 2 ^ 63"]
  by (simp_all add: I64_MIN_def I64_MAX_def i64_wrap_def)

lemma i64_wrap_small: "I64_MIN \<le> x \<Longrightarrow> x \<le> I64_MAX \<Longrightarrow> i64_wrap x = x"
  by (simp add: I64_MIN_def I64_MAX_def i64_wrap_def)

lemma i64_clamp_bounds: "lo \<le> hi \<Longrightarrow> lo \<le> i64_clamp x lo hi \<and> i64_clamp x lo hi \<le> hi"
  by (simp add: i64_clamp_def)

section \<open>Further operations\<close>

definition f64_nan :: f64 where
  "f64_nan = f64_of FNan"

definition f64_infinity :: f64 where
  "f64_infinity = f64_of (FInf False)"

definition f64_neg :: "f64 \<Rightarrow> f64" where
  "f64_neg a = f64_of (v_neg (f64_val a))"

definition f64_abs :: "f64 \<Rightarrow> f64" where
  "f64_abs a = f64_of (v_abs (f64_val a))"

definition f64_eq :: "f64 \<Rightarrow> f64 \<Rightarrow> bool" where
  "f64_eq a b = v_eq (f64_val a) (f64_val b)"

definition f64_floor :: "f64 \<Rightarrow> f64" where
  "f64_floor a = f64_of (v_integral floor (f64_val a))"

definition f64_of_i64 :: "i64 \<Rightarrow> f64" where
  "f64_of_i64 n = f64_lit (of_int n)"

definition f32_of_i64 :: "i64 \<Rightarrow> f32" where
  "f32_of_i64 n = f32_lit (of_int n)"

definition f64_to_u32 :: "f64 \<Rightarrow> nat" where
  "f64_to_u32 a = nat (v_to_int 0 (2 ^ 32 - 1) (f64_val a))"

definition f32_to_u32 :: "f32 \<Rightarrow> nat" where
  "f32_to_u32 a = nat (v_to_int 0 (2 ^ 32 - 1) (f32_val a))"

definition f32_to_i64 :: "f32 \<Rightarrow> i64" where
  "f32_to_i64 a = v_to_int (- (2 ^ 63)) (2 ^ 63 - 1) (f32_val a)"

text \<open>\<^verbatim>\<open>powi(4)\<close>: repeated squaring.\<close>

definition f64_powi4 :: "f64 \<Rightarrow> f64" where
  "f64_powi4 a = (let a2 = f64_mul a a in f64_mul a2 a2)"

text \<open>
  The square root is correctly rounded. The integer root of the radicand scaled by a power of four has at least sixty
  binary digits, and a half unit below its last place stands for a non-zero remainder, so that rounding this
  value once to the format's precision rounds the exact root.
\<close>

fun isqrt :: "int \<Rightarrow> int" where
  "isqrt n =
     (if n \<le> 0 then 0
      else let r = 2 * isqrt (n div 4) in if (r + 1) * (r + 1) \<le> n then r + 1 else r)"

declare isqrt.simps [simp del]

definition sqrt_scale :: "rat \<Rightarrow> int" where
  "sqrt_scale q = 60 - ilog2 q div 2"

definition sqrt_approx :: "rat \<Rightarrow> rat" where
  "sqrt_approx q =
     (let k = sqrt_scale q; n = \<lfloor>q * 4 powi k\<rfloor>; r = isqrt n
      in (if of_int (r * r) = q * 4 powi k then of_int r else of_int r + 1 / 2) / 2 powi k)"

fun v_sqrt :: "fval \<Rightarrow> fval" where
  "v_sqrt FNan = FNan"
| "v_sqrt (FInf s) = (if s then FNan else FInf False)"
| "v_sqrt (FNum s q) = (if q = 0 then FNum s 0 else if s then FNan else FNum False (sqrt_approx q))"

definition f64_sqrt :: "f64 \<Rightarrow> f64" where
  "f64_sqrt a = f64_of (v_sqrt (f64_val a))"

lemma isqrt_correct: "0 \<le> n \<Longrightarrow> 0 \<le> isqrt n \<and> isqrt n * isqrt n \<le> n \<and> n < (isqrt n + 1) * (isqrt n + 1)"
proof (induction n rule: isqrt.induct)
  case (1 n)
  show ?case
  proof (cases "n = 0")
    case True
    then show ?thesis by (simp add: isqrt.simps)
  next
    case False
    define s where "s = isqrt (n div 4)"
    have n: "\<not> n \<le> 0" "0 \<le> n div 4" using False 1(2) by auto
    from 1(1) [OF n(1,2)] have s: "0 \<le> s" "s * s \<le> n div 4" "n div 4 < (s + 1) * (s + 1)"
      by (simp_all add: s_def)
    have "4 * (n div 4) \<le> n" "n < 4 * (n div 4) + 4" by auto
    with s have "4 * (s * s) \<le> n" "n < 4 * ((s + 1) * (s + 1))" by linarith+
    then have b: "2 * s * (2 * s) \<le> n" "n < (2 * s + 2) * (2 * s + 2)" by (simp_all add: algebra_simps)
    have "isqrt n = (if (2 * s + 1) * (2 * s + 1) \<le> n then 2 * s + 1 else 2 * s)"
      using n(1) by (subst isqrt.simps) (simp add: Let_def s_def)
    with b s(1) show ?thesis by (auto simp: add.commute)
  qed
qed

section \<open>Rounding is monotone and exact on representable values\<close>

lemma round_half_even_mono: "x \<le> y \<Longrightarrow> round_half_even x \<le> round_half_even y"
proof -
  assume xy: "x \<le> y"
  show ?thesis
  proof (cases "\<lfloor>x\<rfloor> = \<lfloor>y\<rfloor>")
    case True
    with xy show ?thesis by (auto simp: round_half_even_def Let_def)
  next
    case False
    with xy have "\<lfloor>x\<rfloor> + 1 \<le> \<lfloor>y\<rfloor>" using floor_mono [OF xy] by linarith
    moreover have "round_half_even x \<le> \<lfloor>x\<rfloor> + 1" "\<lfloor>y\<rfloor> \<le> round_half_even y"
      by (simp_all add: round_half_even_def Let_def)
    ultimately show ?thesis by linarith
  qed
qed

lemma ilog2_mono:
  assumes "0 < q" "q \<le> r"
  shows "ilog2 q \<le> ilog2 r"
proof -
  have "(2 :: rat) powi ilog2 q < 2 powi (ilog2 r + 1)"
    using ilog2_bounds(1) [OF assms(1)] ilog2_bounds(2) [of r] assms by linarith
  then have "ilog2 q < ilog2 r + 1" by (rule pow2_less)
  then show ?thesis by simp
qed

lemma mag_bits_mono:
  assumes "0 \<le> q" "q \<le> r"
  shows "mag_bits F q \<le> mag_bits F r"
proof (cases "q = 0")
  case True
  then show ?thesis using mag_bits_nonneg [of r F] assms by (simp add: mag_bits_def)
next
  case False
  with assms have q: "0 < q" "0 < r" by simp_all
  have e: "round_exp F q \<le> round_exp F r" using ilog2_mono [OF q(1) assms(2)] by (simp add: round_exp_def)
  have "(round_exp F q - emin F) * 2 ^ mant F + round_sig F q
      \<le> (round_exp F r - emin F) * 2 ^ mant F + round_sig F r"
  proof (cases "round_exp F q = round_exp F r")
    case True
    with assms(2) show ?thesis
      by (simp add: round_sig_def round_half_even_mono divide_right_mono)
  next
    case False
    with e have lt: "round_exp F q + 1 \<le> round_exp F r" by simp
    then have "emin F < round_exp F r" by (simp add: round_exp_def)
    then have "2 ^ mant F \<le> round_sig F r" by (rule round_sig_bounds(3) [OF q(2)])
    moreover have "round_sig F q \<le> 2 * 2 ^ mant F" by (rule round_sig_bounds(2) [OF q(1)])
    moreover have "(round_exp F q + 1 - emin F) * 2 ^ mant F \<le> (round_exp F r - emin F) * 2 ^ mant F"
      using lt by (intro mult_right_mono) simp_all
    ultimately show ?thesis by (simp add: algebra_simps)
  qed
  then show ?thesis using False q by (simp add: mag_bits_def)
qed

lemma mag_val_nonneg: "0 \<le> b \<Longrightarrow> 0 \<le> mag_val F b"
  by (simp add: mag_val_def Let_def)

lemma mag_bits_exact:
  assumes "q = of_int k * 2 powi (e - int (mant F))" "2 ^ mant F \<le> k" "k < 2 * 2 ^ mant F" "emin F \<le> e"
  shows "0 < q" "ilog2 q = e" "mag_bits F q = min (inf_bits F) ((e - emin F) * 2 ^ mant F + k)"
proof -
  let ?u = "(2 :: rat) powi (e - int (mant F))"
  have u: "0 < ?u" "2 ^ mant F * ?u = 2 powi e"
    by (simp_all add: power_int_diff)
  have "(of_int (2 ^ mant F) :: rat) \<le> of_int k" "(of_int k :: rat) < of_int (2 * 2 ^ mant F)"
    unfolding of_int_le_iff of_int_less_iff by (rule assms(2,3))+
  then have k: "(2 :: rat) ^ mant F \<le> of_int k" "of_int k < 2 * (2 :: rat) ^ mant F" by simp_all
  have "0 < (2 :: rat) ^ mant F" by simp
  with k(1) have "0 < (of_int k :: rat)" by linarith
  with u(1) show q: "0 < q" by (simp add: assms(1))
  have "2 ^ mant F * ?u \<le> q" "q < 2 * 2 ^ mant F * ?u"
    unfolding assms(1) using k u(1) by (intro mult_right_mono mult_strict_right_mono; simp)+
  then have "2 powi e \<le> q" "q < 2 powi (e + 1)"
    using u(2) by (simp_all add: power_int_add mult.assoc)
  with q show il: "ilog2 q = e" by (intro ilog2_unique)
  have "q / ?u = of_int k" using u(1) by (simp add: assms(1))
  then show "mag_bits F q = min (inf_bits F) ((e - emin F) * 2 ^ mant F + k)"
    using q assms(4) by (simp add: mag_bits_def round_sig_def round_exp_def il max_absorb2 round_half_even_int)
qed

lemma mag_bits_subnormal:
  assumes "q = of_int k * 2 powi (emin F - int (mant F))" "0 < k" "k < 2 ^ mant F"
  shows "mag_bits F q = min (inf_bits F) k"
proof -
  let ?u = "(2 :: rat) powi (emin F - int (mant F))"
  have u: "0 < ?u" "2 ^ mant F * ?u = 2 powi emin F" by (simp_all add: power_int_diff)
  have q: "0 < q" using assms(1,2) u(1) by simp
  have "of_int k < (2 :: rat) ^ mant F" using assms(3) by (metis of_int_less_iff of_int_numeral of_int_power)
  then have "q < 2 powi emin F" using mult_strict_right_mono [OF _ u(1)] u(2) by (metis assms(1))
  then have "(2 :: rat) powi ilog2 q < 2 powi emin F" using ilog2_bounds(1) [OF q] by linarith
  then have "ilog2 q < emin F" by (rule pow2_less)
  then have e: "round_exp F q = emin F" by (simp add: round_exp_def)
  have "q / ?u = of_int k" using u(1) by (simp add: assms(1))
  then show ?thesis using q by (simp add: mag_bits_def round_sig_def e round_half_even_int)
qed

lemma mag_bits_val:
  assumes "0 \<le> b" "b < inf_bits F"
  shows "mag_bits F (mag_val F b) = b"
proof -
  let ?P = "(2 :: int) ^ mant F"
  define e f where "e = b div ?P" and "f = b mod ?P"
  have b: "b = e * ?P + f" "0 \<le> f" "f < ?P" "0 \<le> e"
    using assms(1) by (simp_all add: e_def f_def pos_imp_zdiv_nonneg_iff div_mult_mod_eq)
  consider "e = 0" "f = 0" | "e = 0" "0 < f" | "0 < e" using b by linarith
  then show ?thesis
  proof cases
    case 1
    with b(1) show ?thesis by (simp add: mag_val_def mag_bits_def)
  next
    case 2
    then have "mag_val F b = of_int f * 2 powi (emin F - int (mant F))"
      by (simp add: mag_val_def Let_def flip: e_def f_def)
    from mag_bits_subnormal [OF this 2(2) b(3)] show ?thesis using 2 b(1) assms(2) by simp
  next
    case 3
    then have "mag_val F b = of_int (?P + f) * 2 powi (e - 1 + emin F - int (mant F))"
      by (simp add: mag_val_def Let_def flip: e_def f_def)
    from mag_bits_exact(3) [OF this] 3 b(1-3) assms(2) show ?thesis by (simp add: algebra_simps)
  qed
qed

lemma mag_val_mono:
  assumes "0 \<le> b" "b \<le> c" "c < inf_bits F"
  shows "mag_val F b \<le> mag_val F c"
proof (rule ccontr)
  assume "\<not> ?thesis"
  then have "mag_val F c \<le> mag_val F b" "mag_val F c \<noteq> mag_val F b" by simp_all
  then have "c \<le> b" using mag_bits_mono [of "mag_val F c" "mag_val F b" F] mag_bits_val [of b F]
      mag_bits_val [of c F] assms mag_val_nonneg [of c F] by simp
  with assms(2) \<open>mag_val F c \<noteq> mag_val F b\<close> show False by simp
qed

section \<open>Double precision\<close>

lemma binary64_simps [simp]:
  "mant binary64 = 52" "expo binary64 = 11" "emin binary64 = - 1022"
  "inf_bits binary64 = 0x7FF0000000000000" "sign_bit binary64 = 0x8000000000000000"
  by (simp_all add: binary64_def emin_def inf_bits_def sign_bit_def)

definition v_wf :: "fval \<Rightarrow> bool" where
  "v_wf v = (case v of FNum s q \<Rightarrow> 0 \<le> q | _ \<Rightarrow> True)"

text \<open>The value that rounding to double precision gives.\<close>

definition rnd64 :: "fval \<Rightarrow> fval" where
  "rnd64 v = (case v of FNum s q \<Rightarrow>
     if mag_bits binary64 q = inf_bits binary64 then FInf s else FNum s (mag_val binary64 (mag_bits binary64 q))
   | _ \<Rightarrow> v)"

lemma uint_f64_bits:
  assumes "0 \<le> b" "b < 2 ^ 64"
  shows "uint (of_int b :: 64 word) = b"
  using assms by (simp add: uint_word_of_int take_bit_eq_mod)

lemma f64_val_of:
  assumes "v_wf v"
  shows "f64_val (f64_of v) = rnd64 v"
proof (cases v)
  case FNan
  then show ?thesis
    by (simp add: f64_val_def f64_of_def f_encode_def rnd64_def nan_bits_def f_decode_def)
next
  case (FInf s)
  then show ?thesis
    by (cases s; simp add: f64_val_def f64_of_def f_encode_def rnd64_def f_decode_def)
next
  case (FNum s q)
  with assms have q: "0 \<le> q" by (simp add: v_wf_def)
  let ?b = "f_encode binary64 (FNum s q)"
  have "0 \<le> ?b" "?b < 2 ^ 64"
    using mag_bits_nonneg [OF q, of binary64] mag_bits_le [of binary64 q] by (auto simp: f_encode_def)
  then have "uint (of_int ?b :: 64 word) = ?b" by (rule uint_f64_bits)
  then show ?thesis
    using f_decode_encode_num [OF q, of binary64 s] by (simp add: f64_val_def f64_of_def FNum rnd64_def)
qed

text \<open>Decoded values are well formed and not changed by rounding again.\<close>

lemma f64_val_wf [simp]: "v_wf (f64_val x)"
proof -
  have "0 \<le> uint x mod sign_bit binary64" by simp
  then show ?thesis using mag_val_nonneg [of _ binary64] by (simp add: f64_val_def f_decode_def v_wf_def Let_def)
qed

lemma rnd64_val [simp]: "rnd64 (f64_val x) = f64_val x"
proof -
  define m where "m = uint x mod sign_bit binary64"
  have "0 \<le> m" by (simp add: m_def)
  then have "m < inf_bits binary64 \<Longrightarrow> mag_bits binary64 (mag_val binary64 m) = m" by (rule mag_bits_val)
  then show ?thesis
    unfolding f64_val_def f_decode_def Let_def m_def [symmetric] by (auto simp: rnd64_def)
qed

section \<open>The order on values\<close>

lemma signed_simps [simp]: "signed False q = q" "signed True q = - q" "signed s 0 = 0"
  by (simp_all add: signed_def)

lemma v_le_refl: "v \<noteq> FNan \<Longrightarrow> v_le v v"
  by (cases v) (simp_all add: v_le_def)

lemma v_le_num: "v_le (FNum s q) (FNum t r) \<longleftrightarrow> signed s q \<le> signed t r"
  by (auto simp: v_le_def)

lemma v_le_inf:
  "v_le (FInf s) (FInf t) \<longleftrightarrow> s \<or> \<not> t" "v_le (FInf s) (FNum t r) \<longleftrightarrow> s" "v_le (FNum t r) (FInf s) \<longleftrightarrow> \<not> s"
  "\<not> v_le FNan v" "\<not> v_le v FNan"
  by (auto simp: v_le_def)

lemmas v_le_simps [simp] = v_le_num v_le_inf

lemma v_le_trans: "v_le a b \<Longrightarrow> v_le b c \<Longrightarrow> v_le a c"
  by (cases a; cases b; cases c) auto

lemma v_less_le: "v_less a b \<Longrightarrow> v_le a b"
  by (simp add: v_le_def)

lemma v_not_less: "a \<noteq> FNan \<Longrightarrow> b \<noteq> FNan \<Longrightarrow> \<not> v_less a b \<longleftrightarrow> v_le b a"
  by (cases a; cases b) auto

lemma v_less_not_le: "v_less a b \<Longrightarrow> \<not> v_le b a"
  by (cases a; cases b) auto

lemma v_le_not_nan: "v_le a b \<Longrightarrow> a \<noteq> FNan \<and> b \<noteq> FNan"
  by (cases a; cases b) auto

lemma v_less_irrefl [simp]: "\<not> v_less a a"
  by (cases a) auto

lemma v_max_ge: "b \<noteq> FNan \<Longrightarrow> v_le b (v_max a b)" "a \<noteq> FNan \<Longrightarrow> v_le a (v_max a b)"
  using v_not_less [of a b] by (auto simp: v_max_def v_le_refl v_less_le)

lemma v_min_le: "b \<noteq> FNan \<Longrightarrow> v_le (v_min a b) b" "a \<noteq> FNan \<Longrightarrow> v_le (v_min a b) a"
  using v_not_less [of b a] by (auto simp: v_min_def v_le_refl v_less_le)

lemma v_max_le: "v_le a c \<Longrightarrow> v_le b c \<Longrightarrow> v_le (v_max a b) c"
  by (simp add: v_max_def)

lemma v_min_ge: "v_le c a \<Longrightarrow> v_le c b \<Longrightarrow> v_le c (v_min a b)"
  by (simp add: v_min_def)

lemma v_wf_ops [simp]:
  "v_wf a \<Longrightarrow> v_wf (v_neg a)" "v_wf a \<Longrightarrow> v_wf (v_abs a)" "v_wf (v_of_rat z x)"
  "v_wf a \<Longrightarrow> v_wf b \<Longrightarrow> v_wf (v_add a b)" "v_wf a \<Longrightarrow> v_wf b \<Longrightarrow> v_wf (v_sub a b)"
  "v_wf a \<Longrightarrow> v_wf b \<Longrightarrow> v_wf (v_mul a b)" "v_wf a \<Longrightarrow> v_wf b \<Longrightarrow> v_wf (v_div a b)"
  "v_wf a \<Longrightarrow> v_wf b \<Longrightarrow> v_wf (v_max a b)" "v_wf a \<Longrightarrow> v_wf b \<Longrightarrow> v_wf (v_min a b)"
  "v_wf a \<Longrightarrow> v_wf (v_integral f a)" "v_wf FNan" "v_wf (FInf s)"
proof -
  show n: "v_wf (v_of_rat z x)" for z x by (simp add: v_of_rat_def v_wf_def)
  show ad: "v_wf (v_add a b)" for a b
    using n by (cases a; cases b) (simp_all add: v_wf_def [of FNan] v_wf_def [of "FInf _"])
  show ng: "v_wf a \<Longrightarrow> v_wf (v_neg a)" for a by (cases a) (simp_all add: v_wf_def)
  show "v_wf (v_sub a b)" by (simp add: v_sub_def ad)
qed (cases a; cases b; simp add: v_wf_def v_max_def v_min_def)+

lemma rnd64_mono:
  assumes "v_wf a" "v_wf b" "v_le a b"
  shows "v_le (rnd64 a) (rnd64 b)"
proof -
  let ?m = "mag_bits binary64" and ?v = "\<lambda>q. mag_val binary64 (mag_bits binary64 q)"
  have mono: "q \<le> r \<Longrightarrow> 0 \<le> q \<Longrightarrow> ?m r \<noteq> inf_bits binary64 \<Longrightarrow> ?m q \<noteq> inf_bits binary64 \<and> ?v q \<le> ?v r" for q r
    using mag_bits_mono [of q r binary64] mag_bits_nonneg [of q binary64] mag_bits_le [of binary64 r]
      mag_val_mono [of "?m q" "?m r" binary64] by simp
  have nn: "0 \<le> q \<Longrightarrow> 0 \<le> ?v q" for q using mag_bits_nonneg [of q binary64] mag_val_nonneg by blast
  show ?thesis
  proof (cases a)
    case (FNum s q)
    show ?thesis
    proof (cases b)
      case b: (FNum t r)
      have qr: "0 \<le> q" "0 \<le> r" "signed s q \<le> signed t r" using assms FNum b by (simp_all add: v_wf_def)
      show ?thesis
      proof (cases s; cases t)
        assume "\<not> s" "\<not> t"
        with qr mono [of q r] show ?thesis by (auto simp: FNum b rnd64_def)
      next
        assume "s" "t"
        with qr mono [of r q] show ?thesis by (auto simp: FNum b rnd64_def)
      next
        assume "s" "\<not> t"
        with nn [of q] nn [of r] qr show ?thesis by (auto simp: FNum b rnd64_def)
      next
        assume "\<not> s" "t"
        with qr have "q = 0" "r = 0" by simp_all
        then show ?thesis by (simp add: FNum b rnd64_def mag_bits_def mag_val_def)
      qed
    qed (use assms FNum in \<open>auto simp: rnd64_def\<close>)
  qed (use assms in \<open>cases b; auto simp: rnd64_def\<close>)+
qed

lemma rnd64_nan [simp]: "rnd64 v = FNan \<longleftrightarrow> v = FNan"
  by (cases v) (simp_all add: rnd64_def)

lemma rnd64_simps [simp]: "rnd64 FNan = FNan" "rnd64 (FInf s) = FInf s" "rnd64 (FNum s 0) = FNum s 0"
  by (simp_all add: rnd64_def mag_bits_def mag_val_def)

section \<open>Operations on doubles by value\<close>

lemma v_wf_sqrt: "v_wf a \<Longrightarrow> v_wf (v_sqrt a)"
proof (cases a)
  case (FNum s q)
  have "0 \<le> isqrt n" for n :: int by (cases "0 \<le> n") (use isqrt_correct [of n] in \<open>auto simp: isqrt.simps\<close>)
  then have "0 \<le> sqrt_approx q" by (auto simp: sqrt_approx_def Let_def)
  then show ?thesis by (simp add: FNum v_wf_def)
qed (auto simp: v_wf_def)

lemma f64_val_ops:
  "f64_val (f64_add a b) = rnd64 (v_add (f64_val a) (f64_val b))"
  "f64_val (f64_sub a b) = rnd64 (v_sub (f64_val a) (f64_val b))"
  "f64_val (f64_mul a b) = rnd64 (v_mul (f64_val a) (f64_val b))"
  "f64_val (f64_div a b) = rnd64 (v_div (f64_val a) (f64_val b))"
  "f64_val (f64_round a) = rnd64 (v_integral round_half_away (f64_val a))"
  "f64_val (f64_floor a) = rnd64 (v_integral floor (f64_val a))"
  "f64_val (f64_sqrt a) = rnd64 (v_sqrt (f64_val a))"
  "f64_val (f64_lit x) = rnd64 (v_of_rat False x)"
  by (simp_all add: f64_add_def f64_sub_def f64_mul_def f64_div_def f64_round_def f64_floor_def f64_sqrt_def
      f64_lit_def f64_val_of v_wf_sqrt)

lemma f64_mul_commute: "f64_mul a b = f64_mul b a"
proof -
  have "v_mul x y = v_mul y x" for x y
    by (cases x; cases y) (auto simp: mult.commute)
  then show ?thesis by (simp add: f64_mul_def)
qed

lemma rnd64_neg: "rnd64 (v_neg v) = v_neg (rnd64 v)" and rnd64_abs: "rnd64 (v_abs v) = v_abs (rnd64 v)"
  by (cases v; simp add: rnd64_def)+

lemma f64_val_exact:
  "f64_val (f64_max a b) = v_max (f64_val a) (f64_val b)"
  "f64_val (f64_min a b) = v_min (f64_val a) (f64_val b)"
  "f64_val (f64_neg a) = v_neg (f64_val a)"
  "f64_val (f64_abs a) = v_abs (f64_val a)"
  "f64_val f64_nan = FNan" "f64_val f64_infinity = FInf False"
  by (simp_all add: f64_max_def f64_min_def f64_neg_def f64_abs_def f64_nan_def f64_infinity_def f64_val_of
      rnd64_neg rnd64_abs) (simp_all add: v_max_def v_min_def)

definition f64_is_nan :: "f64 \<Rightarrow> bool" where
  "f64_is_nan x \<longleftrightarrow> f64_val x = FNan"

lemma f64_le_refl: "\<not> f64_is_nan x \<Longrightarrow> f64_le x x"
  by (simp add: f64_le_def f64_is_nan_def v_le_refl)

lemma f64_le_trans: "f64_le a b \<Longrightarrow> f64_le b c \<Longrightarrow> f64_le a c"
  unfolding f64_le_def by (rule v_le_trans)

lemma f64_less_le: "f64_less a b \<Longrightarrow> f64_le a b"
  by (simp add: f64_le_def f64_less_def v_less_le)

lemma f64_le_not_nan: "f64_le a b \<Longrightarrow> \<not> f64_is_nan a" "f64_le a b \<Longrightarrow> \<not> f64_is_nan b"
  unfolding f64_le_def f64_is_nan_def using v_le_not_nan by blast+

lemma f64_le_less_trans: "f64_le a b \<Longrightarrow> f64_less b c \<Longrightarrow> f64_less a c"
  unfolding f64_le_def f64_less_def by (cases "f64_val a"; cases "f64_val b"; cases "f64_val c") auto

lemma f64_less_le_trans: "f64_less a b \<Longrightarrow> f64_le b c \<Longrightarrow> f64_less a c"
  unfolding f64_le_def f64_less_def by (cases "f64_val a"; cases "f64_val b"; cases "f64_val c") auto

lemma f64_not_less: "\<not> f64_is_nan a \<Longrightarrow> \<not> f64_is_nan b \<Longrightarrow> \<not> f64_less a b \<longleftrightarrow> f64_le b a"
  by (simp add: f64_le_def f64_less_def f64_is_nan_def v_not_less)

lemma f64_max_ge: "\<not> f64_is_nan b \<Longrightarrow> f64_le b (f64_max a b)" "\<not> f64_is_nan a \<Longrightarrow> f64_le a (f64_max a b)"
  by (simp_all add: f64_le_def f64_is_nan_def f64_val_exact v_max_ge)

lemma f64_min_le: "\<not> f64_is_nan b \<Longrightarrow> f64_le (f64_min a b) b" "\<not> f64_is_nan a \<Longrightarrow> f64_le (f64_min a b) a"
  by (simp_all add: f64_le_def f64_is_nan_def f64_val_exact v_min_le)

lemma f64_max_le: "f64_le a c \<Longrightarrow> f64_le b c \<Longrightarrow> f64_le (f64_max a b) c"
  by (simp add: f64_le_def f64_val_exact v_max_le)

lemma f64_min_ge: "f64_le c a \<Longrightarrow> f64_le c b \<Longrightarrow> f64_le c (f64_min a b)"
  by (simp add: f64_le_def f64_val_exact v_min_ge)

lemma f64_lit_mono: "x \<le> y \<Longrightarrow> f64_le (f64_lit x) (f64_lit y)"
  unfolding f64_le_def f64_val_ops by (rule rnd64_mono) (simp_all, auto simp: v_of_rat_def signed_def)

text \<open>Integers of up to 53 bits are represented exactly.\<close>

lemma mag_bits_int:
  assumes "0 < n" "n < 2 ^ 53"
  shows "mag_bits binary64 (of_int n) < inf_bits binary64" "mag_val binary64 (mag_bits binary64 (of_int n)) = of_int n"
proof -
  define e where "e = ilog2 (of_int n)"
  have n: "(0 :: rat) < of_int n" using assms(1) by simp
  have "(of_int 1 :: rat) \<le> of_int n" "of_int n < (of_int (2 ^ 53) :: rat)"
    unfolding of_int_less_iff of_int_le_iff using assms by simp_all
  then have "(2 :: rat) powi 0 < 2 powi (e + 1)" "(2 :: rat) powi e < 2 powi 53"
    using ilog2_bounds [OF n] by (simp_all add: e_def)
  from this [THEN pow2_less] have e: "0 \<le> e" "e \<le> 52" by simp_all
  then obtain j where j: "e = int j" "j \<le> 52" by (cases e) auto
  have "of_int n / 2 powi (e - 52) = (of_int n * 2 ^ (52 - j) :: rat)"
  proof -
    have "e - 52 = - int (52 - j)" using j by simp
    then show ?thesis by (simp only: power_int_minus power_int_of_nat) (simp add: divide_inverse)
  qed
  also have "\<dots> = of_int (n * 2 ^ (52 - j))" by simp
  finally have x: "of_int n / 2 powi (e - 52) = (of_int (n * 2 ^ (52 - j)) :: rat)" .
  have r: "round_exp binary64 (of_int n) = e" using e by (simp add: round_exp_def e_def)
  have s: "round_sig binary64 (of_int n) = n * 2 ^ (52 - j)"
    unfolding round_sig_def r binary64_simps of_nat_numeral x by (rule round_half_even_int)
  have "round_sig binary64 (of_int n) \<le> 2 * 2 ^ 52" using round_sig_bounds(2) [OF n, of binary64] by simp
  then show lt: "mag_bits binary64 (of_int n) < inf_bits binary64"
    using e(2) n by (simp add: mag_bits_def r)
  from mag_val_round [OF n lt] show "mag_val binary64 (mag_bits binary64 (of_int n)) = of_int n"
    using x by (simp add: r s field_simps)
qed

lemma f64_val_int:
  assumes "\<bar>n\<bar> < 2 ^ 53"
  shows "f64_val (f64_lit (of_int n)) = v_of_rat False (of_int n)" "f64_val (f64_of_i64 n) = v_of_rat False (of_int n)"
proof -
  consider "n = 0" | "0 < n" | "n < 0" by linarith
  then show v: "f64_val (f64_lit (of_int n)) = v_of_rat False (of_int n)"
  proof cases
    case 2
    with assms mag_bits_int [of n] show ?thesis by (simp add: f64_val_ops v_of_rat_def rnd64_def)
  next
    case 3
    with assms mag_bits_int [of "- n"] show ?thesis by (simp add: f64_val_ops v_of_rat_def rnd64_def)
  qed (simp add: f64_val_ops v_of_rat_def)
  then show "f64_val (f64_of_i64 n) = v_of_rat False (of_int n)" by (simp add: f64_of_i64_def)
qed

text \<open>
  Every point of the grid \<open>2 powi - sqrt_scale q\<close>, hence every representable number near the root and every
  midpoint of two of them, lies on the same side of \<open>sqrt_approx q\<close> as of the exact root: rounding the one
  is rounding the other.
\<close>

lemma sqrt_approx_grid:
  assumes "0 < q" "0 \<le> m"
  defines "x \<equiv> of_int m / 2 powi sqrt_scale q"
  shows "x < sqrt_approx q \<longleftrightarrow> x * x < q" "x = sqrt_approx q \<longleftrightarrow> x * x = q"
proof -
  define k X r where "k = sqrt_scale q" and "X = q * 4 powi k" and "r = isqrt \<lfloor>X\<rfloor>"
  have p: "(0 :: rat) < 2 powi k" by simp
  have "(4 :: rat) powi k = 2 powi k * 2 powi k" by (simp flip: power_int_mult_distrib)
  then have xx: "x * x < q \<longleftrightarrow> of_int (m * m) < X" "x * x = q \<longleftrightarrow> of_int (m * m) = X"
    using p by (simp_all add: x_def X_def field_simps flip: k_def)
  have "0 \<le> X" using assms(1) by (simp add: X_def)
  then have r: "0 \<le> r" "r * r \<le> \<lfloor>X\<rfloor>" "\<lfloor>X\<rfloor> < (r + 1) * (r + 1)"
    using isqrt_correct [of "\<lfloor>X\<rfloor>"] by (simp_all add: r_def)
  then have rX: "of_int (r * r) \<le> X" "X < of_int ((r + 1) * (r + 1))"
    by (simp_all only: le_floor_iff floor_less_iff)
  have a: "sqrt_approx q = (if of_int (r * r) = X then of_int r else of_int r + 1 / 2) / 2 powi k"
    by (simp add: sqrt_approx_def Let_def r_def X_def flip: k_def)
  have sides: "x < y / 2 powi k \<longleftrightarrow> of_int m < y" "x = y / 2 powi k \<longleftrightarrow> of_int m = y" for y
    unfolding x_def k_def [symmetric] using p divide_less_cancel [of _ "2 powi k"] by (metis order_less_asym, simp)
  have cmp: "of_int (m * m) < X \<longleftrightarrow> m \<le> r" "of_int (m * m) \<noteq> X" if "of_int (r * r) \<noteq> X"
  proof -
    have low: "of_int (m * m) < X" if "m \<le> r"
    proof -
      have "m * m \<le> r * r" using that assms(2) by (intro mult_mono) simp_all
      then have "(of_int (m * m) :: rat) \<le> of_int (r * r)" by (simp only: of_int_le_iff)
      then show ?thesis using rX(1) \<open>of_int (r * r) \<noteq> X\<close> by linarith
    qed
    have high: "X < of_int (m * m)" if "\<not> m \<le> r"
    proof -
      have "(r + 1) * (r + 1) \<le> m * m" using that r(1) by (intro mult_mono) simp_all
      then have "(of_int ((r + 1) * (r + 1)) :: rat) \<le> of_int (m * m)" by (simp only: of_int_le_iff)
      then show ?thesis using rX(2) by linarith
    qed
    show "of_int (m * m) < X \<longleftrightarrow> m \<le> r" "of_int (m * m) \<noteq> X" using low high by fastforce+
  qed
  have sq: "m * m < r * r \<longleftrightarrow> m < r" "m * m = r * r \<longleftrightarrow> m = r"
    using assms(2) r(1) mult_strict_mono [of m r m r] mult_mono [of r m r m]
    by (auto simp: not_less [symmetric]) (cases "m < r"; cases "r < m"; use mult_strict_mono [of r m r m] in auto)+
  have half: "of_int m < (of_int r + 1 / 2 :: rat) \<longleftrightarrow> m \<le> r" "(of_int m :: rat) \<noteq> of_int r + 1 / 2"
  proof -
    have "2 * m < 2 * r + 1 \<longleftrightarrow> m \<le> r" "2 * m \<noteq> 2 * r + 1" by presburger+
    then have "(of_int (2 * m) :: rat) < of_int (2 * r + 1) \<longleftrightarrow> m \<le> r" "(of_int (2 * m) :: rat) \<noteq> of_int (2 * r + 1)"
      unfolding of_int_less_iff of_int_eq_iff .
    then show "of_int m < (of_int r + 1 / 2 :: rat) \<longleftrightarrow> m \<le> r" "(of_int m :: rat) \<noteq> of_int r + 1 / 2"
      by (simp_all add: field_simps)
  qed
  show "x < sqrt_approx q \<longleftrightarrow> x * x < q"
    using cmp(1) half(1) sq(1) by (auto simp: a sides xx simp flip: of_int_mult)
  show "x = sqrt_approx q \<longleftrightarrow> x * x = q"
    using cmp(2) half(2) sq(2) by (auto simp: a sides xx simp flip: of_int_mult)
qed

section \<open>Finite values and interval reasoning\<close>

text \<open>
  The rational a finite double stands for. A result whose exact value lies between two representable
  rationals stays between them after rounding, so that bounds on floating-point code follow from
  bounds on the exact arithmetic.
\<close>

definition f64_rat :: "f64 \<Rightarrow> rat option" where
  "f64_rat x = (case f64_val x of FNum s q \<Rightarrow> Some (signed s q) | _ \<Rightarrow> None)"

definition rep64 :: "rat \<Rightarrow> bool" where
  "rep64 r \<longleftrightarrow> (\<exists>x. f64_rat x = Some r)"

lemma rep64I: "f64_rat x = Some r \<Longrightarrow> rep64 r"
  by (auto simp: rep64_def)

lemma f64_rat_cases:
  assumes "f64_rat x = Some r"
  obtains s q where "f64_val x = FNum s q" "r = signed s q" "0 \<le> q"
  using assms f64_val_wf [of x] by (auto simp: f64_rat_def v_wf_def split: fval.splits)

lemma f64_rat_of_val: "f64_val x = v_of_rat z r \<Longrightarrow> f64_rat x = Some r"
  by (simp add: f64_rat_def v_of_rat_def signed_def)

lemma f64_rat_int:
  assumes "\<bar>n\<bar> < 2 ^ 53"
  shows "f64_rat (f64_lit (of_int n)) = Some (of_int n)" "f64_rat (f64_of_i64 n) = Some (of_int n)"
  by (rule f64_rat_of_val, rule f64_val_int [OF assms])+

lemma rep64_int: "\<bar>n\<bar> < 2 ^ 53 \<Longrightarrow> rep64 (of_int n)"
  by (rule rep64I [OF f64_rat_int(1)])

lemma rep64_numeral:
  "rep64 0" "rep64 1" "(numeral k :: int) < 2 ^ 53 \<Longrightarrow> rep64 (numeral k)"
  "(numeral k :: int) < 2 ^ 53 \<Longrightarrow> rep64 (- numeral k)"
  using rep64_int [of 0] rep64_int [of 1] rep64_int [of "numeral k"] rep64_int [of "- numeral k"] by simp_all

lemma f64_rat_numeral:
  "f64_rat (f64_lit 0) = Some 0" "f64_rat (f64_lit 1) = Some 1"
  "(numeral k :: int) < 2 ^ 53 \<Longrightarrow> f64_rat (f64_lit (numeral k)) = Some (numeral k)"
  using f64_rat_int(1) [of 0] f64_rat_int(1) [of 1] f64_rat_int(1) [of "numeral k"] by simp_all

lemma f64_le_rat: "f64_rat a = Some x \<Longrightarrow> f64_rat b = Some y \<Longrightarrow> f64_le a b \<longleftrightarrow> x \<le> y"
  by (auto elim!: f64_rat_cases simp: f64_le_def)

lemma f64_less_rat: "f64_rat a = Some x \<Longrightarrow> f64_rat b = Some y \<Longrightarrow> f64_less a b \<longleftrightarrow> x < y"
  by (auto elim!: f64_rat_cases simp: f64_less_def)

lemma f64_eq_rat: "f64_rat a = Some x \<Longrightarrow> f64_rat b = Some y \<Longrightarrow> f64_eq a b \<longleftrightarrow> x = y"
  by (auto elim!: f64_rat_cases simp: f64_eq_def)

lemma f64_rat_not_nan: "f64_rat a = Some x \<Longrightarrow> \<not> f64_is_nan a"
  by (auto simp: f64_rat_def f64_is_nan_def)

lemma f64_rat_between:
  assumes "f64_le a x" "f64_le x b" "f64_rat a = Some p" "f64_rat b = Some q"
  shows "\<exists>r. f64_rat x = Some r \<and> p \<le> r \<and> r \<le> q"
  using assms by (auto simp: f64_le_def f64_rat_def split: fval.splits)

lemma f64_rat_max: "f64_rat a = Some x \<Longrightarrow> f64_rat b = Some y \<Longrightarrow> f64_rat (f64_max a b) = Some (max x y)"
  by (auto simp: f64_rat_def f64_val_exact v_max_def split: fval.splits)

lemma f64_rat_min: "f64_rat a = Some x \<Longrightarrow> f64_rat b = Some y \<Longrightarrow> f64_rat (f64_min a b) = Some (min x y)"
  by (auto simp: f64_rat_def f64_val_exact v_min_def split: fval.splits)

lemma f64_rat_neg: "f64_rat a = Some x \<Longrightarrow> f64_rat (f64_neg a) = Some (- x)"
  by (auto simp: f64_rat_def f64_val_exact signed_def split: fval.splits)

lemma f64_rat_abs: "f64_rat a = Some x \<Longrightarrow> f64_rat (f64_abs a) = Some \<bar>x\<bar>"
  using f64_val_wf [of a] by (auto simp: v_wf_def f64_rat_def f64_val_exact signed_def split: fval.splits)

text \<open>One rounding step.\<close>

lemma rnd64_between:
  assumes "f64_val x = rnd64 (FNum s q)" "0 \<le> q" "lo \<le> signed s q" "signed s q \<le> hi" "rep64 lo" "rep64 hi"
  shows "\<exists>z. f64_rat x = Some z \<and> lo \<le> z \<and> z \<le> hi"
proof -
  from assms(5,6) obtain l h where lh: "f64_rat l = Some lo" "f64_rat h = Some hi" by (auto simp: rep64_def)
  have "v_wf (FNum s q)" using assms(2) by (simp add: v_wf_def)
  moreover have "v_le (f64_val l) (FNum s q)" "v_le (FNum s q) (f64_val h)"
    using lh assms(3,4) by (auto elim!: f64_rat_cases)
  ultimately have "v_le (f64_val l) (f64_val x)" "v_le (f64_val x) (f64_val h)"
    using rnd64_mono [of "f64_val l" "FNum s q"] rnd64_mono [of "FNum s q" "f64_val h"] assms(1) by simp_all
  then show ?thesis using f64_rat_between [of l x h] lh by (simp add: f64_le_def)
qed

lemma rnd64_rat_between:
  assumes "f64_val x = rnd64 (v_of_rat s r)" "lo \<le> r" "r \<le> hi" "rep64 lo" "rep64 hi"
  shows "\<exists>z. f64_rat x = Some z \<and> lo \<le> z \<and> z \<le> hi"
proof -
  have "v_of_rat s r = FNum (if r = 0 then s else r < 0) \<bar>r\<bar>" by (simp add: v_of_rat_def)
  then show ?thesis
    using assms rnd64_between [of x "if r = 0 then s else r < 0" "\<bar>r\<bar>" lo hi] by (simp add: signed_def split: if_splits)
qed

lemma f64_add_between:
  assumes "f64_rat a = Some x" "f64_rat b = Some y" "lo \<le> x + y" "x + y \<le> hi" "rep64 lo" "rep64 hi"
  shows "\<exists>z. f64_rat (f64_add a b) = Some z \<and> lo \<le> z \<and> z \<le> hi"
  using assms(1,2) by (elim f64_rat_cases) (rule rnd64_rat_between [OF _ assms(3-6)], simp add: f64_val_ops)

lemma f64_sub_between:
  assumes "f64_rat a = Some x" "f64_rat b = Some y" "lo \<le> x - y" "x - y \<le> hi" "rep64 lo" "rep64 hi"
  shows "\<exists>z. f64_rat (f64_sub a b) = Some z \<and> lo \<le> z \<and> z \<le> hi"
proof -
  have "f64_rat (f64_neg b) = Some (- y)" using assms(2) by (rule f64_rat_neg)
  moreover have "f64_val (f64_sub a b) = f64_val (f64_add a (f64_neg b))"
    by (simp add: f64_val_ops f64_val_exact v_sub_def)
  ultimately show ?thesis
    using f64_add_between [OF assms(1), of "f64_neg b" "- y" lo hi] assms(3-6) by (simp add: f64_rat_def)
qed

lemma v_le_of_rat: "v_le (v_of_rat z p) (v_of_rat z' q) \<longleftrightarrow> p \<le> q"
  by (auto simp: v_of_rat_def signed_def)

lemma v_add_rat:
  assumes "f64_rat a = Some x" "f64_rat b = Some y"
  obtains z where "v_add (f64_val a) (f64_val b) = v_of_rat z (x + y)"
  using assms by (elim f64_rat_cases) simp

lemma f64_add_mono:
  assumes "f64_rat a = Some x" "f64_rat b = Some y" "f64_rat c = Some u" "f64_rat d = Some v" "x \<le> u" "y \<le> v"
  shows "f64_le (f64_add a b) (f64_add c d)"
proof -
  obtain z z' where "v_add (f64_val a) (f64_val b) = v_of_rat z (x + y)" "v_add (f64_val c) (f64_val d) = v_of_rat z' (u + v)"
    using v_add_rat [OF assms(1,2)] v_add_rat [OF assms(3,4)] by metis
  then have "v_le (v_add (f64_val a) (f64_val b)) (v_add (f64_val c) (f64_val d))"
    using assms(5,6) by (simp add: v_le_of_rat)
  from rnd64_mono [OF _ _ this] show ?thesis by (simp add: f64_le_def f64_val_ops(1))
qed

lemma signed_mul: "signed (s \<noteq> t) (q * r) = signed s q * signed t r"
  by (simp add: signed_def)

lemma signed_div: "signed (s \<noteq> t) (q / r) = signed s q / signed t r"
  by (simp add: signed_def)

lemma f64_mul_between:
  assumes "f64_rat a = Some x" "f64_rat b = Some y" "lo \<le> x * y" "x * y \<le> hi" "rep64 lo" "rep64 hi"
  shows "\<exists>z. f64_rat (f64_mul a b) = Some z \<and> lo \<le> z \<and> z \<le> hi"
proof -
  from assms(1,2) obtain s q t r where v: "f64_val a = FNum s q" "x = signed s q" "0 \<le> q"
    "f64_val b = FNum t r" "y = signed t r" "0 \<le> r" by (metis f64_rat_cases)
  then have "f64_val (f64_mul a b) = rnd64 (FNum (s \<noteq> t) (q * r))" by (simp add: f64_val_ops)
  moreover have "lo \<le> signed (s \<noteq> t) (q * r)" "signed (s \<noteq> t) (q * r) \<le> hi"
    using assms(3,4) v by (simp_all only: signed_mul)
  ultimately show ?thesis using v assms(5,6) by (intro rnd64_between) simp_all
qed

lemma f64_div_between:
  assumes "f64_rat a = Some x" "f64_rat b = Some y" "y \<noteq> 0" "lo \<le> x / y" "x / y \<le> hi" "rep64 lo" "rep64 hi"
  shows "\<exists>z. f64_rat (f64_div a b) = Some z \<and> lo \<le> z \<and> z \<le> hi"
proof -
  from assms(1,2) obtain s q t r where v: "f64_val a = FNum s q" "x = signed s q" "0 \<le> q"
    "f64_val b = FNum t r" "y = signed t r" "0 \<le> r" by (metis f64_rat_cases)
  moreover from this have "r \<noteq> 0" using assms(3) by auto
  ultimately have "f64_val (f64_div a b) = rnd64 (FNum (s \<noteq> t) (q / r))" by (simp add: f64_val_ops)
  moreover have "lo \<le> signed (s \<noteq> t) (q / r)" "signed (s \<noteq> t) (q / r) \<le> hi"
    using assms(4,5) v by (simp_all only: signed_div)
  ultimately show ?thesis using v assms(6,7) by (intro rnd64_between) simp_all
qed

text \<open>A representable result is exact.\<close>

lemma f64_exact:
  assumes "f64_rat a = Some x" "f64_rat b = Some y"
  shows "rep64 (x + y) \<Longrightarrow> f64_rat (f64_add a b) = Some (x + y)"
    "rep64 (x - y) \<Longrightarrow> f64_rat (f64_sub a b) = Some (x - y)"
    "rep64 (x * y) \<Longrightarrow> f64_rat (f64_mul a b) = Some (x * y)"
    "y \<noteq> 0 \<Longrightarrow> rep64 (x / y) \<Longrightarrow> f64_rat (f64_div a b) = Some (x / y)"
  using f64_add_between [OF assms, of "x + y" "x + y"] f64_sub_between [OF assms, of "x - y" "x - y"]
    f64_mul_between [OF assms, of "x * y" "x * y"] f64_div_between [OF assms, of "x / y" "x / y"]
  by (metis order_antisym order_refl)+

lemma sqrt_approx_le:
  assumes "0 < q" "q \<le> of_int (h * h)" "0 \<le> h" "0 \<le> sqrt_scale q"
  shows "sqrt_approx q \<le> of_int h"
proof -
  obtain k where k: "sqrt_scale q = int k" using assms(4) by (metis nonneg_int_cases)
  let ?m = "h * 2 ^ k"
  have "of_int ?m / 2 powi sqrt_scale q = (of_int h :: rat)" by (simp add: k power_int_of_nat)
  with sqrt_approx_grid(1) [OF assms(1), of ?m] assms(3) have "of_int h < sqrt_approx q \<longleftrightarrow> of_int h * of_int h < q"
    by (simp only: mult_nonneg_nonneg zero_le_power zero_le_numeral)
  with assms(2) show ?thesis by simp
qed

lemma sqrt_approx_nonneg: "0 \<le> sqrt_approx q"
proof -
  have "0 \<le> isqrt n" for n :: int by (cases "0 \<le> n") (use isqrt_correct [of n] in \<open>auto simp: isqrt.simps\<close>)
  then show ?thesis by (auto simp: sqrt_approx_def Let_def)
qed

lemma f64_sqrt_between:
  assumes "f64_rat a = Some x" "0 \<le> x" "x \<le> of_int (h * h)" "0 \<le> h" "h < 2 ^ 53"
  shows "\<exists>z. f64_rat (f64_sqrt a) = Some z \<and> 0 \<le> z \<and> z \<le> of_int h"
proof -
  from assms(1) obtain s q where v: "f64_val a = FNum s q" "x = signed s q" "0 \<le> q" by (rule f64_rat_cases)
  have rep: "rep64 0" "rep64 (of_int h)" using assms(4,5) rep64_int [of h] rep64_numeral(1) by simp_all
  show ?thesis
  proof (cases "q = 0")
    case True
    then have "f64_val (f64_sqrt a) = rnd64 (FNum s 0)" using v by (simp add: f64_val_ops)
    then show ?thesis using rnd64_between [of "f64_sqrt a" s 0 0 "of_int h"] rep assms(4) by simp
  next
    case False
    with v assms(2) have q: "\<not> s" "x = q" "0 < q" by (auto simp: signed_def split: if_splits)
    have "h * h < 2 ^ 53 * 2 ^ 53" using assms(4,5) by (intro mult_strict_mono) simp_all
    then have "(of_int (h * h) :: rat) < of_int (2 ^ 53 * 2 ^ 53)" by (simp only: of_int_less_iff)
    then have "(2 :: rat) powi ilog2 q < 2 powi 106" using ilog2_bounds(1) [OF q(3)] assms(3) q(2) by simp
    then have "ilog2 q < 106" by (rule pow2_less)
    then have "0 \<le> sqrt_scale q" by (simp add: sqrt_scale_def)
    from sqrt_approx_le [OF q(3) _ assms(4) this] have "sqrt_approx q \<le> of_int h" using assms(3) q(2) by simp
    moreover have "f64_val (f64_sqrt a) = rnd64 (FNum False (sqrt_approx q))"
      using v q False by (simp add: f64_val_ops)
    ultimately show ?thesis
      using rnd64_between [of "f64_sqrt a" False "sqrt_approx q" 0 "of_int h"] rep sqrt_approx_nonneg by simp
  qed
qed

section \<open>Code equations on integers\<close>

text \<open>Rounding by integer arithmetic only, for evaluation.\<close>

lemma powi2_cases:
  "0 \<le> e \<Longrightarrow> (2 :: rat) powi e = of_int (2 ^ nat e)" "e < 0 \<Longrightarrow> (2 :: rat) powi e = 1 / of_int (2 ^ nat (- e))"
  by (simp_all add: power_int_def power_one_over)

lemma ilog2_code [code]:
  "ilog2 q =
     (let (n, d) = quotient_of q; e = int_len n - int_len d
      in if (if 0 \<le> e then 2 ^ nat e * d \<le> n else d \<le> n * 2 ^ nat (- e)) then e else e - 1)"
proof -
  obtain n d where nd: "quotient_of q = (n, d)" by force
  have d: "(0 :: rat) < of_int d" using quotient_of_denom_pos [OF nd] by simp
  have q: "q = of_int n / of_int d" using quotient_of_div [OF nd] .
  have "2 powi e \<le> q \<longleftrightarrow> (if 0 \<le> e then 2 ^ nat e * d \<le> n else d \<le> n * 2 ^ nat (- e))" for e
  proof (cases "0 \<le> e")
    case True
    have "2 powi e \<le> q \<longleftrightarrow> (of_int (2 ^ nat e * d) :: rat) \<le> of_int n"
      using d by (simp add: powi2_cases(1) [OF True] q pos_le_divide_eq)
    then show ?thesis using True by (simp only: of_int_le_iff if_True)
  next
    case False
    have "(0 :: rat) < of_int (2 ^ nat (- e))" by simp
    then have "2 powi e \<le> q \<longleftrightarrow> (of_int d :: rat) \<le> of_int (n * 2 ^ nat (- e))"
      using d False by (simp add: powi2_cases(2) q pos_le_divide_eq pos_divide_le_eq mult.commute)
    then show ?thesis using False by (simp only: of_int_le_iff if_False)
  qed
  then show ?thesis by (simp add: ilog2_def nd Let_def)
qed

definition round_quotient :: "int \<Rightarrow> int \<Rightarrow> int" where
  "round_quotient n d =
     (let f = n div d; r = 2 * (n mod d)
      in if r < d then f else if d < r then f + 1 else if even f then f else f + 1)"

lemma round_quotient: 
  assumes "0 < d"
  shows "round_half_even (of_int n / of_int d) = round_quotient n d"
proof -
  have d: "(0 :: rat) < of_int d" using assms by simp
  have f: "\<lfloor>of_int n / (of_int d :: rat)\<rfloor> = n div d" by (rule floor_divide_of_int_eq)
  have "(of_int n :: rat) = of_int (n div d * d + n mod d)" by simp
  then have "(of_int n :: rat) = of_int (n div d) * of_int d + of_int (n mod d)" by (simp only: of_int_add of_int_mult)
  then have r: "of_int n / of_int d - of_int (n div d) = (of_int (n mod d) / of_int d :: rat)"
    using d by (simp add: field_simps)
  have "of_int (n mod d) / of_int d < (1 / 2 :: rat) \<longleftrightarrow> of_int (2 * (n mod d)) < (of_int d :: rat)"
    "1 / 2 < (of_int (n mod d) / of_int d :: rat) \<longleftrightarrow> (of_int d :: rat) < of_int (2 * (n mod d))"
    using d by (auto simp: field_simps)
  then show ?thesis
    unfolding round_half_even_def round_quotient_def Let_def f r of_int_less_iff by simp
qed

lemma round_sig_code [code]:
  "round_sig F q =
     (let (n, d) = quotient_of q; s = round_exp F q - int (mant F)
      in if 0 \<le> s then round_quotient n (d * 2 ^ nat s) else round_quotient (n * 2 ^ nat (- s)) d)"
proof -
  obtain n d where nd: "quotient_of q = (n, d)" by force
  have d: "0 < d" using quotient_of_denom_pos [OF nd] .
  have q: "q = of_int n / of_int d" using quotient_of_div [OF nd] .
  define s where "s = round_exp F q - int (mant F)"
  have "q / 2 powi s = of_int n / of_int (d * 2 ^ nat s)" if "0 \<le> s"
    using that by (simp add: powi2_cases(1) q)
  moreover have "q / 2 powi s = of_int (n * 2 ^ nat (- s)) / of_int d" if "\<not> 0 \<le> s"
    using that by (simp add: powi2_cases(2) q)
  moreover have "round_sig F q = round_half_even (q / 2 powi s)" by (simp only: round_sig_def s_def)
  ultimately have "round_sig F q =
      (if 0 \<le> s then round_quotient n (d * 2 ^ nat s) else round_quotient (n * 2 ^ nat (- s)) d)"
    using d round_quotient [of "d * 2 ^ nat s" n] round_quotient [of d "n * 2 ^ nat (- s)"] by (cases "0 \<le> s") simp_all
  then show ?thesis by (simp only: nd Let_def split s_def)
qed

lemma mag_val_code [code]:
  "mag_val F b =
     (let e = b div 2 ^ mant F; f = b mod 2 ^ mant F;
          k = (if e = 0 then f else 2 ^ mant F + f);
          s = (if e = 0 then emin F - int (mant F) else e - 1 + emin F - int (mant F))
      in if 0 \<le> s then of_int (k * 2 ^ nat s) else of_int k / of_int (2 ^ nat (- s)))"
  by (simp add: mag_val_def Let_def powi2_cases)

section \<open>Integer bounds\<close>

definition bounded64 :: "int \<Rightarrow> int \<Rightarrow> f64 \<Rightarrow> bool" where
  "bounded64 lo hi x \<longleftrightarrow> (\<exists>r. f64_rat x = Some r \<and> of_int lo \<le> r \<and> r \<le> of_int hi)"

lemma bounded64I: "f64_rat x = Some r \<Longrightarrow> of_int lo \<le> r \<Longrightarrow> r \<le> of_int hi \<Longrightarrow> bounded64 lo hi x"
  by (auto simp: bounded64_def)

lemma bounded64_add:
  assumes "bounded64 l h x" "bounded64 l' h' y" "\<bar>l + l'\<bar> < 2 ^ 53" "\<bar>h + h'\<bar> < 2 ^ 53"
  shows "bounded64 (l + l') (h + h') (f64_add x y)"
proof -
  from assms(1,2) obtain a b where ab: "f64_rat x = Some a" "of_int l \<le> a" "a \<le> of_int h"
    "f64_rat y = Some b" "of_int l' \<le> b" "b \<le> of_int h'" by (auto simp: bounded64_def)
  show ?thesis unfolding bounded64_def
    by (rule f64_add_between [OF ab(1,4) _ _ rep64_int [OF assms(3)] rep64_int [OF assms(4)]]) (use ab in simp_all)
qed

lemma bounded64_sub:
  assumes "bounded64 l h x" "bounded64 l' h' y" "\<bar>l - h'\<bar> < 2 ^ 53" "\<bar>h - l'\<bar> < 2 ^ 53"
  shows "bounded64 (l - h') (h - l') (f64_sub x y)"
proof -
  from assms(1,2) obtain a b where ab: "f64_rat x = Some a" "of_int l \<le> a" "a \<le> of_int h"
    "f64_rat y = Some b" "of_int l' \<le> b" "b \<le> of_int h'" by (auto simp: bounded64_def)
  show ?thesis unfolding bounded64_def
    by (rule f64_sub_between [OF ab(1,4) _ _ rep64_int [OF assms(3)] rep64_int [OF assms(4)]]) (use ab in simp_all)
qed

text \<open>A product with a known factor, and one with a bound on the magnitude.\<close>

lemma bounded64_scale:
  assumes "bounded64 0 h x" "f64_rat y = Some c" "0 \<le> c" "of_int h * c \<le> of_int k" "0 \<le> k" "k < 2 ^ 53"
  shows "bounded64 0 k (f64_mul x y)" "bounded64 0 k (f64_mul y x)"
proof -
  from assms(1) obtain a where a: "f64_rat x = Some a" "0 \<le> a" "a \<le> of_int h" by (auto simp: bounded64_def)
  have "a * c \<le> of_int h * c" using a(3) assms(3) by (rule mult_right_mono)
  then have m: "a * c \<le> of_int k" "0 \<le> a * c" using assms(4) a(2) assms(3) by simp_all
  have r: "rep64 (of_int 0)" "rep64 (of_int k)" using assms(5,6) by (simp_all only: rep64_int abs_of_nonneg zero_less_power abs_zero)
  show "bounded64 0 k (f64_mul x y)" unfolding bounded64_def
    by (rule f64_mul_between [OF a(1) assms(2) _ _ r]) (use m in simp_all)
  show "bounded64 0 k (f64_mul y x)" unfolding bounded64_def
    by (rule f64_mul_between [OF assms(2) a(1) _ _ r]) (use m in \<open>simp_all add: mult.commute\<close>)
qed

lemma bounded64_mul_between:
  assumes "bounded64 l h x" "f64_rat y = Some c" "0 \<le> c" "of_int k \<le> of_int l * c" "of_int h * c \<le> of_int m"
    "\<bar>k\<bar> < 2 ^ 53" "\<bar>m\<bar> < 2 ^ 53"
  shows "bounded64 k m (f64_mul x y)"
proof -
  from assms(1) obtain a where a: "f64_rat x = Some a" "of_int l \<le> a" "a \<le> of_int h" by (auto simp: bounded64_def)
  have "of_int l * c \<le> a * c" "a * c \<le> of_int h * c" using a(2,3) assms(3) by (simp_all add: mult_right_mono)
  then have m: "of_int k \<le> a * c" "a * c \<le> of_int m" using assms(4,5) by linarith+
  show ?thesis unfolding bounded64_def
    by (rule f64_mul_between [OF a(1) assms(2) m rep64_int [OF assms(6)] rep64_int [OF assms(7)]])
qed

lemma bounded64_mul:
  assumes "bounded64 (- h) h x" "bounded64 (- k) k y" "0 \<le> h" "0 \<le> k" "h * k < 2 ^ 53"
  shows "bounded64 (- (h * k)) (h * k) (f64_mul x y)"
proof -
  from assms(1,2) obtain a b where ab: "f64_rat x = Some a" "\<bar>a\<bar> \<le> of_int h" "f64_rat y = Some b" "\<bar>b\<bar> \<le> of_int k"
    by (auto simp: bounded64_def abs_le_iff)
  have "\<bar>a\<bar> * \<bar>b\<bar> \<le> of_int h * of_int k" using ab(2,4) assms(3) by (intro mult_mono) simp_all
  then have m: "a * b \<le> of_int (h * k)" "of_int (- (h * k)) \<le> a * b"
    by (simp_all flip: abs_mult add: abs_le_iff)
  have "0 \<le> h * k" using assms(3,4) by simp
  then have r: "rep64 (of_int (- (h * k)))" "rep64 (of_int (h * k))" using assms(5) by (simp_all only: rep64_int abs_minus_cancel abs_of_nonneg)
  show ?thesis unfolding bounded64_def by (rule f64_mul_between [OF ab(1,3) m(2,1) r])
qed

lemma bounded64_div:
  assumes "bounded64 (- h) h x" "f64_rat y = Some c" "1 \<le> c" "0 \<le> h" "h < 2 ^ 53"
  shows "bounded64 (- h) h (f64_div x y)"
proof -
  from assms(1) obtain a where a: "f64_rat x = Some a" "\<bar>a\<bar> \<le> of_int h" by (auto simp: bounded64_def abs_le_iff)
  have "\<bar>a / c\<bar> \<le> \<bar>a\<bar> / 1" unfolding abs_divide using assms(3) by (intro divide_left_mono) simp_all
  then have "\<bar>a / c\<bar> \<le> of_int h" using a(2) by linarith
  then have m: "a / c \<le> of_int h" "of_int (- h) \<le> a / c" by linarith+
  have r: "rep64 (of_int (- h))" "rep64 (of_int h)"
    using assms(4,5) by (simp_all only: rep64_int abs_minus_cancel abs_of_nonneg)
  show ?thesis unfolding bounded64_def
    by (rule f64_div_between [OF a(1) assms(2) _ m(2,1) r]) (use assms(3) in simp)
qed

lemma bounded64_sqrt:
  assumes "bounded64 0 k x" "k \<le> h * h" "0 \<le> h" "h < 2 ^ 53"
  shows "bounded64 0 h (f64_sqrt x)"
proof -
  from assms(1) obtain a where a: "f64_rat x = Some a" "0 \<le> a" "a \<le> of_int k" by (auto simp: bounded64_def)
  have "(of_int k :: rat) \<le> of_int (h * h)" using assms(2) by (simp only: of_int_le_iff)
  with f64_sqrt_between [OF a(1,2) _ assms(3,4)] a(3) show ?thesis by (auto simp: bounded64_def)
qed

lemma bounded64_weaken: "bounded64 l h x \<Longrightarrow> l' \<le> l \<Longrightarrow> h \<le> h' \<Longrightarrow> bounded64 l' h' x"
  unfolding bounded64_def by (meson of_int_le_iff order_trans)

lemma bounded64_not_nan: "bounded64 l h x \<Longrightarrow> \<not> f64_is_nan x"
  by (auto simp: bounded64_def dest: f64_rat_not_nan)

lemma bounded64_max: "bounded64 l h x \<Longrightarrow> bounded64 l' h' y \<Longrightarrow> bounded64 (max l l') (max h h') (f64_max x y)"
  by (auto simp: bounded64_def f64_rat_max of_int_max max.coboundedI1 max.coboundedI2)

lemma bounded64_cond: "bounded64 l h x \<Longrightarrow> bounded64 l h y \<Longrightarrow> bounded64 l h (if b then x else y)"
  by simp

lemma bounded64_lit: "\<bar>n\<bar> < 2 ^ 53 \<Longrightarrow> l \<le> n \<Longrightarrow> n \<le> h \<Longrightarrow> bounded64 l h (f64_lit (of_int n))"
  by (rule bounded64I [OF f64_rat_int(1)]) simp_all

lemma bounded64_mul_nonneg:
  assumes "bounded64 0 h x" "bounded64 l k y" "l \<le> 0" "0 \<le> k" "0 \<le> h" "\<bar>h * l\<bar> < 2 ^ 53" "\<bar>h * k\<bar> < 2 ^ 53"
  shows "bounded64 (h * l) (h * k) (f64_mul x y)"
proof -
  from assms(1,2) obtain a b where ab: "f64_rat x = Some a" "0 \<le> a" "a \<le> of_int h"
    "f64_rat y = Some b" "of_int l \<le> b" "b \<le> of_int k" by (auto simp: bounded64_def)
  have "a * b \<le> a * of_int k" "a * of_int l \<le> a * b" using ab by (simp_all add: mult_left_mono)
  moreover have "a * of_int k \<le> of_int h * of_int k" "of_int h * of_int l \<le> a * of_int l"
    using ab(3) assms(3,4) by (simp_all add: mult_right_mono mult_right_mono_neg)
  ultimately have m: "of_int (h * l) \<le> a * b" "a * b \<le> of_int (h * k)" by simp_all
  show ?thesis unfolding bounded64_def
    by (rule f64_mul_between [OF ab(1,4) m rep64_int [OF assms(6)] rep64_int [OF assms(7)]])
qed

lemma bounded64_div_between:
  assumes "bounded64 l h x" "f64_rat y = Some (of_int c)" "0 < c" "k * c \<le> l" "h \<le> m * c" "\<bar>k\<bar> < 2 ^ 53" "\<bar>m\<bar> < 2 ^ 53"
  shows "bounded64 k m (f64_div x y)"
proof -
  from assms(1) obtain a where a: "f64_rat x = Some a" "of_int l \<le> a" "a \<le> of_int h" by (auto simp: bounded64_def)
  have "(of_int (k * c) :: rat) \<le> of_int l" "(of_int h :: rat) \<le> of_int (m * c)" using assms(4,5) by (simp_all only: of_int_le_iff)
  then have m: "of_int k \<le> a / of_int c" "a / of_int c \<le> of_int m"
    using a assms(3) by (simp_all add: pos_le_divide_eq pos_divide_le_eq)
  show ?thesis unfolding bounded64_def
    by (rule f64_div_between [OF a(1) assms(2) _ m rep64_int [OF assms(6)] rep64_int [OF assms(7)]]) (use assms(3) in simp)
qed

section \<open>Rounding to an integer\<close>

lemma truncate_rat_int [simp]: "truncate_rat (of_int n) = n"
  by (simp add: truncate_rat_def)

lemma f64_to_i64_rat:
  "f64_rat x = Some r \<Longrightarrow> f64_to_i64 x = max (- (2 ^ 63)) (min (2 ^ 63 - 1) (truncate_rat r))"
  by (erule f64_rat_cases) (simp add: f64_to_i64_def)


lemma round_half_away_mono:
  "of_int n \<le> x \<Longrightarrow> n \<le> round_half_away x" "x \<le> of_int n \<Longrightarrow> round_half_away x \<le> n"
  by (auto simp: round_half_away_def le_floor_iff floor_le_iff) linarith+

text \<open>Rounding a double to the nearest integer and casting it respects integer bounds.\<close>

lemma f64_round_i64:
  assumes "f64_rat x = Some r" "of_int l \<le> r" "r \<le> of_int h" "\<bar>l\<bar> < 2 ^ 53" "\<bar>h\<bar> < 2 ^ 53"
  shows "f64_to_i64 (f64_round x) = round_half_away r"
proof -
  from assms(1) obtain s q where v: "f64_val x = FNum s q" "r = signed s q" "0 \<le> q" by (rule f64_rat_cases)
  let ?n = "round_half_away r"
  have n: "l \<le> ?n" "?n \<le> h" using assms(2,3) by (simp_all add: round_half_away_mono)
  then have b: "\<bar>?n\<bar> < 2 ^ 53" using assms(4,5) by linarith
  have "s \<Longrightarrow> ?n \<le> 0" "\<not> s \<Longrightarrow> 0 \<le> ?n"
    using v(2,3) round_half_away_mono(1) [of 0 r] round_half_away_mono(2) [of r 0] by simp_all
  then have "signed s \<bar>of_int ?n\<bar> = (of_int ?n :: rat)" by (simp add: signed_def)
  moreover have "f64_val (f64_round x) = rnd64 (FNum s \<bar>of_int ?n\<bar>)" by (simp add: f64_val_ops v)
  ultimately have "\<exists>z. f64_rat (f64_round x) = Some z \<and> of_int ?n \<le> z \<and> z \<le> of_int ?n"
    using rnd64_between [of "f64_round x" s "\<bar>of_int ?n\<bar>" "of_int ?n" "of_int ?n"] rep64_int [OF b] by simp
  then have "f64_rat (f64_round x) = Some (of_int ?n)" by (metis order_antisym)
  then show ?thesis using f64_to_i64_rat [of "f64_round x" "of_int ?n"] b by simp
qed

lemma f64_round_i64_bounds:
  assumes "bounded64 l h x" "\<bar>l\<bar> < 2 ^ 53" "\<bar>h\<bar> < 2 ^ 53"
  shows "l \<le> f64_to_i64 (f64_round x)" "f64_to_i64 (f64_round x) \<le> h"
proof -
  from assms(1) obtain r where r: "f64_rat x = Some r" "of_int l \<le> r" "r \<le> of_int h" by (auto simp: bounded64_def)
  then show "l \<le> f64_to_i64 (f64_round x)" "f64_to_i64 (f64_round x) \<le> h"
    by (simp_all add: f64_round_i64 [OF r assms(2,3)] round_half_away_mono)
qed

end
