(* ===== verification/Gcc_Estimator.thy ===== *)
theory Gcc_Estimator
  imports Double_Order
begin

text \<open>
  The Google congestion control of \<^verbatim>\<open>examples/lib/gcc_nada_estimator.rs\<close>: inter-arrival grouping, the trendline
  over-use detector, the link capacity estimator, the AIMD rate controller, the received-bitrate
  estimator, and \<^verbatim>\<open>GccBandwidthEstimator\<close>, which feeds every received frame through them. Fields and
  functions keep the source's names without their trailing underscore. Floating-point values are
  their bit patterns with the operations of \<^verbatim>\<open>Floats\<close> in the source's order of evaluation; integer
  arithmetic wraps. \<^verbatim>\<open>powf\<close> of the mathematical library is a parameter. Debug printing is left out.
\<close>

section \<open>Constants\<close>

definition GCC_WINDOW_SIZE :: nat where
  "GCC_WINDOW_SIZE = 20"

definition MAX_MBPS_LADDER :: f32 where
  "MAX_MBPS_LADDER = f32_lit 100"

definition GCC_MIN_CONFIGURED_BITRATE :: f64 where
  "GCC_MIN_CONFIGURED_BITRATE = f64_mul (f64_mul (f64_lit 10) (f64_lit 1000)) (f64_lit 1000)"

definition GCC_MAX_CONFIGURED_BITRATE :: f64 where
  "GCC_MAX_CONFIGURED_BITRATE = f64_mul (f64_mul (f64_of_f32 MAX_MBPS_LADDER) (f64_lit 1000)) (f64_lit 1000)"

definition GCC_INIT_CONFIGURED_BITRATE :: f64 where
  "GCC_INIT_CONFIGURED_BITRATE = GCC_MAX_CONFIGURED_BITRATE"

definition GCC_INCREASE_COEF_ALPHA :: f64 where
  "GCC_INCREASE_COEF_ALPHA = f64_lit (27 / 25)"

definition GCC_DECREASE_COEF_BETA :: f64 where
  "GCC_DECREASE_COEF_BETA = f64_lit (17 / 20)"

definition GCC_DEFAULT_RTT :: i64 where
  "GCC_DEFAULT_RTT = 200"

definition GCC_BITRATE_ESTIMATOR_INIT_WINDOW_MS :: i64 where
  "GCC_BITRATE_ESTIMATOR_INIT_WINDOW_MS = 350"

definition GCC_BITRATE_ESTIMATOR_NONINIT_WINDOW_MS :: i64 where
  "GCC_BITRATE_ESTIMATOR_NONINIT_WINDOW_MS = 250"

section \<open>Inter-arrival times\<close>

record timestamp_group =
  tg_size :: nat
  first_timestamp :: i64
  timestamp :: i64
  first_arrival_ms :: i64
  complete_time_ms :: i64
  last_system_time_ms :: i64

definition TimestampGroup_default :: timestamp_group where
  "TimestampGroup_default = \<lparr>tg_size = 0, first_timestamp = 0, timestamp = 0, first_arrival_ms = - 1,
     complete_time_ms = - 1, last_system_time_ms = - 1\<rparr>"

record inter_arrival =
  kReorderedResetThreshold :: int
  kArrivalTimeOffsetThresholdMs :: i64
  kTimestampGroupLengthTicks :: int
  current_timestamp_group :: timestamp_group
  prev_timestamp_group :: timestamp_group
  timestamp_to_ms_coeff :: f64
  num_consecutive_reordered_packets :: i64

definition InterArrival_new :: "int \<Rightarrow> f64 \<Rightarrow> inter_arrival" where
  "InterArrival_new timestamp_group_length_ticks coeff =
     \<lparr>kReorderedResetThreshold = 3, kArrivalTimeOffsetThresholdMs = 3000,
      kTimestampGroupLengthTicks = timestamp_group_length_ticks,
      current_timestamp_group = TimestampGroup_default, prev_timestamp_group = TimestampGroup_default,
      timestamp_to_ms_coeff = coeff, num_consecutive_reordered_packets = 0\<rparr>"

definition InterArrival_Reset :: "inter_arrival \<Rightarrow> inter_arrival" where
  "InterArrival_Reset s = s\<lparr>num_consecutive_reordered_packets := 0,
     current_timestamp_group := TimestampGroup_default, prev_timestamp_group := TimestampGroup_default\<rparr>"

definition PacketInOrder :: "inter_arrival \<Rightarrow> i64 \<Rightarrow> bool" where
  "PacketInOrder s ts =
     (if complete_time_ms (current_timestamp_group s) = - 1 then True
      else i64_sub ts (first_timestamp (current_timestamp_group s)) < 0x80000000)"

definition BelongsToBurst :: "inter_arrival \<Rightarrow> i64 \<Rightarrow> i64 \<Rightarrow> bool" where
  "BelongsToBurst s arrival_time_ms ts = False"

definition NewTimestampGroup :: "inter_arrival \<Rightarrow> i64 \<Rightarrow> i64 \<Rightarrow> bool" where
  "NewTimestampGroup s arrival_time_ms ts =
     (if complete_time_ms (current_timestamp_group s) = - 1 then False
      else if BelongsToBurst s arrival_time_ms ts then False
      else kTimestampGroupLengthTicks s < i64_sub ts (first_timestamp (current_timestamp_group s)))"

text \<open>The three deltas are out-parameters: the call leaves in them what it wrote before returning.\<close>

record deltas =
  timestamp_delta :: i64
  arrival_time_delta_ms :: i64
  packet_size_delta :: i64

definition accumulate_frame_size :: "i64 \<Rightarrow> i64 \<Rightarrow> nat \<Rightarrow> timestamp_group \<Rightarrow> timestamp_group" where
  "accumulate_frame_size arrival system_time packet_size g =
     g\<lparr>tg_size := (tg_size g + packet_size) mod 2 ^ 64, complete_time_ms := arrival,
       last_system_time_ms := system_time\<rparr>"

definition ComputeDeltas ::
  "i64 \<Rightarrow> i64 \<Rightarrow> i64 \<Rightarrow> nat \<Rightarrow> inter_arrival \<Rightarrow> deltas \<Rightarrow> bool \<times> inter_arrival \<times> deltas" where
  "ComputeDeltas ts arrival system_time packet_size s d =
     (let cur = current_timestamp_group s; prev = prev_timestamp_group s;
          finish = (\<lambda>calculated g s d.
            (calculated, s\<lparr>current_timestamp_group := accumulate_frame_size arrival system_time packet_size g\<rparr>, d));
          shift = (\<lambda>calculated s d.
            finish calculated
              (cur\<lparr>first_timestamp := ts, timestamp := ts, first_arrival_ms := arrival, tg_size := 0\<rparr>)
              (s\<lparr>prev_timestamp_group := cur\<rparr>) d)
      in if complete_time_ms cur = - 1 then
           finish False (cur\<lparr>timestamp := ts, first_timestamp := ts, first_arrival_ms := arrival\<rparr>) s d
         else if \<not> PacketInOrder s ts then (False, s, d)
         else if NewTimestampGroup s arrival ts then
           (if 0 \<le> complete_time_ms prev then
              (let d = d\<lparr>timestamp_delta := i64_sub (timestamp cur) (timestamp prev),
                         arrival_time_delta_ms := i64_sub (complete_time_ms cur) (complete_time_ms prev)\<rparr>;
                   system_time_delta_ms = i64_sub (last_system_time_ms cur) (last_system_time_ms prev)
               in if kArrivalTimeOffsetThresholdMs s \<le> i64_sub (arrival_time_delta_ms d) system_time_delta_ms then
                    (False, InterArrival_Reset s, d)
                  else if arrival_time_delta_ms d < 0 then
                    (let s = s\<lparr>num_consecutive_reordered_packets :=
                                i64_add (num_consecutive_reordered_packets s) 1\<rparr>
                     in (False,
                         if kReorderedResetThreshold s \<le> num_consecutive_reordered_packets s
                         then InterArrival_Reset s else s,
                         d))
                  else
                    shift True (s\<lparr>num_consecutive_reordered_packets := 0\<rparr>)
                      (d\<lparr>packet_size_delta :=
                          i64_sub (i64_of_usize (tg_size cur)) (i64_of_usize (tg_size prev))\<rparr>))
            else shift False s d)
         else
           finish False (if timestamp cur < ts then cur\<lparr>timestamp := ts\<rparr> else cur) s d)"

section \<open>The trendline estimator\<close>

datatype bandwidth_usage = kBwNormal | kBwUnderusing | kBwOverusing | kLast

record packet_timing =
  arrival_time_ms :: f64
  smoothed_delay_ms :: f64
  raw_delay_ms :: f64

definition PacketTiming_new :: "f64 \<Rightarrow> f64 \<Rightarrow> f64 \<Rightarrow> packet_timing" where
  "PacketTiming_new a s r = \<lparr>arrival_time_ms = a, smoothed_delay_ms = s, raw_delay_ms = r\<rparr>"

definition LinearFitSlope :: "packet_timing list \<Rightarrow> f64 option" where
  "LinearFitSlope packets =
     (if 2 < length packets then
        (let (sum_x, sum_y) =
               fold (\<lambda>p (sx, sy). (f64_add sx (arrival_time_ms p), f64_add sy (smoothed_delay_ms p)))
                 packets (f64_lit 0, f64_lit 0);
             x_avg = f64_div sum_x (f64_of_nat (length packets));
             y_avg = f64_div sum_y (f64_of_nat (length packets));
             (numerator, denominator) =
               fold (\<lambda>p (num, den).
                 (let x = arrival_time_ms p; y = smoothed_delay_ms p
                  in (f64_add num (f64_mul (f64_sub x x_avg) (f64_sub y y_avg)),
                      f64_add den (f64_mul (f64_sub x x_avg) (f64_sub x x_avg)))))
                 packets (f64_lit 0, f64_lit 0)
         in if f64_eq denominator (f64_lit 0) then None else Some (f64_div numerator denominator))
      else None)"

record trendline_estimator =
  smoothing_coef :: f64
  threshold_gain :: f64
  num_of_deltas :: i64
  first_arrival_time_ms :: i64
  accumulated_delay :: f64
  smoothed_delay :: f64
  k_up :: f64
  k_down :: f64
  overusing_time_threshold :: f64
  threshold :: f64
  prev_modified_trend :: f64
  last_update_ms :: i64
  prev_trend :: f64
  time_over_using :: f64
  overuse_counter :: i64
  hypothesis :: bandwidth_usage
  hypothesis_predicted :: bandwidth_usage
  delay_hist :: "packet_timing list"
  current_trend_for_testing :: f64
  current_threshold_for_testing :: f64

definition TrendlineEstimator_new :: trendline_estimator where
  "TrendlineEstimator_new =
     \<lparr>smoothing_coef = f64_lit (9 / 10), threshold_gain = f64_lit 4, num_of_deltas = 0,
      first_arrival_time_ms = - 1, accumulated_delay = f64_lit 0, smoothed_delay = f64_lit 0,
      k_up = f64_lit (87 / 10000), k_down = f64_lit (39 / 1000), overusing_time_threshold = f64_lit 10,
      threshold = f64_lit (25 / 2), prev_modified_trend = f64_nan, last_update_ms = - 1,
      prev_trend = f64_lit 0, time_over_using = f64_neg (f64_lit 1), overuse_counter = 0,
      hypothesis = kBwNormal, hypothesis_predicted = kBwNormal, delay_hist = [],
      current_trend_for_testing = f64_lit 0, current_threshold_for_testing = f64_lit 0\<rparr>"

definition clamp_threshold :: "f64 \<Rightarrow> f64" where
  "clamp_threshold thr =
     (if f64_less (f64_lit 600) thr then f64_lit 600
      else if f64_less thr (f64_lit 6) then f64_lit 6 else thr)"

definition UpdateThreshold :: "f64 \<Rightarrow> i64 \<Rightarrow> trendline_estimator \<Rightarrow> trendline_estimator" where
  "UpdateThreshold modified_trend now_ms t =
     (let t = (if last_update_ms t = - 1 then t\<lparr>last_update_ms := now_ms\<rparr> else t)
      in if f64_less (f64_add (threshold t) (f64_lit 15)) (f64_abs modified_trend) then
           t\<lparr>last_update_ms := now_ms\<rparr>
         else
           (let k = (if f64_less (f64_abs modified_trend) (threshold t) then k_down t else k_up t);
                time_delta_ms = min (i64_sub now_ms (last_update_ms t)) 100;
                thr = f64_add (threshold t)
                  (f64_mul (f64_mul k (f64_sub (f64_abs modified_trend) (threshold t)))
                    (f64_of_i64 time_delta_ms))
            in t\<lparr>threshold := clamp_threshold thr, last_update_ms := now_ms\<rparr>))"

text \<open>The comparison of the modified trend with the threshold: the timer and counter of over-use, and the
  hypothesis.\<close>

definition compare_trend :: "f64 \<Rightarrow> f64 \<Rightarrow> f64 \<Rightarrow> trendline_estimator \<Rightarrow> trendline_estimator" where
  "compare_trend modified_trend trend ts_delta t =
     (if f64_less (threshold t) modified_trend then
        (let t = t\<lparr>time_over_using :=
               if f64_eq (time_over_using t) (f64_neg (f64_lit 1)) then f64_div ts_delta (f64_lit 2)
               else f64_add (time_over_using t) ts_delta,
             overuse_counter := i64_add (overuse_counter t) 1\<rparr>
         in if f64_less (overusing_time_threshold t) (time_over_using t) \<and> 1 < overuse_counter t then
              if f64_le (prev_trend t) trend
              then t\<lparr>time_over_using := f64_lit 0, overuse_counter := 0, hypothesis := kBwOverusing\<rparr>
              else t
            else t)
      else if f64_less modified_trend (f64_neg (threshold t)) then
        t\<lparr>time_over_using := f64_neg (f64_lit 1), overuse_counter := 0, hypothesis := kBwUnderusing\<rparr>
      else
        t\<lparr>time_over_using := f64_neg (f64_lit 1), overuse_counter := 0, hypothesis := kBwNormal\<rparr>)"

definition Detect :: "f64 \<Rightarrow> f64 \<Rightarrow> i64 \<Rightarrow> trendline_estimator \<Rightarrow> trendline_estimator" where
  "Detect trend ts_delta now_ms t =
     (if num_of_deltas t < 2 then t\<lparr>hypothesis := kBwNormal\<rparr>
      else
        (let modified_trend = f64_mul (f64_mul (f64_of_i64 (min (num_of_deltas t) 60)) trend) (threshold_gain t);
             t = t\<lparr>prev_modified_trend := modified_trend\<rparr>;
             t = compare_trend modified_trend trend ts_delta t;
             t = t\<lparr>current_threshold_for_testing := threshold t, current_trend_for_testing := modified_trend,
                   prev_trend := trend\<rparr>
         in UpdateThreshold modified_trend now_ms t))"

text \<open>A sample enters the exponential filter and the window.\<close>

definition record_delay :: "f64 \<Rightarrow> i64 \<Rightarrow> trendline_estimator \<Rightarrow> trendline_estimator" where
  "record_delay delta_ms arrival t =
     (let t = t\<lparr>num_of_deltas := min (i64_add (num_of_deltas t) 1) 1000\<rparr>;
          t = (if first_arrival_time_ms t = - 1 then t\<lparr>first_arrival_time_ms := arrival\<rparr> else t);
          t = t\<lparr>accumulated_delay := f64_add (accumulated_delay t) delta_ms\<rparr>;
          t = t\<lparr>smoothed_delay :=
                  f64_add (f64_mul (smoothing_coef t) (smoothed_delay t))
                    (f64_mul (f64_sub (f64_lit 1) (smoothing_coef t)) (accumulated_delay t))\<rparr>;
          hist = delay_hist t @
            [PacketTiming_new (f64_of_i64 (i64_sub arrival (first_arrival_time_ms t))) (smoothed_delay t)
               (accumulated_delay t)]
      in t\<lparr>delay_hist := if GCC_WINDOW_SIZE < length hist then tl hist else hist\<rparr>)"

definition fit_trend :: "trendline_estimator \<Rightarrow> f64" where
  "fit_trend t =
     (if length (delay_hist t) = GCC_WINDOW_SIZE
      then (case LinearFitSlope (delay_hist t) of None \<Rightarrow> prev_trend t | Some k \<Rightarrow> k)
      else prev_trend t)"

definition UpdateTrendline ::
  "f64 \<Rightarrow> f64 \<Rightarrow> i64 \<Rightarrow> i64 \<Rightarrow> i64 \<Rightarrow> trendline_estimator \<Rightarrow> trendline_estimator" where
  "UpdateTrendline recv_delta_ms send_delta_ms send_time_ms arrival packet_size t =
     (let delta_ms = f64_sub recv_delta_ms send_delta_ms;
          t = record_delay delta_ms arrival t
      in Detect (fit_trend t) send_delta_ms arrival t)"

section \<open>The link capacity estimator\<close>

record link_capacity_estimator =
  estimate_kbps :: "f64 option"
  deviation_kbps :: f64

definition LinkCapacityEstimator_new :: link_capacity_estimator where
  "LinkCapacityEstimator_new = \<lparr>estimate_kbps = None, deviation_kbps = f64_lit (2 / 5)\<rparr>"

text \<open>\<open>None\<close> is the panic of \<^verbatim>\<open>unwrap\<close> when there is no estimate.\<close>

definition deviation_estimate_kbps :: "link_capacity_estimator \<Rightarrow> f64 option" where
  "deviation_estimate_kbps l = map_option (\<lambda>e. f64_sqrt (f64_mul (deviation_kbps l) e)) (estimate_kbps l)"

definition UpperBound :: "link_capacity_estimator \<Rightarrow> f64" where
  "UpperBound l =
     (case (estimate_kbps l, deviation_estimate_kbps l) of
        (Some e, Some dev) \<Rightarrow> f64_mul (f64_add e (f64_mul (f64_lit 3) dev)) (f64_lit 1000)
      | _ \<Rightarrow> f64_infinity)"

definition LowerBound :: "link_capacity_estimator \<Rightarrow> f64" where
  "LowerBound l =
     (case (estimate_kbps l, deviation_estimate_kbps l) of
        (Some e, Some dev) \<Rightarrow>
          f64_mul (f64_max (f64_lit 0) (f64_sub e (f64_mul (f64_lit 3) dev))) (f64_lit 1000)
      | _ \<Rightarrow> f64_lit 0)"

definition LinkCapacity_Reset :: "link_capacity_estimator \<Rightarrow> link_capacity_estimator" where
  "LinkCapacity_Reset l = l\<lparr>estimate_kbps := None\<rparr>"

definition LinkCapacity_Update :: "f64 \<Rightarrow> f64 \<Rightarrow> link_capacity_estimator \<Rightarrow> link_capacity_estimator" where
  "LinkCapacity_Update capacity_sample alpha l =
     (let sample_kbps = f64_mul capacity_sample (f64_lit (1 / 1000));
          e = (case estimate_kbps l of
                 None \<Rightarrow> sample_kbps
               | Some e \<Rightarrow> f64_add (f64_mul (f64_sub (f64_lit 1) alpha) e) (f64_mul alpha sample_kbps));
          norm = f64_max e (f64_lit 1);
          error_kbps = f64_sub e sample_kbps;
          dev = f64_add (f64_mul (f64_sub (f64_lit 1) alpha) (deviation_kbps l))
            (f64_div (f64_mul (f64_mul alpha error_kbps) error_kbps) norm);
          dev = (if f64_less (f64_lit (5 / 2)) dev then f64_lit (5 / 2)
                 else if f64_less dev (f64_lit (2 / 5)) then f64_lit (2 / 5) else dev)
      in l\<lparr>estimate_kbps := Some e, deviation_kbps := dev\<rparr>)"

definition OnOveruseDetected :: "f64 \<Rightarrow> link_capacity_estimator \<Rightarrow> link_capacity_estimator" where
  "OnOveruseDetected acknowledged_rate = LinkCapacity_Update acknowledged_rate (f64_lit (1 / 20))"

definition OnProbeRate :: "f64 \<Rightarrow> link_capacity_estimator \<Rightarrow> link_capacity_estimator" where
  "OnProbeRate probe_rate = LinkCapacity_Update probe_rate (f64_lit (1 / 2))"

definition has_estimate :: "link_capacity_estimator \<Rightarrow> bool" where
  "has_estimate l = (estimate_kbps l \<noteq> None)"

definition LinkCapacity_estimate :: "link_capacity_estimator \<Rightarrow> f64 option" where
  "LinkCapacity_estimate l = map_option (\<lambda>e. f64_mul e (f64_lit 1000)) (estimate_kbps l)"

section \<open>The AIMD rate controller\<close>

record network_state_estimate =
  confidence :: f64
  update_time :: i64
  last_receive_time :: i64
  last_send_time :: i64
  link_capacity_est :: f64
  link_capacity_lower :: f64
  link_capacity_upper :: f64
  pre_link_buffer_delay :: i64
  post_link_buffer_delay :: i64
  propagation_delay :: i64

definition NetworkStateEstimate_default :: network_state_estimate where
  "NetworkStateEstimate_default =
     \<lparr>confidence = f64_nan, update_time = I64_MIN, last_receive_time = I64_MIN, last_send_time = I64_MIN,
      link_capacity_est = f64_neg f64_infinity, link_capacity_lower = f64_neg f64_infinity,
      link_capacity_upper = f64_neg f64_infinity, pre_link_buffer_delay = I64_MIN,
      post_link_buffer_delay = I64_MIN, propagation_delay = I64_MIN\<rparr>"

datatype rate_control_state = kRcHold | kRcIncrease | kRcDecrease

record rate_control_input =
  bw_state :: bandwidth_usage
  estimated_throughput :: "f64 option"

record aimd_rate_control =
  min_configured_bitrate :: f64
  max_configured_bitrate :: f64
  current_bitrate :: f64
  latest_estimated_throughput :: f64
  link_capacity :: link_capacity_estimator
  network_estimate :: "network_state_estimate option"
  rc_state :: rate_control_state
  time_last_bitrate_change :: i64
  time_last_bitrate_decrease :: i64
  time_first_throughput_estimate :: i64
  bitrate_is_initialized :: bool
  beta :: f64
  in_alr :: bool
  rtt :: i64
  send_side :: bool
  no_bitrate_increase_in_alr :: bool
  last_decrease :: "f64 option"
  esitmate_thr_testing :: f64
  gcc_frame_interval :: f64

definition AimdRateControl_new :: "bool \<Rightarrow> f64 \<Rightarrow> aimd_rate_control" where
  "AimdRateControl_new send framerate =
     \<lparr>min_configured_bitrate = GCC_MIN_CONFIGURED_BITRATE, max_configured_bitrate = GCC_MAX_CONFIGURED_BITRATE,
      current_bitrate = GCC_INIT_CONFIGURED_BITRATE, latest_estimated_throughput = GCC_INIT_CONFIGURED_BITRATE,
      link_capacity = LinkCapacityEstimator_new, network_estimate = Some NetworkStateEstimate_default,
      rc_state = kRcHold, time_last_bitrate_change = I64_MIN, time_last_bitrate_decrease = I64_MIN,
      time_first_throughput_estimate = I64_MIN, bitrate_is_initialized = False, beta = GCC_DECREASE_COEF_BETA,
      in_alr = False, rtt = GCC_DEFAULT_RTT, send_side = send, no_bitrate_increase_in_alr = True,
      last_decrease = Some (f64_lit 0), esitmate_thr_testing = f64_lit 0,
      gcc_frame_interval = f64_div (f64_lit 1) framerate\<rparr>"

definition ChangeState :: "rate_control_input \<Rightarrow> i64 \<Rightarrow> aimd_rate_control \<Rightarrow> aimd_rate_control" where
  "ChangeState input at_time a =
     (case bw_state input of
        kBwNormal \<Rightarrow>
          (case rc_state a of
             kRcHold \<Rightarrow> a\<lparr>time_last_bitrate_change := at_time, rc_state := kRcIncrease\<rparr>
           | kRcDecrease \<Rightarrow> a\<lparr>rc_state := kRcHold\<rparr>
           | kRcIncrease \<Rightarrow> a)
      | kBwOverusing \<Rightarrow> if rc_state a \<noteq> kRcDecrease then a\<lparr>rc_state := kRcDecrease\<rparr> else a
      | kBwUnderusing \<Rightarrow> a\<lparr>rc_state := kRcHold\<rparr>
      | kLast \<Rightarrow> a)"

definition GetNearMaxIncreaseRateBpsPerSecond :: "aimd_rate_control \<Rightarrow> f64" where
  "GetNearMaxIncreaseRateBpsPerSecond a =
     (let frame_size = f64_mul (current_bitrate a) (gcc_frame_interval a);
          packets_per_frame = f64_div frame_size (f64_of_i64 (1500 * 8));
          avg_packet_size = f64_div frame_size packets_per_frame;
          response_time = f64_mul (f64_of_i64 (i64_add (rtt a) 100)) (f64_lit (1 / 1000));
          response_time = f64_mul response_time (f64_lit 2);
          increase_rate = f64_div avg_packet_size response_time
      in f64_max (f64_lit 4000) increase_rate)"

definition MultiplicativeRateIncrease :: "(f64 \<Rightarrow> f64 \<Rightarrow> f64) \<Rightarrow> i64 \<Rightarrow> i64 \<Rightarrow> f64 \<Rightarrow> f64" where
  "MultiplicativeRateIncrease powf at_time last_time current =
     (let alpha = GCC_INCREASE_COEF_ALPHA;
          alpha =
            (if last_time = I64_MIN then
               (let time_since_last_update = i64_sub at_time last_time
                in powf alpha (f64_min (f64_div (f64_of_i64 time_since_last_update) (f64_lit 1000)) (f64_lit 1)))
             else alpha)
      in f64_max (f64_mul current (f64_sub alpha (f64_lit 1))) (f64_lit 1000))"

definition AdditiveRateIncrease :: "i64 \<Rightarrow> i64 \<Rightarrow> aimd_rate_control \<Rightarrow> f64" where
  "AdditiveRateIncrease at_time last_time a =
     (let time_period_seconds = f64_div (f64_of_i64 (i64_sub at_time last_time)) (f64_lit 1000)
      in f64_mul (GetNearMaxIncreaseRateBpsPerSecond a) time_period_seconds)"

definition ClampBitrate :: "f64 \<Rightarrow> aimd_rate_control \<Rightarrow> f64" where
  "ClampBitrate new_bitrate a =
     (let r = new_bitrate;
          r = (case network_estimate a of
                 Some n \<Rightarrow>
                   if \<not> f64_eq (link_capacity_upper n) (f64_neg f64_infinity)
                   then f64_min (link_capacity_upper n) r else r
               | None \<Rightarrow> r);
          r = (case network_estimate a of
                 Some n \<Rightarrow>
                   if \<not> f64_eq (link_capacity_lower n) (f64_neg f64_infinity) \<and> f64_less r (current_bitrate a)
                   then f64_min (current_bitrate a) (f64_max r (f64_mul (link_capacity_lower n) (beta a)))
                   else r
               | None \<Rightarrow> r)
      in f64_max r (min_configured_bitrate a))"

text \<open>The arms of \<^verbatim>\<open>ChangeBitrate\<close>: each returns the new bitrate it wants, if any, and the state.\<close>

definition increase_arm ::
  "(f64 \<Rightarrow> f64 \<Rightarrow> f64) \<Rightarrow> i64 \<Rightarrow> f64 \<Rightarrow> aimd_rate_control \<Rightarrow> f64 option \<times> aimd_rate_control" where
  "increase_arm powf at_time thr a =
     (let a = (if f64_less (UpperBound (link_capacity a)) thr
               then a\<lparr>link_capacity := LinkCapacity_Reset (link_capacity a)\<rparr> else a);
          increase_limit = f64_add (f64_mul (f64_lit (3 / 2)) thr) (f64_lit 10000);
          new_bitrate =
            (if f64_less (current_bitrate a) increase_limit then
               (let increased =
                      (if has_estimate (link_capacity a) then
                         f64_add (current_bitrate a) (AdditiveRateIncrease at_time (time_last_bitrate_change a) a)
                       else
                         f64_add (current_bitrate a)
                           (MultiplicativeRateIncrease powf at_time (time_last_bitrate_change a) (current_bitrate a)))
                in Some (f64_min increased increase_limit))
             else None)
      in (new_bitrate, a\<lparr>time_last_bitrate_change := at_time\<rparr>))"

definition decrease_arm :: "i64 \<Rightarrow> f64 \<Rightarrow> aimd_rate_control \<Rightarrow> f64 option \<times> aimd_rate_control" where
  "decrease_arm at_time thr a =
     (let decreased = f64_mul thr (beta a);
          decreased =
            (if f64_less (current_bitrate a) decreased then
               (case LinkCapacity_estimate (link_capacity a) of
                  Some e \<Rightarrow> f64_mul (beta a) e
                | None \<Rightarrow> decreased)
             else decreased);
          new_bitrate = (if f64_less decreased (current_bitrate a) then Some decreased else None);
          a = (if bitrate_is_initialized a \<and> f64_less thr (current_bitrate a)
               then a\<lparr>last_decrease := map_option (\<lambda>new_br. f64_sub (current_bitrate a) new_br) new_bitrate\<rparr>
               else a);
          a = (if f64_less thr (LowerBound (link_capacity a))
               then a\<lparr>link_capacity := LinkCapacity_Reset (link_capacity a)\<rparr> else a)
      in (new_bitrate,
          a\<lparr>bitrate_is_initialized := True, esitmate_thr_testing := thr,
            link_capacity := OnOveruseDetected thr (link_capacity a), rc_state := kRcHold,
            time_last_bitrate_change := at_time, time_last_bitrate_decrease := at_time\<rparr>))"

definition update_network_estimate :: "aimd_rate_control \<Rightarrow> aimd_rate_control" where
  "update_network_estimate a =
     (let n = (case network_estimate a of Some n \<Rightarrow> n | None \<Rightarrow> NetworkStateEstimate_default);
          lower = LowerBound (link_capacity a);
          upper = UpperBound (link_capacity a);
          n = n\<lparr>link_capacity_lower :=
                 if \<not> f64_eq lower (f64_lit 0) then
                   if f64_less lower (min_configured_bitrate a) then min_configured_bitrate a else lower
                 else min_configured_bitrate a\<rparr>;
          n = n\<lparr>link_capacity_upper :=
                 if \<not> f64_eq upper f64_infinity then
                   if f64_less (max_configured_bitrate a) upper then max_configured_bitrate a else upper
                 else max_configured_bitrate a\<rparr>
      in a\<lparr>network_estimate := Some n\<rparr>)"

definition ChangeBitrate ::
  "(f64 \<Rightarrow> f64 \<Rightarrow> f64) \<Rightarrow> rate_control_input \<Rightarrow> i64 \<Rightarrow> aimd_rate_control \<Rightarrow> aimd_rate_control" where
  "ChangeBitrate powf input at_time a =
     (let thr = (case estimated_throughput input of Some t \<Rightarrow> t | None \<Rightarrow> latest_estimated_throughput a);
          a = (case estimated_throughput input of Some t \<Rightarrow> a\<lparr>latest_estimated_throughput := t\<rparr> | None \<Rightarrow> a)
      in if \<not> bitrate_is_initialized a \<and> bw_state input \<noteq> kBwOverusing then a
         else
           (let a = ChangeState input at_time a;
                (new_bitrate, a) =
                  (case rc_state a of
                     kRcHold \<Rightarrow> (None, a)
                   | kRcIncrease \<Rightarrow> increase_arm powf at_time thr a
                   | kRcDecrease \<Rightarrow> decrease_arm at_time thr a);
                a = update_network_estimate a
            in a\<lparr>current_bitrate :=
                   ClampBitrate (case new_bitrate of Some b \<Rightarrow> b | None \<Rightarrow> current_bitrate a) a\<rparr>))"

text \<open>The first throughput estimate starts the initialisation time; the first one after it sets the bitrate.\<close>

definition initialize_bitrate :: "rate_control_input \<Rightarrow> i64 \<Rightarrow> aimd_rate_control \<Rightarrow> aimd_rate_control" where
  "initialize_bitrate input at_time a =
     (if \<not> bitrate_is_initialized a then
        if time_first_throughput_estimate a = I64_MIN then
          if estimated_throughput input \<noteq> None then a\<lparr>time_first_throughput_estimate := at_time\<rparr> else a
        else
          (case estimated_throughput input of
             Some t \<Rightarrow>
               if 5000 < i64_sub at_time (time_first_throughput_estimate a)
               then a\<lparr>current_bitrate := t, bitrate_is_initialized := True\<rparr> else a
           | None \<Rightarrow> a)
      else a)"

definition Aimd_Update ::
  "(f64 \<Rightarrow> f64 \<Rightarrow> f64) \<Rightarrow> rate_control_input \<Rightarrow> i64 \<Rightarrow> aimd_rate_control \<Rightarrow> f64 \<times> aimd_rate_control" where
  "Aimd_Update powf input at_time a =
     (let a = ChangeBitrate powf input at_time (initialize_bitrate input at_time a) in (current_bitrate a, a))"

section \<open>The received-bitrate estimator\<close>

record bitrate_estimator =
  be_sum :: i64
  initial_window_ms :: i64
  noninitial_window_ms :: i64
  uncertainty_scale :: f64
  uncertainty_scale_in_alr :: f64
  small_sample_uncertainty_scale :: f64
  small_sample_threshold :: nat
  uncertainty_symmetry_cap :: nat
  estimate_floor :: nat
  current_window_ms :: i64
  prev_time_ms :: i64
  bitrate_estimate_kbps :: f64
  bitrate_estimate_var :: f64

definition BitrateEstimator_new :: bitrate_estimator where
  "BitrateEstimator_new =
     \<lparr>be_sum = 0, initial_window_ms = GCC_BITRATE_ESTIMATOR_INIT_WINDOW_MS,
      noninitial_window_ms = GCC_BITRATE_ESTIMATOR_NONINIT_WINDOW_MS, uncertainty_scale = f64_lit 10,
      uncertainty_scale_in_alr = f64_lit 10, small_sample_uncertainty_scale = f64_lit 10,
      small_sample_threshold = 0, uncertainty_symmetry_cap = 0, estimate_floor = 0, current_window_ms = 0,
      prev_time_ms = - 1, bitrate_estimate_kbps = f64_neg (f64_lit 1), bitrate_estimate_var = f64_lit 50\<rparr>"

text \<open>The sample, whether it is a small one (an out-parameter, initially false), and the state.\<close>

definition UpdateWindow ::
  "i64 \<Rightarrow> nat \<Rightarrow> i64 \<Rightarrow> bool \<Rightarrow> bitrate_estimator \<Rightarrow> f64 \<times> bool \<times> bitrate_estimator" where
  "UpdateWindow now_ms bytes rate_window_ms is_small_sample b =
     (let b = (if now_ms < prev_time_ms b then b\<lparr>prev_time_ms := - 1, be_sum := 0, current_window_ms := 0\<rparr> else b);
          b = (if 0 \<le> prev_time_ms b then
                 (let gap = i64_sub now_ms (prev_time_ms b);
                      b = b\<lparr>current_window_ms := i64_add (current_window_ms b) gap\<rparr>
                  in if rate_window_ms < gap
                     then b\<lparr>be_sum := 0, current_window_ms := current_window_ms b smod rate_window_ms\<rparr> else b)
               else b);
          b = b\<lparr>prev_time_ms := now_ms\<rparr>;
          (sample, small, b) =
            (if rate_window_ms \<le> current_window_ms b then
               (f64_div (f64_mul (f64_lit 8) (f64_of_i64 (be_sum b))) (f64_of_i64 rate_window_ms),
                be_sum b < i64_of_usize (small_sample_threshold b),
                b\<lparr>current_window_ms := i64_sub (current_window_ms b) rate_window_ms, be_sum := 0\<rparr>)
             else (f64_neg (f64_lit 1), is_small_sample, b))
      in (sample, small, b\<lparr>be_sum := i64_add (be_sum b) (i64_of_usize bytes)\<rparr>))"

definition Bitrate_Update :: "i64 \<Rightarrow> nat \<Rightarrow> bool \<Rightarrow> bitrate_estimator \<Rightarrow> bitrate_estimator" where
  "Bitrate_Update at_time amount alr b =
     (let rate_window_ms = (if f64_less (bitrate_estimate_kbps b) (f64_lit 0) then initial_window_ms b
                            else noninitial_window_ms b);
          (sample, is_small_sample, b) = UpdateWindow at_time amount rate_window_ms False b
      in if f64_less sample (f64_lit 0) then b
         else if f64_less (bitrate_estimate_kbps b) (f64_lit 0) then b\<lparr>bitrate_estimate_kbps := sample\<rparr>
         else
           (let est = bitrate_estimate_kbps b;
                scale = (if is_small_sample \<and> f64_less sample est then small_sample_uncertainty_scale b
                         else if alr \<and> f64_less sample est then uncertainty_scale_in_alr b
                         else uncertainty_scale b);
                sample_uncertainty =
                  f64_div (f64_mul scale (f64_abs (f64_sub est sample)))
                    (f64_add est (f64_min sample (f64_of_nat (uncertainty_symmetry_cap b))));
                sample_var = f64_mul sample_uncertainty sample_uncertainty;
                pred_var = f64_add (bitrate_estimate_var b) (f64_lit 5);
                est = f64_div (f64_add (f64_mul sample_var est) (f64_mul pred_var sample))
                  (f64_add sample_var pred_var);
                est = f64_max est (f64_of_nat (estimate_floor b))
            in b\<lparr>bitrate_estimate_kbps := est,
                 bitrate_estimate_var := f64_div (f64_mul sample_var pred_var) (f64_add sample_var pred_var)\<rparr>))"

definition bitrate :: "bitrate_estimator \<Rightarrow> f64 option" where
  "bitrate b =
     (if f64_less (bitrate_estimate_kbps b) (f64_lit 0) then None
      else Some (f64_mul (bitrate_estimate_kbps b) (f64_lit 1000)))"

definition PeekRate :: "bitrate_estimator \<Rightarrow> f64 option" where
  "PeekRate b =
     (if 0 < current_window_ms b
      then Some (f64_div (f64_of_i64 (be_sum b)) (f64_mul (f64_of_i64 (current_window_ms b)) (f64_lit (1 / 1000))))
      else None)"

definition ExpectFastRateChange :: "bitrate_estimator \<Rightarrow> bitrate_estimator" where
  "ExpectFastRateChange b = b\<lparr>bitrate_estimate_var := f64_add (bitrate_estimate_var b) (f64_lit 200)\<rparr>"

section \<open>The bandwidth estimator\<close>

record gcc_bandwidth_estimator =
  trendline_manager :: trendline_estimator
  aimd_manager :: aimd_rate_control
  rate_control_input_manager :: rate_control_input
  bitrate_estimator_manager :: bitrate_estimator
  last_frame_send_timestamp :: f64
  last_frame_arrival_timestamp :: f64

definition GccBandwidthEstimator_new :: "f64 \<Rightarrow> gcc_bandwidth_estimator" where
  "GccBandwidthEstimator_new framerate =
     \<lparr>trendline_manager = TrendlineEstimator_new, aimd_manager = AimdRateControl_new True framerate,
      rate_control_input_manager =
        \<lparr>bw_state = kBwNormal, estimated_throughput = Some GCC_INIT_CONFIGURED_BITRATE\<rparr>,
      bitrate_estimator_manager = BitrateEstimator_new,
      last_frame_send_timestamp = f64_lit 0, last_frame_arrival_timestamp = f64_lit 0\<rparr>"

text \<open>\<open>now\<close> is the duration since the epoch, in nanoseconds, that the clock's reading stands for.\<close>

definition Gcc_Update ::
  "(f64 \<Rightarrow> f64 \<Rightarrow> f64) \<Rightarrow> f64 \<Rightarrow> f64 \<Rightarrow> i64 \<Rightarrow> nat \<Rightarrow> gcc_bandwidth_estimator \<Rightarrow> f64 \<times> gcc_bandwidth_estimator" where
  "Gcc_Update powf send_us arrival_us frame_size now g =
     (let (send_delta_ms, recv_delta_ms) =
            (if \<not> f64_eq (last_frame_send_timestamp g) (f64_lit 0) then
               (f64_mul (f64_sub send_us (last_frame_send_timestamp g)) (f64_lit (1 / 1000)),
                f64_mul (f64_sub arrival_us (last_frame_arrival_timestamp g)) (f64_lit (1 / 1000)))
             else (f64_lit 0, f64_lit 0));
          g = g\<lparr>last_frame_send_timestamp := send_us, last_frame_arrival_timestamp := arrival_us\<rparr>;
          send_time_ms = f64_to_i64 (f64_mul send_us (f64_lit (1 / 1000)));
          arrival_ms = f64_to_i64 (f64_mul arrival_us (f64_lit (1 / 1000)));
          g = g\<lparr>trendline_manager :=
                 UpdateTrendline recv_delta_ms send_delta_ms send_time_ms arrival_ms frame_size (trendline_manager g)\<rparr>;
          input = (rate_control_input_manager g)\<lparr>bw_state :=
            (case hypothesis (trendline_manager g) of
               kBwNormal \<Rightarrow> kBwNormal | kBwOverusing \<Rightarrow> kBwOverusing | _ \<Rightarrow> kBwUnderusing)\<rparr>;
          g = g\<lparr>bitrate_estimator_manager :=
                 Bitrate_Update arrival_ms (usize_of_i64 frame_size) False (bitrate_estimator_manager g)\<rparr>;
          input = (case bitrate (bitrate_estimator_manager g) of
                     Some br \<Rightarrow> input\<lparr>estimated_throughput := Some br\<rparr> | None \<Rightarrow> input);
          g = g\<lparr>rate_control_input_manager := input\<rparr>;
          (target, a) = Aimd_Update powf input (as_millis_i64 now) (aimd_manager g)
      in (target, g\<lparr>aimd_manager := a\<rparr>))"

definition get_target_bitrate_bps :: "gcc_bandwidth_estimator \<Rightarrow> f64" where
  "get_target_bitrate_bps g = current_bitrate (aimd_manager g)"

definition get_estimated_througput :: "gcc_bandwidth_estimator \<Rightarrow> f64" where
  "get_estimated_througput g =
     (case bitrate (bitrate_estimator_manager g) of Some b \<Rightarrow> b | None \<Rightarrow> f64_lit 0)"

end
