(* ===== verification/Gcc_Bounds.thy ===== *)
theory Gcc_Bounds
  imports Gcc_Estimator
begin

text \<open>
  What the congestion control of \<^verbatim>\<open>Gcc_Estimator\<close> guarantees: the target rate stays within the configured
  limits, the over-use detector acts only on confirmed over-use, and two defects, a branch that can
  never be taken and an upper limit that the first over-use can break.
\<close>

section \<open>Runs\<close>

text \<open>A frame: send and arrival stamps, size, time of the call. A run gives every returned target with the
  throughput the controller worked with.\<close>

type_synonym gcc_frame = "f64 \<times> f64 \<times> i64 \<times> nat"

fun gcc_run ::
  "(f64 \<Rightarrow> f64 \<Rightarrow> f64) \<Rightarrow> gcc_frame list \<Rightarrow> gcc_bandwidth_estimator \<Rightarrow> (f64 \<times> f64 option) list" where
  "gcc_run powf [] g = []"
| "gcc_run powf ((send_us, arrival_us, frame_size, now) # frames) g =
     (let (target, g') = Gcc_Update powf send_us arrival_us frame_size now g
      in (target, estimated_throughput (rate_control_input_manager g')) # gcc_run powf frames g')"

section \<open>Constants by value\<close>

lemma gcc_constants:
  "f64_rat GCC_MIN_CONFIGURED_BITRATE = Some 10000000"
  "f64_rat GCC_MAX_CONFIGURED_BITRATE = Some 100000000"
  "f64_rat (f64_lit (1 / 1000)) = Some (1152921504606847 / 1152921504606846976)"
  "f64_rat (f64_lit (1 / 20)) = Some (3602879701896397 / 72057594037927936)"
  "f64_rat (f64_lit (2 / 5)) = Some (3602879701896397 / 9007199254740992)"
  "f64_rat (f64_lit (5 / 2)) = Some (5 / 2)"
  "f64_rat (f64_sub (f64_lit 1) (f64_lit (1 / 20))) = Some (4278419646001971 / 4503599627370496)"
  "f64_rat GCC_DECREASE_COEF_BETA = Some (7656119366529843 / 9007199254740992)"
  by code_simp+

section \<open>The lower bound holds for every input\<close>

definition rate_limits :: "aimd_rate_control \<Rightarrow> bool" where
  "rate_limits a \<longleftrightarrow> min_configured_bitrate a = GCC_MIN_CONFIGURED_BITRATE \<and>
     max_configured_bitrate a = GCC_MAX_CONFIGURED_BITRATE \<and> beta a = GCC_DECREASE_COEF_BETA"

lemma rate_limits_simps [simp]:
  "rate_limits (ChangeState input t a) = rate_limits a"
  "rate_limits (snd (increase_arm powf t thr a)) = rate_limits a"
  "rate_limits (snd (decrease_arm t thr a)) = rate_limits a"
  "rate_limits (update_network_estimate a) = rate_limits a"
  "rate_limits (current_bitrate_update f a) = rate_limits a"
  by (auto simp: rate_limits_def ChangeState_def increase_arm_def decrease_arm_def update_network_estimate_def Let_def
      split: bandwidth_usage.splits rate_control_state.splits)

lemma ClampBitrate_ge:
  assumes "rate_limits a"
  shows "f64_le GCC_MIN_CONFIGURED_BITRATE (ClampBitrate b a)"
  using assms f64_max_ge(1) [OF f64_rat_not_nan [OF gcc_constants(1)]]
  by (simp add: ClampBitrate_def rate_limits_def Let_def)

text \<open>What \<^verbatim>\<open>ChangeBitrate\<close> works on after its arms.\<close>

definition arm :: "(f64 \<Rightarrow> f64 \<Rightarrow> f64) \<Rightarrow> i64 \<Rightarrow> f64 \<Rightarrow> aimd_rate_control \<Rightarrow> f64 option \<times> aimd_rate_control" where
  "arm powf at_time thr a =
     (case rc_state a of
        kRcHold \<Rightarrow> (None, a)
      | kRcIncrease \<Rightarrow> increase_arm powf at_time thr a
      | kRcDecrease \<Rightarrow> decrease_arm at_time thr a)"

lemma rate_limits_arm [simp]: "rate_limits (snd (arm powf t thr a)) = rate_limits a"
  by (simp add: arm_def split: rate_control_state.splits)

definition with_throughput :: "f64 option \<Rightarrow> aimd_rate_control \<Rightarrow> aimd_rate_control" where
  "with_throughput t a = (case t of Some t \<Rightarrow> a\<lparr>latest_estimated_throughput := t\<rparr> | None \<Rightarrow> a)"

lemma ChangeBitrate_alt:
  "ChangeBitrate powf input at_time a =
     (let a1 = with_throughput (estimated_throughput input) a
      in if \<not> bitrate_is_initialized a \<and> bw_state input \<noteq> kBwOverusing then a1
         else (let (nb, a2) = arm powf at_time (latest_estimated_throughput a1) (ChangeState input at_time a1);
                   a3 = update_network_estimate a2
               in a3\<lparr>current_bitrate := ClampBitrate (case nb of Some b \<Rightarrow> b | None \<Rightarrow> current_bitrate a3) a3\<rparr>))"
  by (cases "estimated_throughput input"; simp add: ChangeBitrate_def with_throughput_def arm_def Let_def split_def
      cong: option.case_cong_weak)

lemma with_throughput_simps [simp]:
  "rate_limits (with_throughput t a) = rate_limits a"
  "current_bitrate (with_throughput t a) = current_bitrate a"
  "bitrate_is_initialized (with_throughput t a) = bitrate_is_initialized a"
  "rc_state (with_throughput t a) = rc_state a"
  "time_last_bitrate_change (with_throughput t a) = time_last_bitrate_change a"
  "link_capacity (with_throughput t a) = link_capacity a"
  by (simp_all add: with_throughput_def rate_limits_def split: option.splits)

definition rate_floor :: "aimd_rate_control \<Rightarrow> bool" where
  "rate_floor a \<longleftrightarrow> rate_limits a \<and> (bitrate_is_initialized a \<or> f64_le GCC_MIN_CONFIGURED_BITRATE (current_bitrate a))"

lemma ChangeBitrate_floor:
  assumes "rate_floor a"
  shows "rate_limits (ChangeBitrate powf input t a)"
    "f64_le GCC_MIN_CONFIGURED_BITRATE (current_bitrate (ChangeBitrate powf input t a))"
proof -
  let ?a1 = "with_throughput (estimated_throughput input) a"
  obtain nb a2 where a2: "arm powf t (latest_estimated_throughput ?a1) (ChangeState input t ?a1) = (nb, a2)"
    by fastforce
  have l: "rate_limits a" using assms by (simp add: rate_floor_def)
  then have "rate_limits a2"
    using rate_limits_arm [of powf t "latest_estimated_throughput ?a1" "ChangeState input t ?a1"] by (simp add: a2)
  with l assms show "rate_limits (ChangeBitrate powf input t a)"
    "f64_le GCC_MIN_CONFIGURED_BITRATE (current_bitrate (ChangeBitrate powf input t a))"
    by (auto simp: ChangeBitrate_alt Let_def a2 rate_floor_def ClampBitrate_ge)
qed

lemma Aimd_Update_floor:
  assumes "rate_floor a" "Aimd_Update powf input t a = (target, a')"
  shows "rate_floor a'" "target = current_bitrate a'" "f64_le GCC_MIN_CONFIGURED_BITRATE target"
proof -
  have "rate_floor (initialize_bitrate input t a)"
    using assms(1) by (auto simp: initialize_bitrate_def rate_floor_def rate_limits_def split: option.splits)
  from ChangeBitrate_floor [OF this, of powf input t] show "rate_floor a'" "target = current_bitrate a'"
    "f64_le GCC_MIN_CONFIGURED_BITRATE target"
    using assms(2) by (auto simp: Aimd_Update_def Let_def rate_floor_def)
qed

section \<open>The upper bound holds while the measured throughput respects it\<close>

definition rate_ok :: "f64 \<Rightarrow> bool" where
  "rate_ok t \<longleftrightarrow> f64_le (f64_lit 0) t \<and> f64_le t GCC_MAX_CONFIGURED_BITRATE"

lemma rate_ok_bounded: "rate_ok t \<Longrightarrow> bounded64 0 100000000 t"
  using f64_rat_between [OF _ _ f64_rat_numeral(1) gcc_constants(2)] by (auto simp: rate_ok_def bounded64_def)

definition capacity_ok :: "link_capacity_estimator \<Rightarrow> bool" where
  "capacity_ok l \<longleftrightarrow> bounded64 0 3 (deviation_kbps l) \<and>
     (case estimate_kbps l of None \<Rightarrow> True | Some e \<Rightarrow> bounded64 0 200000 e)"

lemma capacity_ok_new: "capacity_ok LinkCapacityEstimator_new"
  using bounded64I [OF gcc_constants(5), of 0 3] by (simp add: capacity_ok_def LinkCapacityEstimator_new_def)

lemma capacity_ok_reset: "capacity_ok l \<Longrightarrow> capacity_ok (LinkCapacity_Reset l)"
  by (simp add: capacity_ok_def LinkCapacity_Reset_def)

lemma deviation_clamped:
  assumes "f64_rat dev = Some d"
  shows "bounded64 0 3 (if f64_less (f64_lit (5 / 2)) dev then f64_lit (5 / 2)
    else if f64_less dev (f64_lit (2 / 5)) then f64_lit (2 / 5) else dev)"
  using f64_less_rat [OF assms gcc_constants(5)] f64_less_rat [OF gcc_constants(6) assms]
    bounded64I [OF gcc_constants(5), of 0 3] bounded64I [OF gcc_constants(6), of 0 3] bounded64I [OF assms, of 0 3]
  by auto

lemma capacity_ok_overuse:
  assumes "capacity_ok l" "rate_ok t"
  shows "capacity_ok (OnOveruseDetected t l)"
proof -
  let ?al = "f64_lit (1 / 20)"
  define s where "s = f64_mul t (f64_lit (1 / 1000))"
  define e where "e = (case estimate_kbps l of None \<Rightarrow> s
     | Some e \<Rightarrow> f64_add (f64_mul (f64_sub (f64_lit 1) ?al) e) (f64_mul ?al s))"
  define err where "err = f64_sub e s"
  define dev where "dev = f64_add (f64_mul (f64_sub (f64_lit 1) ?al) (deviation_kbps l))
     (f64_div (f64_mul (f64_mul ?al err) err) (f64_max e (f64_lit 1)))"
  have s: "bounded64 0 100001 s" unfolding s_def
    by (rule bounded64_scale(1) [OF rate_ok_bounded [OF assms(2)] gcc_constants(3)]) simp_all
  have e: "bounded64 0 200000 e"
  proof (cases "estimate_kbps l")
    case None
    then show ?thesis using bounded64_weaken [OF s] by (simp add: e_def)
  next
    case (Some x)
    with assms(1) have "bounded64 0 200000 x" by (simp add: capacity_ok_def)
    then have "bounded64 0 191000 (f64_mul (f64_sub (f64_lit 1) ?al) x)"
      by (rule bounded64_scale(2) [OF _ gcc_constants(7)]) simp_all
    moreover have "bounded64 0 6000 (f64_mul ?al s)"
      by (rule bounded64_scale(2) [OF s gcc_constants(4)]) simp_all
    ultimately have "bounded64 (0 + 0) (191000 + 6000) e" unfolding e_def Some option.case
      by (rule bounded64_add) simp_all
    then show ?thesis by (rule bounded64_weaken) simp_all
  qed
  have "bounded64 (0 - 100001) (200000 - 0) err" unfolding err_def by (rule bounded64_sub [OF e s]) simp_all
  then have err: "bounded64 (- 200000) 200000 err" by (rule bounded64_weaken) simp_all
  have al: "bounded64 (- 1) 1 ?al" by (rule bounded64I [OF gcc_constants(4)]) simp_all
  have "bounded64 (- (1 * 200000)) (1 * 200000) (f64_mul ?al err)" by (rule bounded64_mul [OF al err]) simp_all
  then have "bounded64 (- (1 * 200000 * 200000)) (1 * 200000 * 200000) (f64_mul (f64_mul ?al err) err)"
    by (rule bounded64_mul [OF _ err]) simp_all
  moreover obtain n where n: "f64_rat (f64_max e (f64_lit 1)) = Some n" "1 \<le> n"
    using e f64_rat_max [OF _ f64_rat_numeral(2)] by (auto simp: bounded64_def)
  ultimately have q: "bounded64 (- 40000000000) 40000000000 (f64_div (f64_mul (f64_mul ?al err) err) (f64_max e (f64_lit 1)))"
    using bounded64_div [OF _ n, of 40000000000] by simp
  have "bounded64 0 3 (deviation_kbps l)" using assms(1) by (simp add: capacity_ok_def)
  then have "bounded64 0 3 (f64_mul (f64_sub (f64_lit 1) ?al) (deviation_kbps l))"
    by (rule bounded64_scale(2) [OF _ gcc_constants(7)]) simp_all
  from bounded64_add [OF this q] obtain d where d: "f64_rat dev = Some d" by (auto simp: dev_def bounded64_def)
  have "bounded64 0 3 (if f64_less (f64_lit (5 / 2)) dev then f64_lit (5 / 2)
       else if f64_less dev (f64_lit (2 / 5)) then f64_lit (2 / 5) else dev)"
    by (rule deviation_clamped [OF d])
  moreover have "OnOveruseDetected t l = l\<lparr>estimate_kbps := Some e,
      deviation_kbps := if f64_less (f64_lit (5 / 2)) dev then f64_lit (5 / 2)
       else if f64_less dev (f64_lit (2 / 5)) then f64_lit (2 / 5) else dev\<rparr>"
    by (simp only: OnOveruseDetected_def LinkCapacity_Update_def Let_def s_def e_def err_def dev_def)
  ultimately show ?thesis using e by (simp add: capacity_ok_def split del: if_split)
qed

lemma UpperBound_cases:
  assumes "capacity_ok l"
  shows "UpperBound l = f64_infinity \<or> bounded64 0 203000000 (UpperBound l)"
proof (cases "estimate_kbps l")
  case None
  then show ?thesis by (simp add: UpperBound_def)
next
  case (Some e)
  then have e: "bounded64 0 200000 e" and d: "bounded64 0 3 (deviation_kbps l)"
    using assms by (simp_all add: capacity_ok_def)
  obtain c where c: "f64_rat (deviation_kbps l) = Some c" "0 \<le> c" "c \<le> 3" using d by (auto simp: bounded64_def)
  have "bounded64 0 600000 (f64_mul (deviation_kbps l) e)"
    by (rule bounded64_scale(2) [OF e c(1,2)]) (use c(3) in simp_all)
  then have "bounded64 0 1000 (f64_sqrt (f64_mul (deviation_kbps l) e))" by (rule bounded64_sqrt) simp_all
  then have "bounded64 0 3000 (f64_mul (f64_lit 3) (f64_sqrt (f64_mul (deviation_kbps l) e)))"
    by (rule bounded64_scale(2) [OF _ f64_rat_numeral(3)]) simp_all
  from bounded64_add [OF e this] have "bounded64 0 203000 (f64_add e (f64_mul (f64_lit 3) (f64_sqrt (f64_mul (deviation_kbps l) e))))"
    by simp
  then have "bounded64 0 203000000 (UpperBound l)"
    unfolding UpperBound_def deviation_estimate_kbps_def Some option.map option.case prod.case
    by (rule bounded64_scale(1) [OF _ f64_rat_numeral(3)]) simp_all
  then show ?thesis ..
qed

lemma max_bounded: "bounded64 0 100000000 GCC_MAX_CONFIGURED_BITRATE"
  by (rule bounded64I [OF gcc_constants(2)]) simp_all

lemma bounded64_le_max: "bounded64 l 100000000 x \<Longrightarrow> f64_le x GCC_MAX_CONFIGURED_BITRATE"
  using f64_le_rat [OF _ gcc_constants(2)] by (auto simp: bounded64_def)

lemma f64_eq_infinity [simp]: "f64_eq f64_infinity f64_infinity"
  by (simp add: f64_eq_def f64_val_exact)

lemma bounded64_not_inf: "bounded64 l h x \<Longrightarrow> \<not> f64_eq x f64_infinity \<and> \<not> f64_eq x (f64_neg f64_infinity)"
  by (auto simp: bounded64_def f64_eq_def f64_val_exact elim!: f64_rat_cases)

lemma network_upper:
  assumes "rate_limits a" "capacity_ok (link_capacity a)"
  shows "\<exists>n. network_estimate (update_network_estimate a) = Some n \<and> bounded64 0 100000000 (link_capacity_upper n)"
proof -
  let ?u = "UpperBound (link_capacity a)"
  have "bounded64 0 100000000
      (if \<not> f64_eq ?u f64_infinity then if f64_less GCC_MAX_CONFIGURED_BITRATE ?u then GCC_MAX_CONFIGURED_BITRATE else ?u
       else GCC_MAX_CONFIGURED_BITRATE)"
    using UpperBound_cases [OF assms(2)] max_bounded f64_less_rat [OF gcc_constants(2), of ?u]
    by (auto simp: bounded64_def)
  moreover have "max_configured_bitrate a = GCC_MAX_CONFIGURED_BITRATE" using assms(1) by (simp add: rate_limits_def)
  ultimately show ?thesis unfolding update_network_estimate_def Let_def by auto
qed

lemma ClampBitrate_le:
  assumes "rate_limits a" "network_estimate a = Some n" "bounded64 0 100000000 (link_capacity_upper n)"
    "f64_le (current_bitrate a) GCC_MAX_CONFIGURED_BITRATE"
  shows "f64_le (ClampBitrate b a) GCC_MAX_CONFIGURED_BITRATE"
proof -
  let ?r = "f64_min (link_capacity_upper n) b"
  have r: "f64_le ?r GCC_MAX_CONFIGURED_BITRATE"
    using f64_le_trans [OF f64_min_le(2) bounded64_le_max] bounded64_not_nan assms(3) by blast
  have m: "f64_le (f64_min (current_bitrate a) x) GCC_MAX_CONFIGURED_BITRATE" for x
    using f64_le_trans [OF f64_min_le(2) assms(4)] f64_le_not_nan(1) [OF assms(4)] by blast
  have "f64_le GCC_MIN_CONFIGURED_BITRATE GCC_MAX_CONFIGURED_BITRATE"
    using f64_le_rat [OF gcc_constants(1,2)] by simp
  then show ?thesis
    using assms(1,2) bounded64_not_inf [OF assms(3)] r m by (auto simp: ClampBitrate_def Let_def rate_limits_def intro!: f64_max_le)
qed

definition rate_ceiling :: "aimd_rate_control \<Rightarrow> bool" where
  "rate_ceiling a \<longleftrightarrow> rate_limits a \<and> capacity_ok (link_capacity a) \<and> rate_ok (latest_estimated_throughput a) \<and>
     f64_le (current_bitrate a) GCC_MAX_CONFIGURED_BITRATE"

lemma increase_arm_keeps:
  "link_capacity (snd (increase_arm powf t thr a)) =
     (if f64_less (UpperBound (link_capacity a)) thr then LinkCapacity_Reset (link_capacity a) else link_capacity a)"
  "current_bitrate (snd (increase_arm powf t thr a)) = current_bitrate a"
  "latest_estimated_throughput (snd (increase_arm powf t thr a)) = latest_estimated_throughput a"
  "rc_state (snd (increase_arm powf t thr a)) = rc_state a"
  "time_last_bitrate_change (snd (increase_arm powf t thr a)) = t"
  by (simp_all add: increase_arm_def Let_def)

lemma decrease_arm_keeps:
  "link_capacity (snd (decrease_arm t thr a)) =
     OnOveruseDetected thr
       (if f64_less thr (LowerBound (link_capacity a)) then LinkCapacity_Reset (link_capacity a) else link_capacity a)"
  "current_bitrate (snd (decrease_arm t thr a)) = current_bitrate a"
  "latest_estimated_throughput (snd (decrease_arm t thr a)) = latest_estimated_throughput a"
  "rc_state (snd (decrease_arm t thr a)) = kRcHold"
  by (simp_all add: decrease_arm_def Let_def)

lemma arm_keeps:
  assumes "capacity_ok (link_capacity a)" "rate_ok thr" "arm powf t thr a = (nb, a')"
  shows "capacity_ok (link_capacity a')" "current_bitrate a' = current_bitrate a"
    "latest_estimated_throughput a' = latest_estimated_throughput a"
proof -
  from assms(3) have "a' = snd (arm powf t thr a)" by simp
  then show "capacity_ok (link_capacity a')" "current_bitrate a' = current_bitrate a"
    "latest_estimated_throughput a' = latest_estimated_throughput a"
    using assms(1,2) by (auto simp: arm_def increase_arm_keeps decrease_arm_keeps split: rate_control_state.splits
        intro: capacity_ok_overuse capacity_ok_reset)
qed

lemma ChangeState_keeps:
  "link_capacity (ChangeState input t a) = link_capacity a"
  "current_bitrate (ChangeState input t a) = current_bitrate a"
  "latest_estimated_throughput (ChangeState input t a) = latest_estimated_throughput a"
  by (simp_all add: ChangeState_def split: bandwidth_usage.splits rate_control_state.splits)

lemma update_network_estimate_keeps:
  "link_capacity (update_network_estimate a) = link_capacity a"
  "current_bitrate (update_network_estimate a) = current_bitrate a"
  "latest_estimated_throughput (update_network_estimate a) = latest_estimated_throughput a"
  by (simp_all add: update_network_estimate_def Let_def)

lemma ChangeBitrate_ceiling:
  assumes "rate_ceiling a" "\<forall>e. estimated_throughput input = Some e \<longrightarrow> rate_ok e"
  shows "rate_ceiling (ChangeBitrate powf input t a)"
proof -
  let ?a1 = "with_throughput (estimated_throughput input) a"
  let ?c = "ChangeState input t ?a1"
  have a1: "rate_ceiling ?a1" using assms by (auto simp: rate_ceiling_def with_throughput_def rate_limits_def split: option.splits)
  then have c: "rate_limits ?c" "capacity_ok (link_capacity ?c)" "rate_ok (latest_estimated_throughput ?a1)"
    by (simp_all add: rate_ceiling_def ChangeState_keeps)
  obtain nb a2 where a2: "arm powf t (latest_estimated_throughput ?a1) ?c = (nb, a2)" by fastforce
  from arm_keeps [OF c(2,3) a2] have k: "capacity_ok (link_capacity a2)" "current_bitrate a2 = current_bitrate a"
    "latest_estimated_throughput a2 = latest_estimated_throughput ?a1" by (simp_all add: ChangeState_keeps)
  have l2: "rate_limits a2" using rate_limits_arm [of powf t "latest_estimated_throughput ?a1" ?c] c(1) by (simp add: a2)
  from network_upper [OF l2 k(1)] obtain n where n: "network_estimate (update_network_estimate a2) = Some n"
    "bounded64 0 100000000 (link_capacity_upper n)" by blast
  have "f64_le (ClampBitrate b (update_network_estimate a2)) GCC_MAX_CONFIGURED_BITRATE" for b
    by (rule ClampBitrate_le [OF _ n]) (use l2 k(2) assms(1) in \<open>simp_all add: update_network_estimate_keeps rate_ceiling_def\<close>)
  then show ?thesis
    using a1 c(3) k l2 by (simp add: ChangeBitrate_alt Let_def a2 rate_ceiling_def update_network_estimate_keeps)
qed

lemma Aimd_Update_ceiling:
  assumes "rate_ceiling a" "\<forall>e. estimated_throughput input = Some e \<longrightarrow> rate_ok e"
    "Aimd_Update powf input t a = (target, a')"
  shows "rate_ceiling a'"
proof -
  have "rate_ceiling (initialize_bitrate input t a)"
    using assms(1,2) by (auto simp: initialize_bitrate_def rate_ceiling_def rate_limits_def rate_ok_def split: option.splits)
  from ChangeBitrate_ceiling [OF this assms(2)] show ?thesis using assms(3) by (auto simp: Aimd_Update_def Let_def)
qed

section \<open>The received bitrate is never negative\<close>

definition estimate_ok :: "bitrate_estimator \<Rightarrow> bool" where
  "estimate_ok b \<longleftrightarrow> initial_window_ms b = 350 \<and> noninitial_window_ms b = 250 \<and>
     (f64_less (bitrate_estimate_kbps b) (f64_lit 0) \<or> f64_le (f64_lit 0) (bitrate_estimate_kbps b))"

lemma int_not_nan: "\<not> f64_is_nan (f64_of_i64 n)" "\<not> f64_is_nan (f64_of_nat m)"
  by (simp_all add: f64_is_nan_def f64_of_i64_def f64_of_nat_def f64_val_ops v_of_rat_def)

lemma UpdateWindow_sample:
  assumes "UpdateWindow now bytes w small b = (sample, small', b')" "0 < w" "w < 2 ^ 53"
  shows "\<not> f64_is_nan sample" "bitrate_estimate_kbps b' = bitrate_estimate_kbps b"
    "initial_window_ms b' = initial_window_ms b" "noninitial_window_ms b' = noninitial_window_ms b"
proof -
  have w: "f64_rat (f64_of_i64 w) = Some (of_int w)" using assms(2,3) by (intro f64_rat_int(2)) simp
  have e: "f64_rat (f64_lit 8) = Some 8" by (rule f64_rat_numeral(3)) simp
  have "\<not> f64_is_nan (f64_div (f64_mul (f64_lit 8) (f64_of_i64 n)) (f64_of_i64 w))" for n
  proof -
    have "f64_val (f64_of_i64 n) \<noteq> FNan" using int_not_nan(1) by (simp add: f64_is_nan_def)
    moreover from e obtain s q where q: "f64_val (f64_lit 8) = FNum s q" "8 = signed s q" by (rule f64_rat_cases)
    moreover from q(2) have "q \<noteq> 0" by auto
    ultimately have "f64_val (f64_mul (f64_lit 8) (f64_of_i64 n)) \<noteq> FNan"
      by (cases "f64_val (f64_of_i64 n)") (simp_all add: f64_val_ops)
    moreover from w obtain t r where r: "f64_val (f64_of_i64 w) = FNum t r" "of_int w = signed t r" by (rule f64_rat_cases)
    moreover from r(2) assms(2) have "r \<noteq> 0" by auto
    ultimately show ?thesis
      by (cases "f64_val (f64_mul (f64_lit 8) (f64_of_i64 n))") (simp_all add: f64_is_nan_def f64_val_ops(4))
  qed
  moreover have "\<not> f64_is_nan (f64_neg (f64_lit 1))" using f64_rat_not_nan [OF f64_rat_neg [OF f64_rat_numeral(2)]] .
  ultimately show "\<not> f64_is_nan sample" "bitrate_estimate_kbps b' = bitrate_estimate_kbps b"
    "initial_window_ms b' = initial_window_ms b" "noninitial_window_ms b' = noninitial_window_ms b"
    using assms(1) by (auto simp: UpdateWindow_def Let_def split: if_splits)
qed

lemma Bitrate_Update_ok:
  assumes "estimate_ok b"
  shows "estimate_ok (Bitrate_Update t n alr b)"
proof -
  define w where "w = (if f64_less (bitrate_estimate_kbps b) (f64_lit 0) then initial_window_ms b
                            else noninitial_window_ms b)"
  obtain sample small b' where u: "UpdateWindow t n w False b = (sample, small, b')" by (metis prod_cases3)
  have "0 < w" "w < 2 ^ 53" using assms by (auto simp: w_def estimate_ok_def)
  note s = UpdateWindow_sample [OF u this]
  have z: "\<not> f64_is_nan (f64_lit 0)" by (rule f64_rat_not_nan [OF f64_rat_numeral(1)])
  have ok: "estimate_ok b'" using assms s(2-4) by (simp add: estimate_ok_def)
  have "\<not> f64_less sample (f64_lit 0) \<Longrightarrow> f64_le (f64_lit 0) sample" using f64_not_less [OF s(1) z] by simp
  moreover have "f64_le (f64_of_nat m) (f64_max x (f64_of_nat m))" for x m by (rule f64_max_ge(1) [OF int_not_nan(2)])
  moreover have "f64_le (f64_lit 0) (f64_of_nat m)" for m
    unfolding f64_of_nat_def by (rule f64_lit_mono) simp
  ultimately have "\<not> f64_less sample (f64_lit 0) \<Longrightarrow> f64_le (f64_lit 0) sample"
    "f64_le (f64_lit 0) (f64_max x (f64_of_nat m))" for x m using f64_le_trans by blast+
  with ok show ?thesis
    by (simp add: Bitrate_Update_def Let_def w_def [symmetric] u estimate_ok_def)
qed

lemma bitrate_nonneg:
  assumes "estimate_ok b" "bitrate b = Some t"
  shows "f64_le (f64_lit 0) t"
proof -
  have e: "f64_le (f64_lit 0) (bitrate_estimate_kbps b)" and t: "t = f64_mul (bitrate_estimate_kbps b) (f64_lit 1000)"
    using assms by (auto simp: bitrate_def estimate_ok_def split: if_splits)
  have "f64_rat (f64_lit 1000) = Some 1000" by (rule f64_rat_numeral(3)) simp
  then obtain s q where q: "f64_val (f64_lit 1000) = FNum s q" "1000 = signed s q" "0 \<le> q" by (rule f64_rat_cases)
  then have "\<not> s" "q \<noteq> 0" by (auto simp: signed_def split: if_splits)
  obtain s' q' where z: "f64_val (f64_lit 0) = FNum s' q'" "0 = signed s' q'"
    using f64_rat_cases [OF f64_rat_numeral(1)] by metis
  have "v_le (f64_val (f64_lit 0)) (v_mul (f64_val (bitrate_estimate_kbps b)) (f64_val (f64_lit 1000)))"
    using e \<open>\<not> s\<close> \<open>q \<noteq> 0\<close> q(1,3) z f64_val_wf [of "bitrate_estimate_kbps b"]
    by (cases "f64_val (bitrate_estimate_kbps b)") (auto simp: f64_le_def v_wf_def signed_def split: if_splits)
  then show ?thesis
    using rnd64_mono [of "f64_val (f64_lit 0)"] by (simp add: f64_le_def t f64_val_ops(3))
qed

section \<open>Runs of the estimator\<close>

definition gcc_ok :: "gcc_bandwidth_estimator \<Rightarrow> bool" where
  "gcc_ok g \<longleftrightarrow> estimate_ok (bitrate_estimator_manager g) \<and> rate_floor (aimd_manager g) \<and>
     (\<exists>t. estimated_throughput (rate_control_input_manager g) = Some t \<and> f64_le (f64_lit 0) t)"

lemma gcc_ok_new: "gcc_ok (GccBandwidthEstimator_new fps)" "rate_ceiling (aimd_manager (GccBandwidthEstimator_new fps))"
proof -
  have "f64_rat (f64_neg (f64_lit 1)) = Some (- 1)" by (rule f64_rat_neg [OF f64_rat_numeral(2)])
  then have "f64_less (f64_neg (f64_lit 1)) (f64_lit 0)" using f64_less_rat [OF _ f64_rat_numeral(1)] by simp
  moreover have "f64_le GCC_MIN_CONFIGURED_BITRATE GCC_MAX_CONFIGURED_BITRATE" "f64_le (f64_lit 0) GCC_MAX_CONFIGURED_BITRATE"
    "f64_le GCC_MAX_CONFIGURED_BITRATE GCC_MAX_CONFIGURED_BITRATE"
    using f64_le_rat [OF gcc_constants(1,2)] f64_le_rat [OF f64_rat_numeral(1) gcc_constants(2)]
      f64_le_rat [OF gcc_constants(2,2)] by simp_all
  ultimately show "gcc_ok (GccBandwidthEstimator_new fps)" "rate_ceiling (aimd_manager (GccBandwidthEstimator_new fps))"
    using capacity_ok_new
    by (simp_all add: gcc_ok_def estimate_ok_def rate_floor_def rate_limits_def rate_ceiling_def rate_ok_def
        GccBandwidthEstimator_new_def BitrateEstimator_new_def AimdRateControl_new_def GCC_INIT_CONFIGURED_BITRATE_def
        GCC_BITRATE_ESTIMATOR_INIT_WINDOW_MS_def GCC_BITRATE_ESTIMATOR_NONINIT_WINDOW_MS_def)
qed

text \<open>One update of the whole estimator is an update of the controller on the input the detectors computed.\<close>

lemma Gcc_Update_split:
  assumes "Gcc_Update powf send arrival n now g = (target, g')"
  shows "Aimd_Update powf (rate_control_input_manager g') (as_millis_i64 now) (aimd_manager g) = (target, aimd_manager g')"
    "bitrate_estimator_manager g' =
       Bitrate_Update (f64_to_i64 (f64_mul arrival (f64_lit (1 / 1000)))) (usize_of_i64 n) False (bitrate_estimator_manager g)"
    "estimated_throughput (rate_control_input_manager g') =
       (case bitrate (bitrate_estimator_manager g') of
          Some t \<Rightarrow> Some t | None \<Rightarrow> estimated_throughput (rate_control_input_manager g))"
  using assms by (auto simp: Gcc_Update_def Let_def split: prod.splits option.splits)

lemma Gcc_Update_ok:
  assumes "gcc_ok g" "Gcc_Update powf send arrival n now g = (target, g')"
  shows "gcc_ok g'" "f64_le GCC_MIN_CONFIGURED_BITRATE target" "target = current_bitrate (aimd_manager g')"
    "rate_ceiling (aimd_manager g) \<Longrightarrow>
       f64_le (the (estimated_throughput (rate_control_input_manager g'))) GCC_MAX_CONFIGURED_BITRATE \<Longrightarrow>
       rate_ceiling (aimd_manager g')"
proof -
  note s = Gcc_Update_split [OF assms(2)]
  have e: "estimate_ok (bitrate_estimator_manager g')" using assms(1) Bitrate_Update_ok by (simp add: s(2) gcc_ok_def)
  have t: "\<exists>t. estimated_throughput (rate_control_input_manager g') = Some t \<and> f64_le (f64_lit 0) t"
    using assms(1) bitrate_nonneg [OF e] by (auto simp: s(3) gcc_ok_def split: option.splits)
  have "rate_floor (aimd_manager g)" using assms(1) by (simp add: gcc_ok_def)
  from Aimd_Update_floor [OF this s(1)] e t show "gcc_ok g'" "f64_le GCC_MIN_CONFIGURED_BITRATE target"
    "target = current_bitrate (aimd_manager g')" by (simp_all add: gcc_ok_def)
  show "rate_ceiling (aimd_manager g')" if "rate_ceiling (aimd_manager g)"
    "f64_le (the (estimated_throughput (rate_control_input_manager g'))) GCC_MAX_CONFIGURED_BITRATE"
    by (rule Aimd_Update_ceiling [OF that(1) _ s(1)]) (use t that(2) in \<open>auto simp: rate_ok_def\<close>)
qed

lemma gcc_run_floor: "gcc_ok g \<Longrightarrow> (target, thr) \<in> set (gcc_run powf frames g) \<Longrightarrow> f64_le GCC_MIN_CONFIGURED_BITRATE target"
proof (induction powf frames g rule: gcc_run.induct)
  case (2 powf send arrival n now frames g)
  obtain t g' where u: "Gcc_Update powf send arrival n now g = (t, g')" by fastforce
  from Gcc_Update_ok(1,2) [OF 2(2) u] 2(1) [of "(t, g')" t g'] 2(3) u show ?case by auto
qed simp

lemma gcc_run_ceiling:
  "gcc_ok g \<Longrightarrow> rate_ceiling (aimd_manager g) \<Longrightarrow>
   (\<And>target thr. (target, thr) \<in> set (gcc_run powf frames g) \<Longrightarrow> f64_le (the thr) GCC_MAX_CONFIGURED_BITRATE) \<Longrightarrow>
   (target, thr) \<in> set (gcc_run powf frames g) \<Longrightarrow> f64_le target GCC_MAX_CONFIGURED_BITRATE"
proof (induction powf frames g rule: gcc_run.induct)
  case (2 powf send arrival n now frames g)
  obtain t g' where u: "Gcc_Update powf send arrival n now g = (t, g')" by fastforce
  have "f64_le (the (estimated_throughput (rate_control_input_manager g'))) GCC_MAX_CONFIGURED_BITRATE"
    using 2(4) [of t "estimated_throughput (rate_control_input_manager g')"] u by simp
  note ok = Gcc_Update_ok(1,3,4) [OF 2(2) u] and c = Gcc_Update_ok(4) [OF 2(2) u 2(3) this]
  show ?case
  proof (cases "(target, thr) \<in> set (gcc_run powf frames g')")
    case True
    show ?thesis by (rule 2(1) [OF u [symmetric] refl ok(1) c _ True]) (use 2(4) u in auto)
  next
    case False
    with 2(5) u c ok(2) show ?thesis by (auto simp: rate_ceiling_def)
  qed
qed simp

text \<open>C15. The target bitrate that the congestion control returns for a frame is never below the configured minimum,
  whatever the frames' stamps, sizes and times are; and it is never above the configured maximum as long as the
  throughput measured for the frames is not.\<close>

theorem gcc_target_bounds:
  "let run = gcc_run powf frames (GccBandwidthEstimator_new fps)
   in (\<forall>(target, thr) \<in> set run. f64_le GCC_MIN_CONFIGURED_BITRATE target) \<and>
      ((\<forall>(target, thr) \<in> set run. f64_le (the thr) GCC_MAX_CONFIGURED_BITRATE) \<longrightarrow>
       (\<forall>(target, thr) \<in> set run. f64_le target GCC_MAX_CONFIGURED_BITRATE))"
  unfolding Let_def using gcc_run_floor [OF gcc_ok_new(1)] gcc_run_ceiling [OF gcc_ok_new] by fast

lemma no_estimate_from_first_frame: "bitrate (Bitrate_Update t n alr BitrateEstimator_new) = None"
proof -
  have "f64_rat (f64_neg (f64_lit 1)) = Some (- 1)" by (rule f64_rat_neg [OF f64_rat_numeral(2)])
  then have "f64_less (f64_neg (f64_lit 1)) (f64_lit 0)" using f64_less_rat [OF _ f64_rat_numeral(1)] by simp
  then show ?thesis
    by (simp add: Bitrate_Update_def BitrateEstimator_new_def UpdateWindow_def bitrate_def
        GCC_BITRATE_ESTIMATOR_INIT_WINDOW_MS_def)
qed

theorem gcc_target_bounds_witness:
  "let run = gcc_run (\<lambda>x y. x) [(f64_lit 1000000, f64_lit 1020000, 125000, 0)] (GccBandwidthEstimator_new (f64_lit 90))
   in run \<noteq> [] \<and> (\<forall>(target, thr) \<in> set run.
        f64_le GCC_MIN_CONFIGURED_BITRATE target \<and> f64_le target GCC_MAX_CONFIGURED_BITRATE)"
proof -
  let ?fr = "[(f64_lit 1000000, f64_lit 1020000, 125000, 0)] :: gcc_frame list"
  let ?g = "GccBandwidthEstimator_new (f64_lit 90)"
  obtain t g' where u: "Gcc_Update (\<lambda>x y. x) (f64_lit 1000000) (f64_lit 1020000) 125000 0 ?g = (t, g')" by fastforce
  have "bitrate_estimator_manager ?g = BitrateEstimator_new"
    "estimated_throughput (rate_control_input_manager ?g) = Some GCC_MAX_CONFIGURED_BITRATE"
    by (simp_all add: GccBandwidthEstimator_new_def GCC_INIT_CONFIGURED_BITRATE_def)
  then have "estimated_throughput (rate_control_input_manager g') = Some GCC_MAX_CONFIGURED_BITRATE"
    using Gcc_Update_split(2,3) [OF u] no_estimate_from_first_frame by simp
  moreover have "f64_le GCC_MAX_CONFIGURED_BITRATE GCC_MAX_CONFIGURED_BITRATE"
    using f64_le_rat [OF gcc_constants(2,2)] by simp
  ultimately show ?thesis
    using gcc_target_bounds [of "\<lambda>x y. x" ?fr "f64_lit 90"] u by simp
qed

section \<open>The time-dependent increase is never used\<close>

definition increase_dated :: "aimd_rate_control \<Rightarrow> bool" where
  "increase_dated a \<longleftrightarrow> (rc_state a = kRcIncrease \<longrightarrow> time_last_bitrate_change a \<noteq> I64_MIN)"

lemma increase_arm_powf:
  "time_last_bitrate_change a \<noteq> I64_MIN \<Longrightarrow> increase_arm powf t thr a = increase_arm powf' t thr a"
  by (simp add: increase_arm_def MultiplicativeRateIncrease_def Let_def)

lemma ChangeState_dated: "increase_dated a \<Longrightarrow> t \<noteq> I64_MIN \<Longrightarrow> increase_dated (ChangeState input t a)"
  by (simp add: increase_dated_def ChangeState_def split: bandwidth_usage.splits rate_control_state.splits)

lemma arm_powf:
  assumes "increase_dated a" "t \<noteq> I64_MIN"
  shows "arm powf t thr a = arm powf' t thr a" "increase_dated (snd (arm powf t thr a))"
  using assms increase_arm_powf [of a powf t thr powf']
  by (auto simp: arm_def increase_dated_def increase_arm_keeps decrease_arm_keeps split: rate_control_state.splits)

lemma Aimd_Update_powf:
  assumes "increase_dated a" "t \<noteq> I64_MIN"
  shows "Aimd_Update powf input t a = Aimd_Update powf' input t a"
    "increase_dated (snd (Aimd_Update powf input t a))"
proof -
  let ?a1 = "with_throughput (estimated_throughput input) (initialize_bitrate input t a)"
  have "increase_dated ?a1"
    using assms(1) by (auto simp: initialize_bitrate_def increase_dated_def split: option.splits)
  from ChangeState_dated [OF this assms(2), of input] arm_powf [OF _ assms(2)]
  have "arm powf t (latest_estimated_throughput ?a1) (ChangeState input t ?a1) =
      arm powf' t (latest_estimated_throughput ?a1) (ChangeState input t ?a1)"
    "increase_dated (snd (arm powf t (latest_estimated_throughput ?a1) (ChangeState input t ?a1)))"
    by blast+
  with \<open>increase_dated ?a1\<close> show "Aimd_Update powf input t a = Aimd_Update powf' input t a"
    "increase_dated (snd (Aimd_Update powf input t a))"
    by (auto simp: Aimd_Update_def ChangeBitrate_alt Let_def increase_dated_def update_network_estimate_def split: prod.splits)
qed

lemma Gcc_Update_powf:
  assumes "increase_dated (aimd_manager g)" "as_millis_i64 now \<noteq> I64_MIN"
  shows "Gcc_Update powf send arrival n now g = Gcc_Update powf' send arrival n now g"
    "increase_dated (aimd_manager (snd (Gcc_Update powf send arrival n now g)))"
proof -
  show "Gcc_Update powf send arrival n now g = Gcc_Update powf' send arrival n now g"
    using Aimd_Update_powf(1) [OF assms, of powf _ powf']
    by (simp add: Gcc_Update_def Let_def)
  obtain target g' where u: "Gcc_Update powf send arrival n now g = (target, g')" by fastforce
  show "increase_dated (aimd_manager (snd (Gcc_Update powf send arrival n now g)))"
    using Aimd_Update_powf(2) [OF assms, of powf "rate_control_input_manager g'"] Gcc_Update_split(1) [OF u] u by simp
qed

lemma as_millis_not_min: "now < 2 ^ 63 * 1000000 \<Longrightarrow> as_millis_i64 now \<noteq> I64_MIN"
proof -
  assume "now < 2 ^ 63 * 1000000"
  then have "int now div 1000000 < 2 ^ 63" by simp
  then have "i64_wrap (int now div 1000000) = int now div 1000000"
    by (intro i64_wrap_small) (simp_all add: I64_MIN_def I64_MAX_def order_trans [of _ 0])
  then have "0 \<le> as_millis_i64 now" by (simp add: as_millis_i64_def)
  then show ?thesis by (auto simp: I64_MIN_def)
qed

lemma gcc_run_powf:
  "increase_dated (aimd_manager g) \<Longrightarrow> (\<forall>(send, arrival, n, now) \<in> set frames. now < 2 ^ 63 * 1000000) \<Longrightarrow>
   gcc_run powf frames g = gcc_run powf' frames g"
proof (induction powf frames g rule: gcc_run.induct)
  case (2 powf send arrival n now frames g)
  obtain t g' where u: "Gcc_Update powf send arrival n now g = (t, g')" by fastforce
  have "as_millis_i64 now \<noteq> I64_MIN" using 2(3) as_millis_not_min by simp
  note p = Gcc_Update_powf [OF 2(2) this]
  have "gcc_run powf frames g' = gcc_run powf' frames g'"
    by (rule 2(1) [OF u [symmetric] refl]) (use p(2) [of powf send arrival n] u 2(3) in simp_all)
  moreover have "Gcc_Update powf' send arrival n now g = (t, g')" using u p(1) [of powf send arrival n powf'] by simp
  ultimately show ?case using u by simp
qed simp

text \<open>C20. The multiplicative increase never depends on the time since the last change: the power of the increase
  factor is only taken while no change has happened yet, and then the controller is never increasing. The whole
  run of the estimator is the same for every power function, so the rate grows by the full factor with every
  frame, not with every second.\<close>

theorem gcc_increase_ignores_time:
  assumes "\<forall>(send, arrival, n, now) \<in> set frames. now < 2 ^ 63 * 1000000"
  shows "gcc_run powf frames (GccBandwidthEstimator_new fps) = gcc_run powf' frames (GccBandwidthEstimator_new fps)"
  by (rule gcc_run_powf [OF _ assms])
    (simp add: increase_dated_def GccBandwidthEstimator_new_def AimdRateControl_new_def)

theorem gcc_increase_ignores_time_witness:
  "gcc_run (\<lambda>x y. x) [(f64_lit 1000000, f64_lit 1020000, 125000, 20000000)] (GccBandwidthEstimator_new (f64_lit 90)) =
   gcc_run (\<lambda>x y. y) [(f64_lit 1000000, f64_lit 1020000, 125000, 20000000)] (GccBandwidthEstimator_new (f64_lit 90))"
  by (rule gcc_increase_ignores_time) simp

section \<open>An over-use at the end of the initialisation breaks the upper limit\<close>

lemma overuse_capacity:
  assumes "bounded64 125000000 1000000000 t"
  defines "l \<equiv> OnOveruseDetected t LinkCapacityEstimator_new"
  shows "bounded64 119500000 1010000000 (LowerBound l)"
proof -
  let ?al = "f64_lit (1 / 20)"
  define s where "s = f64_mul t (f64_lit (1 / 1000))"
  define err where "err = f64_sub s s"
  define dev where "dev = f64_add (f64_mul (f64_sub (f64_lit 1) ?al) (f64_lit (2 / 5)))
     (f64_div (f64_mul (f64_mul ?al err) err) (f64_max s (f64_lit 1)))"
  define dev' where "dev' = (if f64_less (f64_lit (5 / 2)) dev then f64_lit (5 / 2)
       else if f64_less dev (f64_lit (2 / 5)) then f64_lit (2 / 5) else dev)"
  have l: "l = \<lparr>estimate_kbps = Some s, deviation_kbps = dev'\<rparr>"
    by (simp only: l_def LinkCapacityEstimator_new_def OnOveruseDetected_def LinkCapacity_Update_def Let_def s_def
        err_def dev_def dev'_def link_capacity_estimator.simps option.case)
  have s: "bounded64 124999 1000001 s" unfolding s_def
    by (rule bounded64_mul_between [OF assms(1) gcc_constants(3)]) simp_all
  have err: "bounded64 (- 875002) 875002 err" using bounded64_sub [OF s s] by (simp add: err_def)
  have al: "bounded64 (- 1) 1 ?al" by (rule bounded64I [OF gcc_constants(4)]) simp_all
  have "bounded64 (- 765628500004) 765628500004 (f64_mul (f64_mul ?al err) err)"
    using bounded64_mul [OF bounded64_mul [OF al err] err] by simp
  moreover obtain n where n: "f64_rat (f64_max s (f64_lit 1)) = Some n" "1 \<le> n"
    using s f64_rat_max [OF _ f64_rat_numeral(2)] by (auto simp: bounded64_def)
  ultimately have "bounded64 (- 765628500004) 765628500004 (f64_div (f64_mul (f64_mul ?al err) err) (f64_max s (f64_lit 1)))"
    using bounded64_div [OF _ n, of 765628500004] by simp
  moreover have "bounded64 0 1 (f64_mul (f64_sub (f64_lit 1) ?al) (f64_lit (2 / 5)))"
    by (rule bounded64_scale(2) [OF bounded64I [OF gcc_constants(5), of 0 1] gcc_constants(7)]) simp_all
  ultimately obtain d where d: "f64_rat dev = Some d" using bounded64_add [of 0 1 _ "- 765628500004" 765628500004]
    by (fastforce simp: dev_def bounded64_def)
  have "bounded64 0 3 dev'" unfolding dev'_def by (rule deviation_clamped [OF d])
  then obtain c where c: "f64_rat dev' = Some c" "0 \<le> c" "c \<le> 3" by (auto simp: bounded64_def)
  have "bounded64 0 3000003 (f64_mul dev' s)"
    by (rule bounded64_scale(2) [OF bounded64_weaken [OF s, of 0 1000001] c(1,2)]) (use c(3) in simp_all)
  then have "bounded64 0 1733 (f64_sqrt (f64_mul dev' s))" by (rule bounded64_sqrt) simp_all
  then have "bounded64 0 5199 (f64_mul (f64_lit 3) (f64_sqrt (f64_mul dev' s)))"
    by (rule bounded64_scale(2) [OF _ f64_rat_numeral(3)]) simp_all
  from bounded64_sub [OF s this] have "bounded64 119800 1000001 (f64_sub s (f64_mul (f64_lit 3) (f64_sqrt (f64_mul dev' s))))"
    by simp
  from bounded64_max [OF bounded64_lit [of 0 0 0] this]
  have "bounded64 119800 1000001 (f64_max (f64_lit 0) (f64_sub s (f64_mul (f64_lit 3) (f64_sqrt (f64_mul dev' s)))))" by simp
  then show ?thesis
    unfolding LowerBound_def deviation_estimate_kbps_def l link_capacity_estimator.simps option.map option.case prod.case
    by (rule bounded64_mul_between [OF _ f64_rat_numeral(3)]) simp_all
qed

text \<open>A decrease by the factor is below the throughput it is taken of.\<close>

lemma decreased_below:
  assumes "bounded64 125000000 1000000000 t"
  shows "f64_less (f64_mul t GCC_DECREASE_COEF_BETA) t" "\<not> f64_less t (f64_mul t GCC_DECREASE_COEF_BETA)"
    "\<not> f64_is_nan (f64_mul t GCC_DECREASE_COEF_BETA)"
proof -
  let ?b = "7656119366529843 / 9007199254740992 :: rat"
  obtain x where x: "f64_rat t = Some x" "125000000 \<le> x" "x \<le> 1000000000" using assms by (auto simp: bounded64_def)
  define h where "h = \<lceil>x\<rceil>"
  define m where "m = \<lceil>of_int h * ?b\<rceil>"
  have h: "x \<le> of_int h" "of_int h < x + 1" by (simp_all add: h_def) linarith
  have m: "of_int h * ?b \<le> of_int m" "of_int m < of_int h * ?b + 1" by (simp_all add: m_def) linarith
  have mx: "of_int m < x" using h m x(2) by linarith
  then have "(of_int m :: rat) < of_int 2000000000" using x(3) by simp
  then have m2: "m < 2000000000" by (simp only: of_int_less_iff)
  have "(of_int 0 :: rat) \<le> of_int m" using h m x(2) by linarith
  then have m0: "0 \<le> m" by (simp only: of_int_le_iff)
  have "bounded64 0 h t" by (rule bounded64I [OF x(1)]) (use x(2) h in simp_all)
  from bounded64_scale(1) [OF this gcc_constants(8) _ m(1) m0] m2 have "bounded64 0 m (f64_mul t GCC_DECREASE_COEF_BETA)" by simp
  then obtain y where y: "f64_rat (f64_mul t GCC_DECREASE_COEF_BETA) = Some y" "y \<le> of_int m" by (auto simp: bounded64_def)
  with mx x show "f64_less (f64_mul t GCC_DECREASE_COEF_BETA) t" "\<not> f64_less t (f64_mul t GCC_DECREASE_COEF_BETA)"
    using f64_less_rat [OF y(1) x(1)] f64_less_rat [OF x(1) y(1)] by auto
  show "\<not> f64_is_nan (f64_mul t GCC_DECREASE_COEF_BETA)" using y(1) by (rule f64_rat_not_nan)
qed

lemma ClampBitrate_keeps_capacity:
  assumes "rate_limits a" "network_estimate a = Some n" "bounded64 119500000 1010000000 (link_capacity_lower n)"
    "bounded64 125000000 1000000000 (current_bitrate a)" "f64_less b (current_bitrate a)" "\<not> f64_is_nan b"
  shows "f64_less GCC_MAX_CONFIGURED_BITRATE (ClampBitrate b a)"
proof -
  let ?c = "current_bitrate a"
  define r where "r = (if \<not> f64_eq (link_capacity_upper n) (f64_neg f64_infinity) then f64_min (link_capacity_upper n) b else b)"
  define x where "x = f64_mul (link_capacity_lower n) (beta a)"
  have "f64_le r b" using f64_min_le(1) [OF assms(6)] f64_le_refl [OF assms(6)] by (simp add: r_def)
  then have "f64_less r ?c" using assms(5) by (rule f64_le_less_trans)
  then have clamp: "ClampBitrate b a = f64_max (f64_min ?c (f64_max r x)) (min_configured_bitrate a)"
    using assms(2) bounded64_not_inf [OF assms(3)] by (simp add: ClampBitrate_def Let_def r_def [symmetric] x_def [symmetric])
  have lit: "f64_rat (f64_lit 101000000) = Some 101000000" by (rule f64_rat_numeral(3)) simp
  have be: "f64_rat (beta a) = Some (7656119366529843 / 9007199254740992)"
    using assms(1) gcc_constants(8) by (simp only: rate_limits_def)
  have "bounded64 101000000 1010000000 x" unfolding x_def
    by (rule bounded64_mul_between [OF assms(3) be]) simp_all
  then have x: "\<not> f64_is_nan x" "f64_le (f64_lit 101000000) x"
    using f64_le_rat [OF lit] by (auto simp: bounded64_def dest: f64_rat_not_nan)
  from f64_le_trans [OF x(2) f64_max_ge(1) [OF x(1)]] have "f64_le (f64_lit 101000000) (f64_max r x)" .
  moreover have "f64_le (f64_lit 101000000) ?c" using f64_le_rat [OF lit] assms(4) by (auto simp: bounded64_def)
  ultimately have m: "f64_le (f64_lit 101000000) (f64_min ?c (f64_max r x))" by (intro f64_min_ge)
  then have "f64_le (f64_lit 101000000) (ClampBitrate b a)"
    unfolding clamp by (rule f64_le_trans [OF _ f64_max_ge(2) [OF f64_le_not_nan(2) [OF m]]])
  moreover have "f64_less GCC_MAX_CONFIGURED_BITRATE (f64_lit 101000000)"
    using f64_less_rat [OF gcc_constants(2) lit] by simp
  ultimately show ?thesis by (rule f64_less_le_trans [rotated])
qed

text \<open>The controller after a sequence of updates, and what it is while the initialisation time runs.\<close>

definition aimd_run ::
  "(f64 \<Rightarrow> f64 \<Rightarrow> f64) \<Rightarrow> (rate_control_input \<times> i64) list \<Rightarrow> aimd_rate_control \<Rightarrow> aimd_rate_control" where
  "aimd_run powf us a = fold (\<lambda>(input, t) a. snd (Aimd_Update powf input t a)) us a"

definition initialising :: "i64 \<Rightarrow> aimd_rate_control \<Rightarrow> bool" where
  "initialising t0 a \<longleftrightarrow> \<not> bitrate_is_initialized a \<and> time_first_throughput_estimate a = t0 \<and> rate_limits a \<and>
     link_capacity a = LinkCapacityEstimator_new \<and> rc_state a = kRcHold"

lemma initialising_update:
  assumes "initialising t0 a" "t0 \<noteq> I64_MIN" "bw_state i \<noteq> kBwOverusing" "i64_sub t t0 \<le> 5000"
  shows "initialising t0 (snd (Aimd_Update powf i t a))"
  using assms
  by (cases "estimated_throughput i")
    (simp_all add: initialising_def Aimd_Update_def initialize_bitrate_def ChangeBitrate_alt with_throughput_def Let_def rate_limits_def)

lemma initialising_run:
  "initialising t0 a \<Longrightarrow> t0 \<noteq> I64_MIN \<Longrightarrow> \<forall>(i, t) \<in> set us. bw_state i \<noteq> kBwOverusing \<and> i64_sub t t0 \<le> 5000 \<Longrightarrow>
     initialising t0 (aimd_run powf us a)"
proof (induction us arbitrary: a)
  case (Cons u us)
  obtain i t where u: "u = (i, t)" by (cases u)
  have "initialising t0 (snd (Aimd_Update powf i t a))" using initialising_update [OF Cons.prems(1,2)] Cons.prems(3) u by simp
  from Cons.IH [OF this Cons.prems(2)] Cons.prems(3) u show ?case by (simp add: aimd_run_def)
qed (simp add: aimd_run_def)

lemma overuse_ends_initialisation:
  assumes a: "initialising t0 a" "t0 \<noteq> I64_MIN" "5000 < i64_sub t t0" and T: "bounded64 125000000 1000000000 thr"
  shows "f64_less GCC_MAX_CONFIGURED_BITRATE (fst (Aimd_Update powf \<lparr>bw_state = kBwOverusing, estimated_throughput = Some thr\<rparr> t a))"
proof -
  let ?in = "\<lparr>bw_state = kBwOverusing, estimated_throughput = Some thr\<rparr>"
  define decr where "decr = f64_mul thr GCC_DECREASE_COEF_BETA"
  define l where "l = OnOveruseDetected thr LinkCapacityEstimator_new"
  define c where "c = a\<lparr>current_bitrate := thr, bitrate_is_initialized := True, latest_estimated_throughput := thr, rc_state := kRcDecrease\<rparr>"
  note dT = decreased_below [OF T, folded decr_def]
  have T0: "\<not> f64_less thr (f64_lit 0)" using T f64_less_rat [OF _ f64_rat_numeral(1)] by (auto simp: bounded64_def)
  have lower: "bounded64 119500000 1010000000 (LowerBound l)" unfolding l_def by (rule overuse_capacity [OF T])
  have c: "link_capacity c = LinkCapacityEstimator_new" "beta c = GCC_DECREASE_COEF_BETA" "current_bitrate c = thr"
    "rate_limits c" "rc_state c = kRcDecrease"
    using a(1) by (simp_all add: c_def initialising_def rate_limits_def)
  obtain nb a2 where a2: "decrease_arm t thr c = (nb, a2)" by fastforce
  have nb: "nb = Some decr" "link_capacity a2 = l" "current_bitrate a2 = thr" "rate_limits a2"
    using a2 c dT T0 rate_limits_simps(3) [of t thr c]
    by (auto simp: decrease_arm_def Let_def decr_def l_def LinkCapacityEstimator_new_def LinkCapacity_estimate_def LowerBound_def
        split: if_splits)
  have cs: "ChangeState ?in t (with_throughput (Some thr) (initialize_bitrate ?in t a)) = c"
    using a by (simp add: ChangeState_def with_throughput_def initialize_bitrate_def initialising_def c_def)
  have i: "bitrate_is_initialized (initialize_bitrate ?in t a)" using a by (simp add: initialize_bitrate_def initialising_def)
  have lat: "latest_estimated_throughput (with_throughput (Some thr) b) = thr" for b by (simp add: with_throughput_def)
  have "fst (Aimd_Update powf ?in t a) = ClampBitrate decr (update_network_estimate a2)"
    using a2 nb(1) i cs lat c(5) by (simp add: Aimd_Update_def ChangeBitrate_alt arm_def Let_def)
  moreover have "f64_less GCC_MAX_CONFIGURED_BITRATE (ClampBitrate decr (update_network_estimate a2))"
  proof -
    have "\<not> f64_eq (LowerBound l) (f64_lit 0)" "\<not> f64_less (LowerBound l) GCC_MIN_CONFIGURED_BITRATE"
      using lower f64_eq_rat [OF _ f64_rat_numeral(1)] f64_less_rat [OF _ gcc_constants(1)] by (auto simp: bounded64_def)
    then obtain n where n: "network_estimate (update_network_estimate a2) = Some n" "link_capacity_lower n = LowerBound l"
      using nb(2,4) by (simp add: update_network_estimate_def Let_def rate_limits_def)
    have "bounded64 119500000 1010000000 (link_capacity_lower n)" unfolding n(2) by (rule lower)
    from ClampBitrate_keeps_capacity [OF _ n(1) this] show ?thesis
      using nb T dT by (simp add: update_network_estimate_keeps)
  qed
  ultimately show ?thesis by simp
qed

text \<open>C21. The upper limit is not safe. The first throughput measured after the initialisation time (five seconds
  from the first update with an estimate) becomes the current bitrate unchecked; when the update that
  ends the initialisation reports an over-use, the clamp keeps the new bitrate near the capacity
  estimate, which the measured throughput has just set. So after any updates of a new controller
  within the initialisation time, none of which reported an over-use, an over-use reported later with
  a measured throughput from 125 Mbit/s to 1 Gbit/s gives a target above the configured maximum
  (100 Mbit/s).\<close>

theorem gcc_overuse_breaks_maximum:
  assumes "estimated_throughput i0 \<noteq> None" "bw_state i0 \<noteq> kBwOverusing" "t0 \<noteq> I64_MIN"
    and "\<forall>(i, u) \<in> set us. bw_state i \<noteq> kBwOverusing \<and> i64_sub u t0 \<le> 5000"
    and "5000 < i64_sub t t0" "bounded64 125000000 1000000000 thr"
  shows "f64_less GCC_MAX_CONFIGURED_BITRATE
    (fst (Aimd_Update powf \<lparr>bw_state = kBwOverusing, estimated_throughput = Some thr\<rparr> t
      (aimd_run powf ((i0, t0) # us) (AimdRateControl_new send fps))))"
proof -
  have "initialising t0 (snd (Aimd_Update powf i0 t0 (AimdRateControl_new send fps)))"
    using assms(1,2) by (auto simp: initialising_def Aimd_Update_def initialize_bitrate_def ChangeBitrate_alt with_throughput_def
        AimdRateControl_new_def Let_def rate_limits_def)
  from initialising_run [OF this assms(3,4)] have "initialising t0 (aimd_run powf ((i0, t0) # us) (AimdRateControl_new send fps))"
    by (simp add: aimd_run_def)
  from overuse_ends_initialisation [OF this assms(3,5,6)] show ?thesis .
qed

theorem gcc_overuse_breaks_maximum_witness:
  "f64_less GCC_MAX_CONFIGURED_BITRATE
    (fst (Aimd_Update (\<lambda>x y. x) \<lparr>bw_state = kBwOverusing, estimated_throughput = Some (f64_lit 200000000)\<rparr> 5001
      (aimd_run (\<lambda>x y. x) [(\<lparr>bw_state = kBwNormal, estimated_throughput = Some GCC_MAX_CONFIGURED_BITRATE\<rparr>, 0),
          (\<lparr>bw_state = kBwUnderusing, estimated_throughput = Some (f64_lit 200000000)\<rparr>, 16)] (AimdRateControl_new True (f64_lit 90)))))"
  by (rule gcc_overuse_breaks_maximum)
    (simp_all add: I64_MIN_def i64_sub_def i64_wrap_def bounded64_def f64_rat_numeral)

section \<open>The over-use detector\<close>

definition over_threshold :: "trendline_estimator \<Rightarrow> bool" where
  "over_threshold t \<longleftrightarrow> f64_less (current_threshold_for_testing t) (current_trend_for_testing t)"

definition threshold_ok :: "f64 \<Rightarrow> bool" where
  "threshold_ok thr \<longleftrightarrow> f64_is_nan thr \<or> f64_le (f64_lit 6) thr \<and> f64_le thr (f64_lit 600)"

definition trend_ok :: "trendline_estimator \<Rightarrow> bool" where
  "trend_ok t \<longleftrightarrow> length (delay_hist t) \<le> GCC_WINDOW_SIZE \<and> 0 \<le> num_of_deltas t \<and> num_of_deltas t \<le> 1000 \<and>
     threshold_ok (threshold t) \<and>
     (overuse_counter t \<noteq> 0 \<longrightarrow> over_threshold t)"

lemma UpdateThreshold_keeps:
  "delay_hist (UpdateThreshold m now t) = delay_hist t"
  "num_of_deltas (UpdateThreshold m now t) = num_of_deltas t"
  "overuse_counter (UpdateThreshold m now t) = overuse_counter t"
  "hypothesis (UpdateThreshold m now t) = hypothesis t"
  "prev_trend (UpdateThreshold m now t) = prev_trend t"
  "current_threshold_for_testing (UpdateThreshold m now t) = current_threshold_for_testing t"
  "current_trend_for_testing (UpdateThreshold m now t) = current_trend_for_testing t"
  by (simp_all add: UpdateThreshold_def Let_def)

lemma threshold_clamped: "threshold_ok (clamp_threshold thr)"
proof -
  have c: "f64_rat (f64_lit 6) = Some 6" "f64_rat (f64_lit 600) = Some 600" by (rule f64_rat_numeral(3), simp)+
  note n = f64_rat_not_nan [OF c(1)] f64_rat_not_nan [OF c(2)]
  have "f64_le (f64_lit 6) (f64_lit 6)" "f64_le (f64_lit 600) (f64_lit 600)" "f64_le (f64_lit 6) (f64_lit 600)"
    using f64_le_rat [OF c] f64_le_refl n by simp_all
  then show ?thesis using f64_not_less [OF n(2), of thr] f64_not_less [of thr, OF _ n(1)]
    by (auto simp: threshold_ok_def clamp_threshold_def)
qed

lemma UpdateThreshold_bounds: "threshold_ok (threshold t) \<Longrightarrow> threshold_ok (threshold (UpdateThreshold m now t))"
  by (simp add: UpdateThreshold_def Let_def threshold_clamped)

text \<open>What the comparison with the threshold leaves.\<close>

lemma compare_trend_effect:
  "delay_hist (compare_trend m trend d t) = delay_hist t"
  "num_of_deltas (compare_trend m trend d t) = num_of_deltas t"
  "threshold (compare_trend m trend d t) = threshold t"
  "overuse_counter (compare_trend m trend d t) \<noteq> 0 \<longrightarrow> f64_less (threshold t) m"
  "hypothesis t \<noteq> kBwOverusing \<Longrightarrow> hypothesis (compare_trend m trend d t) = kBwOverusing \<Longrightarrow>
   overuse_counter t \<noteq> 0 \<and> f64_less (threshold t) m \<and> f64_le (prev_trend t) trend"
  by (auto simp: compare_trend_def Let_def i64_add_def i64_wrap_def split: if_splits)

lemma Detect_effect:
  fixes t trend d now
  defines "t' \<equiv> Detect trend d now t"
  assumes "2 \<le> num_of_deltas t"
  shows "delay_hist t' = delay_hist t" "num_of_deltas t' = num_of_deltas t" "prev_trend t' = trend"
    "overuse_counter t' \<noteq> 0 \<longrightarrow> over_threshold t'" "threshold_ok (threshold t) \<Longrightarrow> threshold_ok (threshold t')"
    "hypothesis t \<noteq> kBwOverusing \<Longrightarrow> hypothesis t' = kBwOverusing \<Longrightarrow>
     overuse_counter t \<noteq> 0 \<and> over_threshold t' \<and> f64_le (prev_trend t) trend"
  using assms(2) compare_trend_effect(4) [of _ trend d "t\<lparr>prev_modified_trend := _\<rparr>"]
    compare_trend_effect(5) [of "t\<lparr>prev_modified_trend := _\<rparr>" _ trend d]
  by (simp_all add: t'_def Detect_def Let_def UpdateThreshold_keeps UpdateThreshold_bounds compare_trend_effect(1-3)
      over_threshold_def)

lemma record_delay_keeps:
  "threshold (record_delay x a t) = threshold t" "prev_trend (record_delay x a t) = prev_trend t"
  "overuse_counter (record_delay x a t) = overuse_counter t" "hypothesis (record_delay x a t) = hypothesis t"
  "over_threshold (record_delay x a t) = over_threshold t"
  "num_of_deltas (record_delay x a t) = min (i64_add (num_of_deltas t) 1) 1000"
  "time_over_using (record_delay x a t) = time_over_using t" "threshold_gain (record_delay x a t) = threshold_gain t"
  "overusing_time_threshold (record_delay x a t) = overusing_time_threshold t"
  "length (delay_hist t) \<le> GCC_WINDOW_SIZE \<Longrightarrow> length (delay_hist (record_delay x a t)) \<le> GCC_WINDOW_SIZE"
  by (simp_all add: record_delay_def Let_def over_threshold_def)

lemma record_delay_deltas:
  assumes "trend_ok t"
  shows "0 \<le> num_of_deltas (record_delay x a t)" "num_of_deltas (record_delay x a t) \<le> 1000"
  using assms i64_wrap_small [of "num_of_deltas t + 1"]
  by (simp_all add: trend_ok_def record_delay_keeps i64_add_def I64_MIN_def I64_MAX_def)

text \<open>C19. The over-use detector confirms an over-use before it reports it. Its window holds at most twenty samples, its
  adaptive threshold stays between 6 and 600 (or is not a number), and the hypothesis changes to over-use only
  when the sample before and this sample both exceeded their thresholds and the trend is not falling.\<close>

theorem overuse_confirmed:
  "trend_ok TrendlineEstimator_new \<and>
   (trend_ok t \<longrightarrow> trend_ok (UpdateTrendline r d st a n t)) \<and>
   (trend_ok t \<and> hypothesis t \<noteq> kBwOverusing \<and> hypothesis (UpdateTrendline r d st a n t) = kBwOverusing \<longrightarrow>
    over_threshold t \<and> over_threshold (UpdateTrendline r d st a n t) \<and>
    f64_le (prev_trend t) (prev_trend (UpdateTrendline r d st a n t)))"
proof (intro conjI impI)
  have "f64_le (f64_lit 6) (f64_lit (25 / 2))" "f64_le (f64_lit (25 / 2)) (f64_lit 600)" by (rule f64_lit_mono, simp)+
  then show "trend_ok TrendlineEstimator_new" by (simp add: trend_ok_def TrendlineEstimator_new_def threshold_ok_def)
next
  assume t: "trend_ok t"
  let ?t1 = "record_delay (f64_sub r d) a t"
  show "trend_ok (UpdateTrendline r d st a n t)"
  proof (cases "num_of_deltas ?t1 < 2")
    case True
    then have "UpdateTrendline r d st a n t = ?t1\<lparr>hypothesis := kBwNormal\<rparr>"
      by (simp add: UpdateTrendline_def Detect_def Let_def)
    moreover have "over_threshold (?t1\<lparr>hypothesis := kBwNormal\<rparr>) = over_threshold ?t1" by (simp add: over_threshold_def)
    ultimately show ?thesis
      using t record_delay_deltas [OF t] by (simp add: trend_ok_def record_delay_keeps)
  next
    case False
    then have "2 \<le> num_of_deltas ?t1" by simp
    note e = Detect_effect [OF this, of "fit_trend ?t1" d a]
    have "trend_ok ?t1" using t record_delay_deltas [OF t] by (simp add: trend_ok_def record_delay_keeps)
    with e(1,2,4,5) show ?thesis unfolding trend_ok_def UpdateTrendline_def Let_def by simp
  qed
next
  let ?t1 = "record_delay (f64_sub r d) a t"
  assume t: "trend_ok t \<and> hypothesis t \<noteq> kBwOverusing \<and> hypothesis (UpdateTrendline r d st a n t) = kBwOverusing"
  then have "2 \<le> num_of_deltas ?t1"
    by (cases "num_of_deltas ?t1 < 2") (simp_all add: UpdateTrendline_def Detect_def Let_def)
  from Detect_effect(3,6) [OF this, of "fit_trend ?t1" d a] t
  show "over_threshold t" "over_threshold (UpdateTrendline r d st a n t)"
    "f64_le (prev_trend t) (prev_trend (UpdateTrendline r d st a n t))"
    by (auto simp: trend_ok_def UpdateTrendline_def record_delay_keeps Let_def)
qed

theorem overuse_confirmed_witness:
  "let t = TrendlineEstimator_new\<lparr>num_of_deltas := 60, prev_trend := f64_lit 1, overuse_counter := 1,
         time_over_using := f64_lit 10, current_trend_for_testing := f64_lit 20,
         current_threshold_for_testing := f64_lit 12\<rparr>;
       t' = UpdateTrendline (f64_lit 6) (f64_lit 5) 0 100 1500 t
   in hypothesis t \<noteq> kBwOverusing \<and> hypothesis t' = kBwOverusing \<and> over_threshold t \<and> over_threshold t' \<and>
      f64_le (prev_trend t) (prev_trend t')"
proof -
  let ?t = "TrendlineEstimator_new\<lparr>num_of_deltas := 60, prev_trend := f64_lit 1, overuse_counter := 1,
         time_over_using := f64_lit 10, current_trend_for_testing := f64_lit 20,
         current_threshold_for_testing := f64_lit 12\<rparr>"
  let ?u = "UpdateTrendline (f64_lit 6) (f64_lit 5) 0 100 1500 ?t"
  let ?t1 = "record_delay (f64_sub (f64_lit 6) (f64_lit 5)) 100 ?t"
  let ?m = "f64_mul (f64_mul (f64_of_i64 60) (f64_lit 1)) (f64_lit 4)"
  have l: "f64_rat (f64_lit 4) = Some 4" "f64_rat (f64_lit 5) = Some 5" "f64_rat (f64_lit 10) = Some 10"
    "f64_rat (f64_lit 12) = Some 12" "f64_rat (f64_lit 20) = Some 20" "f64_rat (f64_of_i64 60) = Some 60"
    "f64_rat (f64_lit (25 / 2)) = Some (25 / 2)" "f64_rat (f64_neg (f64_lit 1)) = Some (- 1)"
    using f64_rat_int(2) [of 60] f64_rat_neg [OF f64_rat_numeral(2)]
    by (simp_all add: f64_rat_numeral) code_simp
  have "rep64 (60 * 1)" "rep64 (60 * 1 * 4)" "rep64 (10 + 5)" using rep64_numeral(3) by simp_all
  note m = f64_exact(3) [OF f64_exact(3) [OF l(6) f64_rat_numeral(2) this(1)] l(1) this(2)]
    and s = f64_exact(1) [OF l(3,2) this(3)]
  have cmp: "f64_less (f64_lit (25 / 2)) ?m" "\<not> f64_eq (f64_lit 10) (f64_neg (f64_lit 1))"
    "f64_less (f64_lit 10) (f64_add (f64_lit 10) (f64_lit 5))" "f64_le (f64_lit 1) (f64_lit 1)"
    "f64_less (f64_lit 12) (f64_lit 20)"
    using f64_less_rat [OF l(7) m] f64_eq_rat [OF l(3,8)] f64_less_rat [OF l(3) s] f64_less_rat [OF l(4,5)]
      f64_le_rat [OF f64_rat_numeral(2,2)] by simp_all
  have i: "i64_add 60 1 = 61" "i64_add 1 1 = 2" by (simp_all add: i64_add_def i64_wrap_def)
  have ok: "trend_ok ?t" "hypothesis ?t \<noteq> kBwOverusing"
    using overuse_confirmed cmp(5) by (simp_all add: trend_ok_def over_threshold_def TrendlineEstimator_new_def)
  have "fit_trend ?t1 = f64_lit 1"
    by (simp add: fit_trend_def record_delay_def Let_def TrendlineEstimator_new_def GCC_WINDOW_SIZE_def)
  then have "hypothesis ?u = kBwOverusing"
    using cmp i by (simp add: UpdateTrendline_def Detect_def UpdateThreshold_keeps compare_trend_def record_delay_keeps Let_def)
      (simp add: TrendlineEstimator_new_def)
  with ok overuse_confirmed [of ?t "f64_lit 6" "f64_lit 5" 0 100 1500] show ?thesis by (simp add: Let_def)
qed

section \<open>Inter-arrival grouping\<close>

definition inter_arrival_ok :: "inter_arrival \<Rightarrow> bool" where
  "inter_arrival_ok s \<longleftrightarrow> kReorderedResetThreshold s = 3 \<and> 0 \<le> num_consecutive_reordered_packets s \<and>
     num_consecutive_reordered_packets s < 3 \<and>
     first_timestamp (current_timestamp_group s) \<le> timestamp (current_timestamp_group s)"

lemma InterArrival_new_ok: "inter_arrival_ok (InterArrival_new n c)"
  by (simp add: inter_arrival_ok_def InterArrival_new_def TimestampGroup_default_def)

text \<open>Every packet keeps the group's stamps ordered and the count of reordered groups below the threshold at which
  the third one in a row resets the computation.\<close>

lemma ComputeDeltas_ok:
  assumes "inter_arrival_ok s"
  shows "inter_arrival_ok (fst (snd (ComputeDeltas ts arrival st n s d)))"
proof -
  have "i64_add x 1 = x + 1" if "0 \<le> x" "x < 3" for x
    using that i64_wrap_small [of "x + 1"] by (simp add: i64_add_def I64_MIN_def I64_MAX_def)
  then show ?thesis using assms
    by (simp add: ComputeDeltas_def Let_def inter_arrival_ok_def accumulate_frame_size_def InterArrival_Reset_def
        TimestampGroup_default_def)
qed

end
