(* ===== verification/Nada_Control.thy ===== *)
theory Nada_Control
  imports Gcc_Estimator
begin

text \<open>
  The NADA congestion control of \<^verbatim>\<open>examples/lib/gcc_nada_estimator.rs\<close>: the sender, which turns feedback reports
  into a reference rate, the receiver, which measures delay, loss and receive rate and builds the
  reports, and the sliding window of \<^verbatim>\<open>examples/lib/mod.rs\<close> that both use. A \<open>now\<close> in nanoseconds is the
  duration since the epoch that the simulation's clock reading stands for; a \<open>wall\<close> in nanoseconds is a reading of
  the machine's monotonic clock. Integer arithmetic wraps. The CSV writer is left out.
\<close>

section \<open>Sliding window average\<close>

record 'a sliding_window_average =
  history_buffer :: "'a list"
  max_history_size :: nat

definition SlidingWindowAverage_new :: "'a \<Rightarrow> nat \<Rightarrow> 'a sliding_window_average" where
  "SlidingWindowAverage_new initial_value n = \<lparr>history_buffer = [initial_value], max_history_size = n\<rparr>"

definition sliding_clear :: "'a sliding_window_average \<Rightarrow> 'a sliding_window_average" where
  "sliding_clear w = w\<lparr>history_buffer := []\<rparr>"

definition submit_sample :: "'a \<Rightarrow> 'a sliding_window_average \<Rightarrow> 'a sliding_window_average" where
  "submit_sample sample w =
     (let buf = (if max_history_size w \<le> length (history_buffer w) then tl (history_buffer w) else history_buffer w)
      in w\<lparr>history_buffer := buf @ [sample]\<rparr>)"

definition sliding_retain :: "nat \<Rightarrow> 'a sliding_window_average \<Rightarrow> 'a sliding_window_average" where
  "sliding_retain count w = w\<lparr>history_buffer := drop (length (history_buffer w) - count) (history_buffer w)\<rparr>"

definition get_average :: "i64 sliding_window_average \<Rightarrow> f32" where
  "get_average w =
     f32_div (f32_of_i64 (i64_wrap (sum_list (history_buffer w)))) (f32_of_nat (length (history_buffer w)))"

section \<open>Parameters\<close>

definition RMCAT_CC_DEFAULT_RMIN :: i64 where
  "RMCAT_CC_DEFAULT_RMIN = f64_to_i64 GCC_MIN_CONFIGURED_BITRATE"

definition RMCAT_CC_DEFAULT_RMAX :: i64 where
  "RMCAT_CC_DEFAULT_RMAX = f64_to_i64 GCC_MAX_CONFIGURED_BITRATE"

definition NADA_INITIAL_RATE :: i64 where
  "NADA_INITIAL_RATE = RMCAT_CC_DEFAULT_RMAX"

definition NADA_PARAM_PRIO :: f64 where "NADA_PARAM_PRIO = f64_lit 1"
definition NADA_PARAM_XREF :: i64 where "NADA_PARAM_XREF = 20"
definition NADA_PARAM_KAPPA :: f64 where "NADA_PARAM_KAPPA = f64_lit (1 / 2)"
definition NADA_PARAM_ETA :: f64 where "NADA_PARAM_ETA = f64_lit 2"
definition NADA_PARAM_TAU :: i64 where "NADA_PARAM_TAU = 500"
definition NADA_PARAM_DELTA :: i64 where "NADA_PARAM_DELTA = 100"
definition NADA_PARAM_DFILT :: i64 where "NADA_PARAM_DFILT = 120"
definition NADA_PARAM_LOGWIN :: i64 where "NADA_PARAM_LOGWIN = 500"
definition NADA_PARAM_QEPS_US :: i64 where "NADA_PARAM_QEPS_US = 10000"
definition NADA_PARAM_QTH :: i64 where "NADA_PARAM_QTH = 50"
definition NADA_PARAM_QMAX :: i64 where "NADA_PARAM_QMAX = 400"
definition NADA_PARAM_DLOSS :: i64 where "NADA_PARAM_DLOSS = 10"
definition NADA_PARAM_DLOSS_RFC_MS :: f64 where "NADA_PARAM_DLOSS_RFC_MS = f64_lit 1000"
definition NADA_PARAM_DMARK :: i64 where "NADA_PARAM_DMARK = 200"
definition NADA_PARAM_GAMMA_MAX :: f64 where "NADA_PARAM_GAMMA_MAX = f64_lit (1 / 2)"
definition NADA_PARAM_QBOUND :: i64 where "NADA_PARAM_QBOUND = 50"
definition NADA_PARAM_BETA_S :: f64 where "NADA_PARAM_BETA_S = f64_lit (1 / 10)"
definition NADA_PARAM_BETA_V :: f64 where "NADA_PARAM_BETA_V = f64_lit (1 / 10)"
definition NADA_PARAM_ALPHA :: f64 where "NADA_PARAM_ALPHA = f64_lit (1 / 10)"
definition NADA_RTT_HISTORY_SIZE :: nat where "NADA_RTT_HISTORY_SIZE = 15"

section \<open>The sender\<close>

record nada_feedback_report =
  fb_rmode :: int
  fb_x_curr :: f64
  fb_r_recv :: i64
  fb_d_queue :: i64
  fb_d_tilde :: f64
  fb_p_loss :: f64

datatype rate_update_mode = AcceleratedRampUp | GradualUpdate

record nada_sender =
  r_ref :: i64
  rtt_history :: "i64 sliding_window_average"
  r_recv :: i64
  rate_mode :: rate_update_mode
  x_curr :: f64
  x_prev :: f64
  r_vin :: i64
  r_send :: i64
  prev_r_vin :: i64
  prev_r_send :: i64
  t_last :: i64
  t_curr :: i64
  snd_d_queue :: i64
  snd_d_tilde :: f64
  snd_p_loss :: f64

definition NadaSender_new :: "nat \<Rightarrow> nada_sender" where
  "NadaSender_new now =
     \<lparr>r_ref = NADA_INITIAL_RATE, rtt_history = SlidingWindowAverage_new 0 NADA_RTT_HISTORY_SIZE,
      r_recv = NADA_INITIAL_RATE, rate_mode = GradualUpdate, x_curr = f64_lit 0, x_prev = f64_lit 0,
      r_vin = NADA_INITIAL_RATE, r_send = NADA_INITIAL_RATE, prev_r_vin = NADA_INITIAL_RATE,
      prev_r_send = NADA_INITIAL_RATE, t_last = as_micros_i64 now, t_curr = as_micros_i64 now,
      snd_d_queue = 0, snd_d_tilde = f64_lit 0, snd_p_loss = f64_lit 0\<rparr>"

definition NadaSender_new_at :: "nat \<Rightarrow> f64 \<Rightarrow> nada_sender" where
  "NadaSender_new_at now rate_bps =
     (let r = i64_clamp (f64_to_i64 rate_bps) RMCAT_CC_DEFAULT_RMIN RMCAT_CC_DEFAULT_RMAX
      in (NadaSender_new now)\<lparr>r_ref := r, r_recv := r, r_vin := r, r_send := r, prev_r_vin := r, prev_r_send := r\<rparr>)"

definition update_accelerated_rampup :: "nada_sender \<Rightarrow> i64" where
  "update_accelerated_rampup s =
     (let rtt_average_ms = f32_div (get_average (rtt_history s)) (f32_lit 1000);
          res = f64_div (f64_of_i64 NADA_PARAM_QBOUND)
            (f64_add (f64_add (f64_of_f32 rtt_average_ms) (f64_of_i64 NADA_PARAM_DELTA)) (f64_of_i64 NADA_PARAM_DFILT));
          gamma = (if f64_less res NADA_PARAM_GAMMA_MAX then res else NADA_PARAM_GAMMA_MAX);
          result = f64_mul (f64_add (f64_lit 1) gamma) (f64_of_i64 (r_recv s))
      in if f64_less result (f64_of_i64 (r_ref s)) then r_ref s else f64_to_i64 (f64_round result))"

text \<open>The congestion signal at which the gradual update leaves the reference rate alone.\<close>

definition reference_signal :: "i64 \<Rightarrow> f64" where
  "reference_signal rate =
     f64_div (f64_mul (f64_mul NADA_PARAM_PRIO (f64_of_i64 NADA_PARAM_XREF)) (f64_of_i64 RMCAT_CC_DEFAULT_RMAX))
       (f64_of_i64 rate)"

definition update_gradual :: "i64 \<Rightarrow> nada_sender \<Rightarrow> i64" where
  "update_gradual delta_us s =
     (let delta = f64_div (f64_of_i64 delta_us) (f64_lit 1000);
          tau = f64_of_i64 NADA_PARAM_TAU;
          rr = f64_of_i64 (r_ref s);
          x_offset = f64_sub (x_curr s) (reference_signal (r_ref s));
          x_diff = f64_sub (x_curr s) (x_prev s);
          updated = f64_sub
            (f64_sub rr
              (f64_mul (f64_mul (f64_mul NADA_PARAM_KAPPA (f64_div delta tau)) (f64_div x_offset tau)) rr))
            (f64_mul (f64_mul (f64_mul NADA_PARAM_KAPPA NADA_PARAM_ETA) (f64_div x_diff tau)) rr)
      in f64_to_i64 (f64_round updated))"

definition shaping_buffer_len :: "f64 \<Rightarrow> f64" where
  "shaping_buffer_len buffer_len =
     (if f64_eq buffer_len (f64_lit 0)
      then f64_div (f64_div (f64_of_i64 RMCAT_CC_DEFAULT_RMAX) (f64_lit 8)) (f64_lit 1500)
      else buffer_len)"

definition update_target_bitrate :: "f64 \<Rightarrow> f64 \<Rightarrow> nada_sender \<Rightarrow> nada_sender" where
  "update_target_bitrate buffer_len video_fps s =
     (let s = s\<lparr>prev_r_vin := r_vin s\<rparr>;
          r_diff_v = f64_min (f64_mul (f64_of_i64 (r_ref s)) (f64_lit (1 / 20)))
            (f64_mul (f64_mul (f64_mul NADA_PARAM_BETA_V (f64_lit 8)) (shaping_buffer_len buffer_len)) video_fps)
      in s\<lparr>r_vin := max RMCAT_CC_DEFAULT_RMIN (f64_to_i64 (f64_round (f64_sub (f64_of_i64 (r_ref s)) r_diff_v)))\<rparr>)"

definition update_sending_bitrate :: "f64 \<Rightarrow> f64 \<Rightarrow> nada_sender \<Rightarrow> nada_sender" where
  "update_sending_bitrate buffer_len video_fps s =
     (let r_diff_s = f64_min (f64_mul (f64_of_i64 (r_ref s)) (f64_lit (1 / 20)))
            (f64_mul (f64_mul (f64_mul NADA_PARAM_BETA_S (f64_lit 8)) (shaping_buffer_len buffer_len)) video_fps)
      in s\<lparr>r_send := min RMCAT_CC_DEFAULT_RMAX (f64_to_i64 (f64_round (f64_add (f64_of_i64 (r_ref s)) r_diff_s)))\<rparr>)"

definition update_on_receive_feedback :: "nat \<Rightarrow> i64 \<Rightarrow> nada_feedback_report \<Rightarrow> f64 \<Rightarrow> nada_sender \<Rightarrow> nada_sender" where
  "update_on_receive_feedback now send_timestamp report video_fps s =
     (let s = s\<lparr>t_curr := as_micros_i64 now,
                rate_mode := if fb_rmode report = 0 then AcceleratedRampUp else GradualUpdate,
                x_curr := fb_x_curr report, r_recv := fb_r_recv report,
                snd_d_queue := fb_d_queue report, snd_d_tilde := fb_d_tilde report\<rparr>;
          s = s\<lparr>rtt_history := submit_sample (i64_sub (t_curr s) send_timestamp) (rtt_history s)\<rparr>;
          delta_us = i64_sub (t_curr s) (t_last s);
          updated_r_ref = (case rate_mode s of
             AcceleratedRampUp \<Rightarrow> update_accelerated_rampup s
           | GradualUpdate \<Rightarrow> update_gradual delta_us s);
          s = s\<lparr>r_ref := i64_clamp updated_r_ref RMCAT_CC_DEFAULT_RMIN RMCAT_CC_DEFAULT_RMAX,
                t_last := t_curr s, x_prev := x_curr s, prev_r_vin := r_vin s, prev_r_send := r_send s\<rparr>;
          use_shaping_buffer = False
      in if use_shaping_buffer then
           update_sending_bitrate (f64_lit 0) video_fps (update_target_bitrate (f64_lit 0) video_fps s)
         else s\<lparr>r_vin := r_ref s, r_send := r_ref s\<rparr>)"

definition update_on_timer_feedback :: "nat \<Rightarrow> nada_feedback_report \<Rightarrow> f64 \<Rightarrow> nada_sender \<Rightarrow> nada_sender" where
  "update_on_timer_feedback now report video_fps s =
     (let t = as_micros_i64 now; rtt = f32_to_i64 (get_average (rtt_history s))
      in update_on_receive_feedback now (i64_sub t rtt) report video_fps s)"

section \<open>The receiver\<close>

record nada_receiver =
  d_base :: i64
  rcv_d_tilde :: f64
  rcv_d_queue :: i64
  p_loss :: f64
  p_mark :: f64
  rcv_r_recv :: i64
  rcv_t_last :: i64
  d_queue_history :: "i64 sliding_window_average"
  rcv_x_curr :: f64
  rcv_rmode :: rate_update_mode
  last_t_send :: i64
  last_t_arrival :: i64
  total_received_bytes :: nat
  total_num_packets :: nat
  total_packets_lost :: nat
  receive_rate_timer :: nat
  rate_window_t0_us :: i64
  last_loss_us :: "i64 option"
  iv_frames :: nat
  iv_losses :: nat
  seen_frame :: bool
  last_shards :: nat
  report_seq :: nat

definition NadaReceiver_new :: "nat \<Rightarrow> nada_receiver" where
  "NadaReceiver_new wall =
     \<lparr>d_base = I64_MAX, rcv_d_tilde = f64_lit 0, rcv_d_queue = 0, p_loss = f64_lit 0, p_mark = f64_lit 0,
      rcv_r_recv = 0, rcv_t_last = 0, d_queue_history = SlidingWindowAverage_new 0 15, rcv_x_curr = f64_lit 0,
      rcv_rmode = GradualUpdate, last_t_send = 0, last_t_arrival = 0, total_received_bytes = 0,
      total_num_packets = 0, total_packets_lost = 0, receive_rate_timer = wall, rate_window_t0_us = 0,
      last_loss_us = None, iv_frames = 0, iv_losses = 0, seen_frame = False, last_shards = 0, report_seq = 0\<rparr>"

definition u32_add :: "nat \<Rightarrow> nat \<Rightarrow> nat" where
  "u32_add a b = (a + b) mod 2 ^ 32"

definition compute_oneway_delay :: "i64 \<Rightarrow> i64 \<Rightarrow> nada_receiver \<Rightarrow> nada_receiver" where
  "compute_oneway_delay send_us arrival_us r =
     (let d_fwd = i64_sub arrival_us send_us;
          r = r\<lparr>d_base := min (d_base r) d_fwd\<rparr>;
          r = r\<lparr>rcv_d_queue := i64_sub d_fwd (d_base r)\<rparr>
      in r\<lparr>d_queue_history := submit_sample (rcv_d_queue r) (d_queue_history r),
           last_t_send := send_us, last_t_arrival := arrival_us\<rparr>)"

definition compute_d_tilde :: "bool \<Rightarrow> nada_receiver \<Rightarrow> nada_receiver" where
  "compute_d_tilde had_packet_loss r =
     (if had_packet_loss then
        if rcv_d_queue r < NADA_PARAM_QTH then r\<lparr>rcv_d_tilde := f64_of_i64 (rcv_d_queue r)\<rparr>
        else if NADA_PARAM_QTH < rcv_d_queue r \<and> rcv_d_queue r < NADA_PARAM_QMAX then
          (let numerator = i64_wrap ((NADA_PARAM_QTH - rcv_d_queue r) ^ 4);
               denominator = i64_wrap ((NADA_PARAM_QMAX - NADA_PARAM_QTH) ^ 4)
           in r\<lparr>rcv_d_tilde := f64_mul (f64_of_i64 NADA_PARAM_QTH) (f64_of_i64 (numerator sdiv denominator))\<rparr>)
        else r\<lparr>rcv_d_tilde := f64_lit 0\<rparr>
      else r)"

definition exists_queuing_delay_buildup :: "nada_receiver \<Rightarrow> bool" where
  "exists_queuing_delay_buildup r = list_ex (\<lambda>v. NADA_PARAM_QEPS_US < v) (history_buffer (d_queue_history r))"

definition determine_rate_adaptation_mode :: "bool \<Rightarrow> nada_receiver \<Rightarrow> nada_receiver" where
  "determine_rate_adaptation_mode had_packet_loss r =
     (let r = r\<lparr>rcv_rmode := AcceleratedRampUp\<rparr>;
          r = (if had_packet_loss then r\<lparr>rcv_rmode := GradualUpdate\<rparr> else r)
      in if exists_queuing_delay_buildup r then r\<lparr>rcv_rmode := GradualUpdate\<rparr> else r)"

definition time_to_report_feedback :: "nat \<Rightarrow> bool \<Rightarrow> bool \<Rightarrow> nada_receiver \<Rightarrow> bool \<times> nada_receiver" where
  "time_to_report_feedback now had_packet_loss had_packet_mark r =
     (let t = as_micros_i64 now;
          time_diff_ms = i64_sub t (rcv_t_last r) sdiv 1000
      in if NADA_PARAM_DELTA < time_diff_ms then
           (let r = r\<lparr>rcv_d_tilde := f64_div (f64_of_f32 (get_average (d_queue_history r))) (f64_lit 1000)\<rparr>;
                r = (if had_packet_loss then compute_d_tilde had_packet_loss r else r);
                r = (if had_packet_mark then r\<lparr>p_mark := f64_add (p_mark r) (f64_lit 1)\<rparr> else r);
                r = r\<lparr>rcv_x_curr := f64_add
                       (f64_add (rcv_d_tilde r) (f64_mul (p_mark r) (f64_of_i64 NADA_PARAM_DMARK)))
                       (f64_mul (p_loss r) (f64_of_i64 NADA_PARAM_DLOSS))\<rparr>
            in (True, determine_rate_adaptation_mode had_packet_loss r))
         else (False, r))"

definition update_t_last :: "nat \<Rightarrow> nada_receiver \<Rightarrow> nada_receiver" where
  "update_t_last now r = r\<lparr>rcv_t_last := as_micros_i64 now\<rparr>"

definition record_lost_shards :: "nat \<Rightarrow> nat \<Rightarrow> i64 \<Rightarrow> nada_receiver \<Rightarrow> nada_receiver" where
  "record_lost_shards lost expected now_us r =
     (let r = r\<lparr>total_packets_lost := u32_add (total_packets_lost r) (lost mod 2 ^ 32),
                total_num_packets := u32_add (total_num_packets r) (expected mod 2 ^ 32)\<rparr>;
          r = (if 0 < lost then r\<lparr>last_loss_us := Some now_us\<rparr> else r)
      in r\<lparr>iv_losses := u32_add (iv_losses r) 1\<rparr>)"

text \<open>The size of a duration and of a 64-bit stamp are added to every frame's bytes.\<close>

definition frame_bytes :: "nat \<Rightarrow> nat" where
  "frame_bytes received_bytes = received_bytes + 16 + 8"

definition accumulate_frame :: "nat \<Rightarrow> nat \<Rightarrow> nada_receiver \<Rightarrow> nada_receiver" where
  "accumulate_frame received_bytes shards r =
     r\<lparr>total_received_bytes := (total_received_bytes r + frame_bytes received_bytes) mod 2 ^ 64,
       total_num_packets := u32_add (total_num_packets r) shards,
       iv_frames := u32_add (iv_frames r) 1, seen_frame := True, last_shards := shards\<rparr>"

definition warp_rfc :: "f64 \<Rightarrow> f64" where
  "warp_rfc d_queue_ms =
     (let qth = f64_of_i64 NADA_PARAM_QTH; qmax = f64_of_i64 NADA_PARAM_QMAX
      in if f64_less d_queue_ms qth then d_queue_ms
         else if f64_less d_queue_ms qmax then
           f64_mul qth (f64_powi4 (f64_div (f64_sub qmax d_queue_ms) (f64_sub qmax qth)))
         else f64_lit 0)"

text \<open>The smoothed loss ratio of a window, and the window's counters cleared.\<close>

definition smooth_loss :: "nada_receiver \<Rightarrow> f64" where
  "smooth_loss r =
     (let p_inst = (if 0 < total_num_packets r
                    then f64_div (f64_of_nat (total_packets_lost r)) (f64_of_nat (total_num_packets r)) else f64_lit 0)
      in f64_add (f64_mul NADA_PARAM_ALPHA p_inst) (f64_mul (f64_sub (f64_lit 1) NADA_PARAM_ALPHA) (p_loss r)))"

definition rmode_code :: "rate_update_mode \<Rightarrow> int" where
  "rmode_code m = (case m of AcceleratedRampUp \<Rightarrow> 0 | GradualUpdate \<Rightarrow> 1)"

definition frames_due :: "i64 \<Rightarrow> f64 \<Rightarrow> nat" where
  "frames_due interval_us fps =
     f64_to_u32 (f64_floor (f64_div (f64_mul (f64_of_i64 interval_us) fps) (f64_lit 1000000)))"

text \<open>The frames due in an interval in which nothing was received, charged as lost.\<close>

definition charge_silence :: "i64 \<Rightarrow> f64 \<Rightarrow> nada_receiver \<Rightarrow> nada_receiver" where
  "charge_silence now_us fps r =
     (if iv_frames r = 0 \<and> iv_losses r = 0 \<and> seen_frame r then
        (let due = frames_due (i64_sub now_us (rcv_t_last r)) fps
         in if 0 < due then
              r\<lparr>total_packets_lost := u32_add (total_packets_lost r) (due * last_shards r mod 2 ^ 32),
                total_num_packets := u32_add (total_num_packets r) (due * last_shards r mod 2 ^ 32),
                last_loss_us := Some now_us\<rparr>
            else r)
      else r)"

definition timer_report ::
  "i64 \<Rightarrow> f64 \<Rightarrow> nada_receiver \<Rightarrow> (int \<times> f64 \<times> i64 \<times> f64 \<times> f64 \<times> i64) option \<times> nada_receiver" where
  "timer_report now_us fps r =
     (if i64_sub now_us (rcv_t_last r) sdiv 1000 \<le> NADA_PARAM_DELTA then (None, r)
      else
        (let interval_us = i64_sub now_us (rcv_t_last r);
             r = charge_silence now_us fps r;
             r = r\<lparr>rcv_r_recv := f64_to_i64 (f64_round
                    (f64_div (f64_of_nat (total_received_bytes r * 8 mod 2 ^ 64))
                      (f64_div (f64_of_i64 interval_us) (f64_lit 1000000))))\<rparr>;
             r = r\<lparr>p_loss := smooth_loss r\<rparr>;
             r = r\<lparr>total_received_bytes := 0, total_packets_lost := 0, total_num_packets := 0,
                   iv_frames := 0, iv_losses := 0\<rparr>;
             had_packet_loss = (case last_loss_us r of
                None \<Rightarrow> False | Some t \<Rightarrow> i64_sub now_us t < NADA_PARAM_LOGWIN * 1000);
             d_queue_ms = f64_div (f64_of_f32 (get_average (d_queue_history r))) (f64_lit 1000);
             r = r\<lparr>rcv_d_tilde := if had_packet_loss then warp_rfc d_queue_ms else d_queue_ms\<rparr>;
             r = r\<lparr>rcv_x_curr := f64_add
                    (f64_add (rcv_d_tilde r) (f64_mul (p_mark r) (f64_of_i64 NADA_PARAM_DMARK)))
                    (f64_mul (p_loss r) NADA_PARAM_DLOSS_RFC_MS)\<rparr>;
             r = determine_rate_adaptation_mode had_packet_loss r;
             r = r\<lparr>rcv_t_last := now_us, report_seq := u32_add (report_seq r) 1\<rparr>
         in (Some (rmode_code (rcv_rmode r), rcv_x_curr r, rcv_r_recv r, p_loss r, rcv_d_tilde r, rcv_d_queue r), r)))"

text \<open>The elapsed time and the restart of the window use one reading of the clock; the source reads it twice in
  succession.\<close>

definition update_receive :: "nat \<Rightarrow> nat \<Rightarrow> nat \<Rightarrow> i64 option \<Rightarrow> nada_receiver \<Rightarrow> nada_receiver" where
  "update_receive wall received_bytes num_packets session_us r =
     (let r = r\<lparr>total_received_bytes := (total_received_bytes r + frame_bytes received_bytes) mod 2 ^ 64,
                total_packets_lost := u32_add (total_packets_lost r) 0,
                total_num_packets := u32_add (total_num_packets r) num_packets\<rparr>;
          window_over = (case session_us of
             None \<Rightarrow> NADA_PARAM_LOGWIN * 1000000 \<le> int (wall - receive_rate_timer r)
           | Some t \<Rightarrow> NADA_PARAM_LOGWIN * 1000 \<le> i64_sub t (rate_window_t0_us r))
      in if window_over then
           (let interval_in_sec = f64_div (f64_of_i64 NADA_PARAM_LOGWIN) (f64_lit 1000);
                r = r\<lparr>rcv_r_recv := f64_to_i64 (f64_round
                       (f64_div (f64_of_nat (total_received_bytes r * 8 mod 2 ^ 64)) interval_in_sec))\<rparr>;
                r = r\<lparr>p_loss := smooth_loss r\<rparr>;
                r = r\<lparr>total_received_bytes := 0\<rparr>;
                r = (case session_us of None \<Rightarrow> r\<lparr>receive_rate_timer := wall\<rparr> | Some t \<Rightarrow> r\<lparr>rate_window_t0_us := t\<rparr>)
            in r\<lparr>total_packets_lost := 0, total_num_packets := 0\<rparr>)
         else r)"

definition update_receive_loss_rate_shards :: "nat \<Rightarrow> nat \<Rightarrow> nat \<Rightarrow> i64 \<Rightarrow> nada_receiver \<Rightarrow> nada_receiver" where
  "update_receive_loss_rate_shards wall received_bytes shards now_us =
     update_receive wall received_bytes shards (Some now_us)"

definition update_receive_loss_rate :: "nat \<Rightarrow> nat \<Rightarrow> nada_receiver \<Rightarrow> nada_receiver" where
  "update_receive_loss_rate wall received_bytes =
     update_receive wall received_bytes
       (f32_to_u32 (f32_ceil (f32_div (f32_of_nat received_bytes) (f32_lit 1500)))) None"

text \<open>The level read once from the environment variable; \<open>None\<close> is the panic on any other value.\<close>

definition nada_level :: "string option \<Rightarrow> nat option" where
  "nada_level var =
     (case var of
        None \<Rightarrow> Some 0
      | Some v \<Rightarrow>
          if v = '''' \<or> v = ''0'' then Some 0
          else if v = ''1'' then Some 1
          else if v = ''2'' then Some 2
          else None)"

definition nada_fix :: "string option \<Rightarrow> bool option" where
  "nada_fix var = map_option (\<lambda>level. 1 \<le> level) (nada_level var)"

end
