(* ===== verification/Nada_Properties.thy ===== *)
theory Nada_Properties
  imports Nada_Control Gcc_Bounds
begin

text \<open>
  What the NADA congestion control of \<^verbatim>\<open>Nada_Control\<close> guarantees: the sender's rates stay within the configured
  range, a ramp-up never lowers the rate, the gradual update follows the congestion signal, and the
  receiver's loss ratio is a ratio. Two theorems state defects of the receiver.
\<close>

section \<open>Constants by value\<close>

lemma nada_rates [simp]: "RMCAT_CC_DEFAULT_RMIN = 10000000" "RMCAT_CC_DEFAULT_RMAX = 100000000"
  using f64_to_i64_rat [OF gcc_constants(1)] f64_to_i64_rat [OF gcc_constants(2)] truncate_rat_int [of 10000000]
    truncate_rat_int [of 100000000]
  by (simp_all add: RMCAT_CC_DEFAULT_RMIN_def RMCAT_CC_DEFAULT_RMAX_def)

section \<open>The rates stay in range\<close>

definition sender_ok :: "nada_sender \<Rightarrow> bool" where
  "sender_ok s \<longleftrightarrow> (\<forall>r \<in> {r_ref s, r_vin s, r_send s, prev_r_vin s, prev_r_send s}. 10000000 \<le> r \<and> r \<le> 100000000)"

lemma sender_ok_new: "sender_ok (NadaSender_new now)" "sender_ok (NadaSender_new_at now rate)"
  using i64_clamp_bounds [of 10000000 100000000 "f64_to_i64 rate"]
  by (simp_all add: sender_ok_def NadaSender_new_def NadaSender_new_at_def NADA_INITIAL_RATE_def Let_def)

lemma feedback_r_ref:
  "\<exists>u. r_ref (update_on_receive_feedback now st rep fps s) = i64_clamp u 10000000 100000000"
  by (simp add: update_on_receive_feedback_def Let_def) blast

lemma feedback_rates:
  fixes s now st rep fps
  defines "s' \<equiv> update_on_receive_feedback now st rep fps s"
  shows "r_vin s' = r_ref s'" "r_send s' = r_ref s'" "prev_r_vin s' = r_vin s" "prev_r_send s' = r_send s"
  by (simp_all add: s'_def update_on_receive_feedback_def Let_def)

lemma feedback_ok: "sender_ok s \<Longrightarrow> sender_ok (update_on_receive_feedback now st rep fps s)"
  using feedback_r_ref [of now st rep fps s] i64_clamp_bounds [of 10000000 100000000]
  by (auto simp: sender_ok_def feedback_rates)


section \<open>The gradual update follows the congestion signal\<close>

lemma nada_ints:
  "f64_rat (f64_of_i64 20) = Some (of_int 20)" "f64_rat (f64_of_i64 100000000) = Some (of_int 100000000)"
  "f64_rat (f64_of_i64 500) = Some (of_int 500)" "f64_rat (f64_lit 1000) = Some (of_int 1000)"
  "f64_rat (f64_lit 2) = Some 2" "f64_rat (f64_lit (1 / 2)) = Some (1 / 2)"
  by (rule f64_rat_int(2), simp)+ (simp_all add: f64_rat_numeral, code_simp)

lemma reference_signal_between:
  assumes "0 < r" "r \<le> 100000000" "k * r \<le> 2000000000" "2000000000 \<le> m * r" "\<bar>k\<bar> < 2 ^ 53" "\<bar>m\<bar> < 2 ^ 53"
  shows "bounded64 k m (reference_signal r)"
proof -
  have p: "f64_rat (f64_mul NADA_PARAM_PRIO (f64_of_i64 NADA_PARAM_XREF)) = Some 20"
    using f64_exact(3) [OF f64_rat_numeral(2) nada_ints(1)] rep64_numeral(3) [of "num.Bit0 (num.Bit0 (num.Bit1 (num.Bit0 num.One)))"]
    by (simp add: NADA_PARAM_PRIO_def NADA_PARAM_XREF_def)
  have "rep64 (20 * of_int 100000000)" using rep64_int [of 2000000000] by simp
  from f64_exact(3) [OF p nada_ints(2) this]
  have n: "f64_rat (f64_mul (f64_mul NADA_PARAM_PRIO (f64_of_i64 NADA_PARAM_XREF)) (f64_of_i64 RMCAT_CC_DEFAULT_RMAX)) = Some 2000000000"
    by simp
  have "f64_rat (f64_of_i64 r) = Some (of_int r)" using assms by (intro f64_rat_int(2)) simp
  then show ?thesis
    unfolding reference_signal_def
    by (intro bounded64_div_between [OF bounded64I [OF n, of 2000000000 2000000000]]) (use assms in simp_all)
qed

lemma reference_signal_bounds:
  assumes "10000000 \<le> r" "r \<le> 100000000"
  shows "bounded64 20 200 (reference_signal r)"
  by (rule reference_signal_between) (use assms in simp_all)

text \<open>The two correction terms of the update, for an offset and a change of the same sign.\<close>

lemma gradual_terms:
  assumes "bounded64 l h xo" "bounded64 l h xd" "500 * l' \<le> l" "l' \<le> 0" "- 2000 \<le> l'" "h \<le> 500 * h'" "0 \<le> h'" "h' \<le> 2000"
    "0 \<le> delta" "delta \<le> 1000000000" "0 \<le> r" "r \<le> 100000000"
  shows "bounded64 (200000000000 * l') (200000000000 * h')
      (f64_mul (f64_mul (f64_mul NADA_PARAM_KAPPA (f64_div (f64_div (f64_of_i64 delta) (f64_lit 1000)) (f64_of_i64 NADA_PARAM_TAU)))
         (f64_div xo (f64_of_i64 NADA_PARAM_TAU))) (f64_of_i64 r))"
    "bounded64 (100000000 * l') (100000000 * h')
      (f64_mul (f64_mul (f64_mul NADA_PARAM_KAPPA NADA_PARAM_ETA) (f64_div xd (f64_of_i64 NADA_PARAM_TAU))) (f64_of_i64 r))"
proof -
  let ?tau = "f64_of_i64 NADA_PARAM_TAU" and ?r = "f64_of_i64 r"
  have tau: "f64_rat ?tau = Some (of_int 500)" using nada_ints(3) by (simp add: NADA_PARAM_TAU_def)
  have r: "bounded64 0 100000000 ?r" by (rule bounded64I [OF f64_rat_int(2)]) (use assms(11,12) in simp_all)
  have k: "bounded64 0 1 NADA_PARAM_KAPPA" "bounded64 0 1 (f64_mul NADA_PARAM_KAPPA NADA_PARAM_ETA)"
    using bounded64I [OF nada_ints(6), of 0 1] bounded64I [OF f64_exact(3) [OF nada_ints(6,5)], of 0 1] rep64_numeral(2)
    by (simp_all add: NADA_PARAM_KAPPA_def NADA_PARAM_ETA_def)
  have t: "bounded64 l' h' (f64_div x ?tau)" if "bounded64 l h x" for x
    by (rule bounded64_div_between [OF that tau]) (use assms(3-8) in simp_all)
  have "bounded64 0 1000000000 (f64_of_i64 delta)" by (rule bounded64I [OF f64_rat_int(2)]) (use assms(9,10) in simp_all)
  then have "bounded64 0 1000000 (f64_div (f64_of_i64 delta) (f64_lit 1000))"
    by (rule bounded64_div_between [OF _ nada_ints(4)]) simp_all
  then have "bounded64 0 2000 (f64_div (f64_div (f64_of_i64 delta) (f64_lit 1000)) ?tau)"
    by (rule bounded64_div_between [OF _ tau]) simp_all
  from bounded64_mul_nonneg [OF k(1) this]
  have "bounded64 0 2000 (f64_mul NADA_PARAM_KAPPA (f64_div (f64_div (f64_of_i64 delta) (f64_lit 1000)) ?tau))" by simp
  from bounded64_mul_nonneg [OF r bounded64_mul_nonneg [OF this t [OF assms(1)]]]
  show "bounded64 (200000000000 * l') (200000000000 * h')
      (f64_mul (f64_mul (f64_mul NADA_PARAM_KAPPA (f64_div (f64_div (f64_of_i64 delta) (f64_lit 1000)) ?tau))
         (f64_div xo ?tau)) ?r)"
    using assms(4-8) by (simp add: f64_mul_commute [of ?r])
  from bounded64_mul_nonneg [OF r bounded64_mul_nonneg [OF k(2) t [OF assms(2)]]]
  show "bounded64 (100000000 * l') (100000000 * h')
      (f64_mul (f64_mul (f64_mul NADA_PARAM_KAPPA NADA_PARAM_ETA) (f64_div xd ?tau)) ?r)"
    using assms(4-8) by (simp add: f64_mul_commute [of ?r])
qed

lemma update_gradual_range:
  assumes "bounded64 l h (f64_sub (x_curr s) (reference_signal (r_ref s)))" "bounded64 l h (f64_sub (x_curr s) (x_prev s))"
    "500 * l' \<le> l" "l' \<le> 0" "- 2000 \<le> l'" "h \<le> 500 * h'" "0 \<le> h'" "h' \<le> 2000"
    "0 \<le> delta" "delta \<le> 1000000000" "0 \<le> r_ref s" "r_ref s \<le> 100000000"
  shows "r_ref s - 200100000000 * h' \<le> update_gradual delta s" "update_gradual delta s \<le> r_ref s - 200100000000 * l'"
proof -
  let ?r = "r_ref s"
  note g = gradual_terms [OF assms]
  have "f64_rat (f64_of_i64 ?r) = Some (of_int ?r)" using assms(11,12) by (intro f64_rat_int(2)) simp
  then have r: "bounded64 ?r ?r (f64_of_i64 ?r)" by (simp add: bounded64_def)
  let ?u = "f64_sub (f64_sub (f64_of_i64 ?r)
    (f64_mul (f64_mul (f64_mul NADA_PARAM_KAPPA (f64_div (f64_div (f64_of_i64 delta) (f64_lit 1000)) (f64_of_i64 NADA_PARAM_TAU)))
       (f64_div (f64_sub (x_curr s) (reference_signal ?r)) (f64_of_i64 NADA_PARAM_TAU))) (f64_of_i64 ?r)))
    (f64_mul (f64_mul (f64_mul NADA_PARAM_KAPPA NADA_PARAM_ETA) (f64_div (f64_sub (x_curr s) (x_prev s)) (f64_of_i64 NADA_PARAM_TAU)))
      (f64_of_i64 ?r))"
  have "bounded64 (?r - 200000000000 * h' - 100000000 * h') (?r - 200000000000 * l' - 100000000 * l') ?u"
    by (rule bounded64_sub [OF bounded64_sub [OF r g(1)] g(2)]) (use assms(4-8,11,12) in simp_all)
  from f64_round_i64_bounds [OF this] assms(4-8,11,12)
  have "?r - 200000000000 * h' - 100000000 * h' \<le> f64_to_i64 (f64_round ?u)"
    "f64_to_i64 (f64_round ?u) \<le> ?r - 200000000000 * l' - 100000000 * l'" by simp_all
  moreover have "update_gradual delta s = f64_to_i64 (f64_round ?u)" by (simp only: update_gradual_def Let_def)
  ultimately show "?r - 200100000000 * h' \<le> update_gradual delta s" "update_gradual delta s \<le> ?r - 200100000000 * l'"
    by simp_all
qed

text \<open>C17. NADA's gradual update follows the congestion signal. When a report's signal is at or above the reference
  signal of the current rate and has not fallen since the last report, the sender's rate does not grow; when it is
  at or below it and has not risen, the rate does not shrink.\<close>

theorem nada_gradual_direction:
  assumes "sender_ok s" "fb_rmode rep \<noteq> 0" "bounded64 0 999000 (fb_x_curr rep)" "bounded64 0 999000 (x_prev s)"
    "0 \<le> i64_sub (as_micros_i64 now) (t_last s)" "i64_sub (as_micros_i64 now) (t_last s) \<le> 1000000000"
  shows "(f64_le (reference_signal (r_ref s)) (fb_x_curr rep) \<and> f64_le (x_prev s) (fb_x_curr rep) \<longrightarrow>
      r_ref (update_on_receive_feedback now st rep fps s) \<le> r_ref s) \<and>
    (f64_le (fb_x_curr rep) (reference_signal (r_ref s)) \<and> f64_le (fb_x_curr rep) (x_prev s) \<longrightarrow>
      r_ref s \<le> r_ref (update_on_receive_feedback now st rep fps s))"
proof -
  let ?x = "fb_x_curr rep" and ?d = "i64_sub (as_micros_i64 now) (t_last s)"
  let ?s1 = "s\<lparr>t_curr := as_micros_i64 now, rate_mode := GradualUpdate, x_curr := ?x, r_recv := fb_r_recv rep,
    snd_d_queue := fb_d_queue rep, snd_d_tilde := fb_d_tilde rep,
    rtt_history := submit_sample (i64_sub (as_micros_i64 now) st) (rtt_history s)\<rparr>"
  have r: "10000000 \<le> r_ref s" "r_ref s \<le> 100000000" using assms(1) by (simp_all add: sender_ok_def)
  have new: "r_ref (update_on_receive_feedback now st rep fps s) = i64_clamp (update_gradual ?d ?s1) 10000000 100000000"
    using assms(2) by (simp add: update_on_receive_feedback_def Let_def)
  obtain x p q where v: "f64_rat ?x = Some x" "0 \<le> x" "x \<le> 999000" "f64_rat (x_prev s) = Some p" "0 \<le> p" "p \<le> 999000"
    "f64_rat (reference_signal (r_ref s)) = Some q" "20 \<le> q" "q \<le> 200"
    using assms(3,4) reference_signal_bounds [OF r] by (auto simp: bounded64_def)
  have sub: "bounded64 l h (f64_sub ?x y)" if "f64_rat y = Some z" "of_int l \<le> x - z" "x - z \<le> of_int h" "\<bar>l\<bar> < 2 ^ 53" "\<bar>h\<bar> < 2 ^ 53"
    for y z l h
    unfolding bounded64_def by (rule f64_sub_between [OF v(1) that(1-3) rep64_int [OF that(4)] rep64_int [OF that(5)]])
  show ?thesis
  proof (intro conjI impI)
    assume "f64_le (reference_signal (r_ref s)) ?x \<and> f64_le (x_prev s) ?x"
    then have le: "q \<le> x" "p \<le> x" using f64_le_rat [OF v(7,1)] f64_le_rat [OF v(4,1)] by simp_all
    have "update_gradual ?d ?s1 \<le> r_ref ?s1 - 200100000000 * 0"
      by (rule update_gradual_range(2) [of 0 1000000 _ _ 2000])
        (use sub [OF v(7), of 0 1000000] sub [OF v(4), of 0 1000000] v le r assms(5,6) in simp_all)
    then show "r_ref (update_on_receive_feedback now st rep fps s) \<le> r_ref s"
      using r by (simp add: new i64_clamp_def)
  next
    assume "f64_le ?x (reference_signal (r_ref s)) \<and> f64_le ?x (x_prev s)"
    then have le: "x \<le> q" "x \<le> p" using f64_le_rat [OF v(1,7)] f64_le_rat [OF v(1,4)] by simp_all
    have "r_ref ?s1 - 200100000000 * 0 \<le> update_gradual ?d ?s1"
      by (rule update_gradual_range(1) [of "- 1000000" 0 _ "- 2000"])
        (use sub [OF v(7), of "- 1000000" 0] sub [OF v(4), of "- 1000000" 0] v le r assms(5,6) in simp_all)
    then show "r_ref s \<le> r_ref (update_on_receive_feedback now st rep fps s)"
      using r by (simp add: new i64_clamp_def)
  qed
qed

theorem nada_gradual_direction_witness:
  "let s = NadaSender_new 0;
       rep = \<lparr>fb_rmode = 1, fb_x_curr = f64_lit 30, fb_r_recv = 90000000, fb_d_queue = 30000, fb_d_tilde = f64_lit 30,
              fb_p_loss = f64_lit 0\<rparr>
   in f64_le (reference_signal (r_ref s)) (fb_x_curr rep) \<and> f64_le (x_prev s) (fb_x_curr rep) \<and>
      r_ref (update_on_receive_feedback 100000000 80000 rep (f64_lit 90) s) \<le> r_ref s"
proof -
  let ?s = "NadaSender_new 0" and ?rep = "\<lparr>fb_rmode = 1, fb_x_curr = f64_lit 30, fb_r_recv = 90000000, fb_d_queue = 30000,
    fb_d_tilde = f64_lit 30, fb_p_loss = f64_lit 0\<rparr>"
  have x: "f64_rat (f64_lit 30) = Some 30" by (rule f64_rat_numeral(3)) simp
  have "bounded64 20 20 (reference_signal 100000000)" by (rule reference_signal_between) simp_all
  then have "f64_rat (reference_signal (r_ref ?s)) = Some 20"
    by (auto simp: bounded64_def NadaSender_new_def NADA_INITIAL_RATE_def)
  then have le: "f64_le (reference_signal (r_ref ?s)) (fb_x_curr ?rep)" "f64_le (x_prev ?s) (fb_x_curr ?rep)"
    using f64_le_rat [OF _ x] f64_rat_numeral(1) by (simp_all add: NadaSender_new_def)
  have t: "as_micros_i64 100000000 = 100000" "t_last ?s = 0" "i64_sub 100000 0 = 100000"
    by (simp_all add: as_micros_i64_def i64_wrap_def NadaSender_new_def i64_sub_def)
  have "x_prev ?s = f64_lit 0" by (simp add: NadaSender_new_def)
  then have b: "bounded64 0 999000 (fb_x_curr ?rep)" "bounded64 0 999000 (x_prev ?s)"
    using bounded64I [OF x, of 0 999000] bounded64I [OF f64_rat_numeral(1), of 0 999000] by simp_all
  have "(f64_le (reference_signal (r_ref ?s)) (fb_x_curr ?rep) \<and> f64_le (x_prev ?s) (fb_x_curr ?rep) \<longrightarrow>
      r_ref (update_on_receive_feedback 100000000 80000 ?rep (f64_lit 90) ?s) \<le> r_ref ?s)"
    by (rule conjunct1 [OF nada_gradual_direction [OF sender_ok_new(1) _ b]]) (simp_all add: t)
  with le show ?thesis by (simp add: Let_def)
qed

section \<open>A ramp-up never lowers the rate\<close>

text \<open>Values that are not negative and not minus zero.\<close>

definition v_pos :: "fval \<Rightarrow> bool" where
  "v_pos v \<longleftrightarrow> (case v of FNan \<Rightarrow> False | FInf s \<Rightarrow> \<not> s | FNum s q \<Rightarrow> \<not> s \<and> 0 \<le> q)"

lemma f32_val_pos: "0 \<le> q \<Longrightarrow> v_pos (f32_val (f32_of (FNum False q)))"
  by (simp add: f32_val_of_num v_pos_def mag_val_nonneg mag_bits_nonneg)

lemma f32_div_pos:
  assumes "v_pos (f32_val a)" "f32_val b = FNum False r" "0 < r"
  shows "v_pos (f32_val (f32_div a b))"
proof (cases "f32_val a")
  case (FNum s q)
  with assms f32_val_pos [of "q / r"] show ?thesis by (simp add: f32_div_def v_pos_def)
next
  case (FInf s)
  then have "f32_div a b = f32_of (FInf False)" using assms by (simp add: f32_div_def v_pos_def)
  moreover have "f32_val (f32_of (FInf False)) = FInf False"
    by (simp add: f32_val_def f32_of_def f_encode_def f_decode_def)
  ultimately show ?thesis by (simp add: v_pos_def)
qed (use assms in \<open>simp add: v_pos_def\<close>)

lemma f64_of_f32_pos: "v_pos (f32_val a) \<Longrightarrow> v_pos (f64_val (f64_of_f32 a))"
  by (cases "f32_val a")
    (auto simp: v_pos_def f64_of_f32_def f64_val_of v_wf_def rnd64_def mag_val_nonneg mag_bits_nonneg)

definition history_ok :: "i64 sliding_window_average \<Rightarrow> bool" where
  "history_ok w \<longleftrightarrow> 0 < max_history_size w \<and> max_history_size w \<le> 1000 \<and> length (history_buffer w) \<le> max_history_size w \<and>
     (\<forall>x \<in> set (history_buffer w). 0 \<le> x \<and> x \<le> 1000000000000)"

lemma submit_sample_ok:
  assumes "history_ok w" "0 \<le> x" "x \<le> 1000000000000"
  shows "history_ok (submit_sample x w)" "history_buffer (submit_sample x w) \<noteq> []"
  using assms by (auto simp: history_ok_def submit_sample_def Let_def dest: list.set_sel(2) [rotated])

lemma get_average_pos:
  assumes "history_ok w" "history_buffer w \<noteq> []"
  shows "v_pos (f32_val (get_average w))"
proof -
  let ?xs = "history_buffer w"
  have b: "\<forall>x \<in> set ?xs. 0 \<le> x \<and> x \<le> 1000000000000" "length ?xs \<le> 1000" using assms(1) by (auto simp: history_ok_def)
  have "0 \<le> sum_list xs \<and> sum_list xs \<le> int (length xs) * 1000000000000" if "\<forall>x \<in> set xs. 0 \<le> x \<and> x \<le> 1000000000000" for xs
    using that by (induction xs) (auto simp: algebra_simps)
  from this [OF b(1)] b(2) have s: "0 \<le> sum_list ?xs" "sum_list ?xs \<le> 1000000000000000" by simp_all
  then have "i64_wrap (sum_list ?xs) = sum_list ?xs" by (intro i64_wrap_small) (simp_all add: I64_MIN_def I64_MAX_def)
  moreover have "v_of_rat False (of_int (sum_list ?xs)) = FNum False (of_int (sum_list ?xs))"
    using s(1) by (auto simp: v_of_rat_def)
  ultimately have "v_pos (f32_val (f32_of_i64 (i64_wrap (sum_list ?xs))))"
    using f32_val_pos [of "of_int (sum_list ?xs)"] s(1) by (simp add: f32_of_i64_def f32_lit_def)
  moreover have "f32_val (f32_of_nat (length ?xs)) = FNum False (of_nat (length ?xs))"
    using b(2) by (intro f32_of_nat_exact) simp
  moreover have "(0 :: rat) < of_nat (length ?xs)" using assms(2) by simp
  ultimately show ?thesis unfolding get_average_def by (rule f32_div_pos)
qed

text \<open>The increase factor.\<close>

lemma f64_add_ge:
  assumes "v_le (FNum False 0) (f64_val a)" "f64_val c = FNum False k" "0 \<le> k"
  shows "v_le (FNum False k) (f64_val (f64_add a c))"
proof -
  have "v_le (f64_val c) (v_add (f64_val a) (f64_val c))"
    using assms by (cases "f64_val a") (auto simp: v_of_rat_def signed_def)
  then have "v_le (rnd64 (f64_val c)) (rnd64 (v_add (f64_val a) (f64_val c)))" by (rule rnd64_mono [rotated 2]) simp_all
  then have "v_le (f64_val c) (f64_val (f64_add a c))" by (simp only: rnd64_val f64_val_ops(1))
  then show ?thesis using assms(2) by simp
qed

lemma rampup_gamma:
  assumes "v_pos (f64_val y)"
  defines "res \<equiv> f64_div (f64_of_i64 50) (f64_add (f64_add y (f64_of_i64 100)) (f64_of_i64 120))"
  shows "\<exists>g. f64_rat (if f64_less res (f64_lit (1 / 2)) then res else f64_lit (1 / 2)) = Some g \<and> 0 \<le> g \<and> g \<le> 1 / 2"
proof -
  have i: "f64_val (f64_of_i64 50) = FNum False 50" "f64_val (f64_of_i64 100) = FNum False 100"
    "f64_val (f64_of_i64 120) = FNum False 120"
    using f64_val_int(2) [of 50] f64_val_int(2) [of 100] f64_val_int(2) [of 120] by (simp_all add: v_of_rat_def)
  define z where "z = f64_add (f64_add y (f64_of_i64 100)) (f64_of_i64 120)"
  have "v_le (FNum False 0) (f64_val y)" using assms(1) by (cases "f64_val y") (simp_all add: v_pos_def)
  then have "v_le (FNum False 100) (f64_val (f64_add y (f64_of_i64 100)))" by (rule f64_add_ge [OF _ i(2)]) simp
  then have "v_le (FNum False 0) (f64_val (f64_add y (f64_of_i64 100)))" by (rule v_le_trans [rotated]) simp
  then have z: "v_le (FNum False 120) (f64_val z)" unfolding z_def by (rule f64_add_ge [OF _ i(3)]) simp
  have "\<exists>r. f64_rat res = Some r \<and> 0 \<le> r \<and> r \<le> 1"
  proof (cases "f64_val z")
    case (FNum s q)
    with z f64_val_wf [of z] have q: "\<not> s" "120 \<le> q" by (auto simp: v_wf_def signed_def split: if_splits)
    then have "f64_val res = rnd64 (FNum False (50 / q))" by (simp add: res_def f64_val_ops(4) i FNum flip: z_def)
    then show ?thesis by (rule rnd64_between) (use q rep64_numeral in simp_all)
  next
    case (FInf s)
    with z have "f64_val res = FNum False 0" by (simp add: res_def f64_val_ops(4) i flip: z_def)
    then show ?thesis by (simp add: f64_rat_def)
  qed (use z in simp)
  then obtain r where r: "f64_rat res = Some r" "0 \<le> r" by blast
  show ?thesis
  proof (cases "f64_less res (f64_lit (1 / 2))")
    case True
    with r f64_less_rat [OF r(1) nada_ints(6)] show ?thesis by simp
  next
    case False
    with nada_ints(6) show ?thesis by (intro exI [of _ "1 / 2"]) simp
  qed
qed

lemma rampup_range:
  assumes "history_ok (rtt_history s)" "history_buffer (rtt_history s) \<noteq> []" "0 \<le> r_recv s" "r_recv s \<le> 10000000000"
    "0 \<le> r_ref s" "r_ref s \<le> 100000000"
  shows "r_ref s \<le> update_accelerated_rampup s" "update_accelerated_rampup s \<le> max (r_ref s) ((3 * r_recv s + 1) div 2)"
proof -
  define y where "y = f64_of_f32 (f32_div (get_average (rtt_history s)) (f32_lit 1000))"
  define res where "res = f64_div (f64_of_i64 50) (f64_add (f64_add y (f64_of_i64 100)) (f64_of_i64 120))"
  define gamma where "gamma = (if f64_less res (f64_lit (1 / 2)) then res else f64_lit (1 / 2))"
  define result where "result = f64_mul (f64_add (f64_lit 1) gamma) (f64_of_i64 (r_recv s))"
  let ?h = "(3 * r_recv s + 1) div 2"
  have "f32_val (f32_lit 1000) = FNum False 1000" using f32_of_nat_exact [of 1000] by (simp add: f32_of_nat_def)
  from f32_div_pos [OF get_average_pos [OF assms(1,2)] this] have "v_pos (f64_val y)"
    unfolding y_def by (intro f64_of_f32_pos) simp
  then obtain g where g: "f64_rat gamma = Some g" "0 \<le> g" "g \<le> 1 / 2"
    using rampup_gamma unfolding gamma_def res_def by blast
  have half: "rep64 (3 / 2)"
  proof -
    have "f64_rat (f64_lit (3 / 2)) = Some (3 / 2)" by code_simp
    then show ?thesis by (rule rep64I)
  qed
  obtain f where f: "f64_rat (f64_add (f64_lit 1) gamma) = Some f" "1 \<le> f" "f \<le> 3 / 2"
    using f64_add_between [OF f64_rat_numeral(2) g(1) _ _ rep64_numeral(2) half] g(2,3) by auto
  have n: "f64_rat (f64_of_i64 (r_recv s)) = Some (of_int (r_recv s))" using assms(3,4) by (intro f64_rat_int(2)) simp
  have p: "of_int (r_recv s) \<le> f * of_int (r_recv s)" "f * of_int (r_recv s) \<le> of_int ?h"
  proof -
    have "(0 :: rat) \<le> of_int (r_recv s)" using assms(3) by simp
    then show "of_int (r_recv s) \<le> f * of_int (r_recv s)" using f(2) mult_right_mono [of 1 f "of_int (r_recv s)"] by simp
    have "f * of_int (r_recv s) \<le> 3 / 2 * of_int (r_recv s)" using f(3) \<open>0 \<le> of_int (r_recv s)\<close> by (rule mult_right_mono)
    moreover have "3 * r_recv s \<le> 2 * ?h" by presburger
    then have "(of_int (3 * r_recv s) :: rat) \<le> of_int (2 * ?h)" by (simp only: of_int_le_iff)
    ultimately show "f * of_int (r_recv s) \<le> of_int ?h" by simp
  qed
  have b: "\<bar>r_recv s\<bar> < 2 ^ 53" "\<bar>?h\<bar> < 2 ^ 53" "\<bar>r_ref s\<bar> < 2 ^ 53" using assms(3-6) by auto
  obtain v where v: "f64_rat result = Some v" "of_int (r_recv s) \<le> v" "v \<le> of_int ?h"
    using f64_mul_between [OF f(1) n p rep64_int [OF b(1)] rep64_int [OF b(2)]] by (auto simp: result_def)
  have r: "f64_rat (f64_of_i64 (r_ref s)) = Some (of_int (r_ref s))" by (rule f64_rat_int(2) [OF b(3)])
  have u: "update_accelerated_rampup s =
      (if f64_less result (f64_of_i64 (r_ref s)) then r_ref s else f64_to_i64 (f64_round result))"
    by (simp only: update_accelerated_rampup_def Let_def NADA_PARAM_QBOUND_def NADA_PARAM_DELTA_def NADA_PARAM_DFILT_def
        NADA_PARAM_GAMMA_MAX_def result_def gamma_def res_def y_def)
  have "r_ref s \<le> update_accelerated_rampup s \<and> update_accelerated_rampup s \<le> max (r_ref s) ?h"
  proof (cases "f64_less result (f64_of_i64 (r_ref s))")
    case True
    then show ?thesis by (simp add: u)
  next
    case False
    then have "of_int (r_ref s) \<le> v" using f64_less_rat [OF v(1) r] by simp
    then have "bounded64 (r_ref s) ?h result" using v by (auto simp: bounded64_def)
    from f64_round_i64_bounds [OF this b(3,2)] False show ?thesis by (simp add: u)
  qed
  then show "r_ref s \<le> update_accelerated_rampup s" "update_accelerated_rampup s \<le> max (r_ref s) ?h" by simp_all
qed

text \<open>C18. The rate of the NADA sender stays within the configured range, and an accelerated ramp-up never lowers it: after
  a ramp-up report the reference rate is at least what it was, and at most one and a half times the reported
  receive rate unless it was above that already.\<close>

theorem nada_rampup:
  assumes "sender_ok s" "history_ok (rtt_history s)" "fb_rmode rep = 0" "0 \<le> fb_r_recv rep" "fb_r_recv rep \<le> 10000000000"
    "0 \<le> i64_sub (as_micros_i64 now) st" "i64_sub (as_micros_i64 now) st \<le> 1000000000000"
  shows "let s' = update_on_receive_feedback now st rep fps s
    in sender_ok s' \<and> history_ok (rtt_history s') \<and> r_ref s \<le> r_ref s' \<and>
       r_ref s' \<le> max (r_ref s) ((3 * fb_r_recv rep + 1) div 2)"
proof -
  let ?h = "submit_sample (i64_sub (as_micros_i64 now) st) (rtt_history s)"
  let ?s1 = "s\<lparr>t_curr := as_micros_i64 now, rate_mode := AcceleratedRampUp, x_curr := fb_x_curr rep, r_recv := fb_r_recv rep,
    snd_d_queue := fb_d_queue rep, snd_d_tilde := fb_d_tilde rep, rtt_history := ?h\<rparr>"
  let ?s' = "update_on_receive_feedback now st rep fps s"
  note h = submit_sample_ok [OF assms(2,6,7)]
  have r: "10000000 \<le> r_ref s" "r_ref s \<le> 100000000" using assms(1) by (simp_all add: sender_ok_def)
  have "r_ref ?s' = i64_clamp (update_accelerated_rampup ?s1) 10000000 100000000" "rtt_history ?s' = ?h"
    using assms(3) by (simp_all add: update_on_receive_feedback_def Let_def)
  moreover have "r_ref s \<le> update_accelerated_rampup ?s1" "update_accelerated_rampup ?s1 \<le> max (r_ref s) ((3 * fb_r_recv rep + 1) div 2)"
    using rampup_range [of ?s1] h r assms(4,5) by simp_all
  moreover have "r_ref s \<le> i64_clamp u 10000000 100000000 \<and> i64_clamp u 10000000 100000000 \<le> m"
    if "r_ref s \<le> u" "u \<le> m" for u m using that r by (auto simp: i64_clamp_def)
  ultimately show ?thesis using h feedback_ok [OF assms(1)] unfolding Let_def by metis
qed

theorem nada_rampup_witness:
  "let s = NadaSender_new_at 0 (f64_lit 20000000);
       rep = \<lparr>fb_rmode = 0, fb_x_curr = f64_lit 5, fb_r_recv = 24000000, fb_d_queue = 3000, fb_d_tilde = f64_lit 3,
              fb_p_loss = f64_lit 0\<rparr>;
       s' = update_on_receive_feedback 100000000 80000 rep (f64_lit 90) s
   in r_ref s = 20000000 \<and> sender_ok s' \<and> 20000000 \<le> r_ref s' \<and> r_ref s' \<le> 36000000"
proof -
  let ?s = "NadaSender_new_at 0 (f64_lit 20000000)"
  let ?rep = "\<lparr>fb_rmode = 0, fb_x_curr = f64_lit 5, fb_r_recv = 24000000, fb_d_queue = 3000, fb_d_tilde = f64_lit 3,
    fb_p_loss = f64_lit 0\<rparr>"
  have "f64_rat (f64_lit 20000000) = Some 20000000" by (rule f64_rat_numeral(3)) simp
  then have "f64_to_i64 (f64_lit 20000000) = 20000000" using f64_to_i64_rat [of _ "of_int 20000000"] truncate_rat_int [of 20000000] by simp
  then have r: "r_ref ?s = 20000000" "history_ok (rtt_history ?s)"
    by (simp_all add: NadaSender_new_at_def i64_clamp_def NadaSender_new_def history_ok_def SlidingWindowAverage_new_def
        NADA_RTT_HISTORY_SIZE_def)
  have t: "i64_sub (as_micros_i64 100000000) 80000 = 20000" by (simp add: as_micros_i64_def i64_wrap_def i64_sub_def)
  show ?thesis
    using nada_rampup [OF sender_ok_new(2) r(2), of ?rep 100000000 80000 "f64_lit 90"] r(1) by (simp add: t Let_def)
qed

section \<open>The receiver's loss ratio is a ratio\<close>

text \<open>
  What the client does with its receiver at a level of the fix: at every level a frame's delay and, from level one, the
  shards the deadline dropped; below level two the receive window and the report on a frame, at level two the
  report timer's interval. The packet counters are assumed not to overflow their 32 bits within one window.
\<close>

inductive receiver_step :: "nat \<Rightarrow> nada_receiver \<Rightarrow> nada_receiver \<Rightarrow> bool" for level :: nat where
  delay: "receiver_step level r (compute_oneway_delay send_us arrival_us r)"
| lost: "1 \<le> level \<Longrightarrow> lost \<le> expected \<Longrightarrow> total_num_packets r + expected < 2 ^ 32 \<Longrightarrow> iv_losses r + 1 < 2 ^ 32 \<Longrightarrow>
    receiver_step level r (record_lost_shards lost expected now_us r)"
| window: "level < 2 \<Longrightarrow> total_num_packets r + n < 2 ^ 32 \<Longrightarrow>
    receiver_step level r (update_receive wall received_bytes n session_us r)"
| report: "level < 2 \<Longrightarrow> receiver_step level r (update_t_last now (snd (time_to_report_feedback now False False r)))"
| frame: "2 \<le> level \<Longrightarrow> total_num_packets r + shards < 2 ^ 32 \<Longrightarrow> iv_frames r + 1 < 2 ^ 32 \<Longrightarrow>
    receiver_step level r (accumulate_frame received_bytes shards r)"
| timer: "2 \<le> level \<Longrightarrow> receiver_step level r (snd (timer_report now_us fps r))"

definition ratio :: "f64 \<Rightarrow> bool" where
  "ratio x \<longleftrightarrow> (\<exists>p. f64_rat x = Some p \<and> 0 \<le> p \<and> p \<le> 1)"

definition receiver_ok :: "nat \<Rightarrow> nada_receiver \<Rightarrow> bool" where
  "receiver_ok level r \<longleftrightarrow> total_packets_lost r \<le> total_num_packets r \<and> total_num_packets r < 2 ^ 32 \<and> ratio (p_loss r) \<and>
     (2 \<le> level \<and> iv_frames r = 0 \<and> iv_losses r = 0 \<longrightarrow> total_num_packets r = 0)"

lemma alpha_constants:
  "f64_rat (f64_lit (1 / 10)) = Some (3602879701896397 / 36028797018963968)"
  "f64_rat (f64_sub (f64_lit 1) (f64_lit (1 / 10))) = Some (8106479329266893 / 9007199254740992)"
  "f64_add (f64_lit (1 / 10)) (f64_sub (f64_lit 1) (f64_lit (1 / 10))) = f64_lit 1"
  by code_simp+

lemma smooth_loss_ratio:
  assumes "total_packets_lost r \<le> total_num_packets r" "total_num_packets r < 2 ^ 32" "ratio (p_loss r)"
  shows "ratio (smooth_loss r)"
proof -
  let ?a = "f64_lit (1 / 10)" and ?b = "f64_sub (f64_lit 1) (f64_lit (1 / 10))"
  define i where "i = (if 0 < total_num_packets r
    then f64_div (f64_of_nat (total_packets_lost r)) (f64_of_nat (total_num_packets r)) else f64_lit 0)"
  have scale: "\<exists>z. f64_rat (f64_mul c x) = Some z \<and> 0 \<le> z \<and> z \<le> k" if "f64_rat c = Some k" "0 \<le> k" "ratio x" for c k x
  proof -
    obtain p where p: "f64_rat x = Some p" "0 \<le> p" "p \<le> 1" using \<open>ratio x\<close> by (auto simp: ratio_def)
    have "k * p \<le> k" using p(3) that(2) by (simp add: mult_left_le)
    then show ?thesis
      using f64_mul_between [OF that(1) p(1) _ _ rep64_numeral(1) rep64I [OF that(1)]] p(2) that(2) by simp
  qed
  have "ratio i"
  proof (cases "0 < total_num_packets r")
    case True
    have n: "f64_rat (f64_of_nat k) = Some (of_nat k)" if "k < 2 ^ 32" for k
      using f64_rat_int(1) [of "int k"] that by (simp add: f64_of_nat_def)
    have "(of_nat (total_packets_lost r) :: rat) / of_nat (total_num_packets r) \<le> 1"
      using True assms(1) by (simp add: divide_le_eq_1)
    from f64_div_between [OF n n _ _ this rep64_numeral(1,2)] True assms(1,2) show ?thesis
      by (simp add: ratio_def i_def)
  qed (simp add: i_def ratio_def f64_rat_numeral)
  from scale [OF alpha_constants(1) _ this] obtain x where x: "f64_rat (f64_mul ?a i) = Some x" "0 \<le> x"
    "x \<le> 3602879701896397 / 36028797018963968" by auto
  from scale [OF alpha_constants(2) _ assms(3)] obtain y where y: "f64_rat (f64_mul ?b (p_loss r)) = Some y" "0 \<le> y"
    "y \<le> 8106479329266893 / 9007199254740992" by auto
  have "smooth_loss r = f64_add (f64_mul ?a i) (f64_mul ?b (p_loss r))"
    by (simp only: smooth_loss_def Let_def i_def NADA_PARAM_ALPHA_def)
  moreover have "f64_le (f64_add (f64_mul ?a i) (f64_mul ?b (p_loss r))) (f64_lit 1)"
    using f64_add_mono [OF x(1) y(1) alpha_constants(1,2) x(3) y(3)] by (simp only: alpha_constants(3))
  moreover have "f64_le (f64_lit 0) (f64_add (f64_mul ?a i) (f64_mul ?b (p_loss r)))"
  proof -
    have "f64_rat (f64_add (f64_lit 0) (f64_lit 0)) = Some 0"
      using f64_exact(1) [OF f64_rat_numeral(1,1)] rep64_numeral(1) by simp
    then have "f64_le (f64_lit 0) (f64_add (f64_lit 0) (f64_lit 0))" using f64_le_rat [OF f64_rat_numeral(1)] by simp
    from f64_le_trans [OF this f64_add_mono [OF f64_rat_numeral(1,1) x(1) y(1) x(2) y(2)]] show ?thesis .
  qed
  ultimately show ?thesis
    using f64_rat_between [OF _ _ f64_rat_numeral(1,2)] by (auto simp: ratio_def)
qed

lemma u32_add_small: "a + b < 2 ^ 32 \<Longrightarrow> u32_add a b = a + b"
  by (simp add: u32_add_def)

lemma determine_mode_keeps:
  "p_loss (determine_rate_adaptation_mode b r) = p_loss r"
  "total_packets_lost (determine_rate_adaptation_mode b r) = total_packets_lost r"
  "total_num_packets (determine_rate_adaptation_mode b r) = total_num_packets r"
  "iv_frames (determine_rate_adaptation_mode b r) = iv_frames r"
  "iv_losses (determine_rate_adaptation_mode b r) = iv_losses r"
  "last_loss_us (determine_rate_adaptation_mode b r) = last_loss_us r"
  by (simp_all add: determine_rate_adaptation_mode_def Let_def)

lemma smooth_loss_cong:
  "total_num_packets r = total_num_packets r' \<Longrightarrow> total_packets_lost r = total_packets_lost r' \<Longrightarrow> p_loss r = p_loss r' \<Longrightarrow>
   smooth_loss r = smooth_loss r'"
  by (simp add: smooth_loss_def)

lemma timer_report_effect:
  fixes fps now_us r
  assumes "\<not> i64_sub now_us (rcv_t_last r) sdiv 1000 \<le> NADA_PARAM_DELTA"
  defines "r' \<equiv> snd (timer_report now_us fps r)"
  shows "p_loss r' = smooth_loss (charge_silence now_us fps r)" "total_packets_lost r' = 0" "total_num_packets r' = 0"
    "iv_frames r' = 0" "iv_losses r' = 0" "last_loss_us r' = last_loss_us (charge_silence now_us fps r)"
  using assms(1)
  by (simp_all add: r'_def timer_report_def Let_def determine_mode_keeps, simp add: smooth_loss_def)

lemma receiver_step_ok:
  assumes "receiver_step level r r'" "receiver_ok level r"
  shows "receiver_ok level r'"
  using assms
proof (induction rule: receiver_step.induct)
  case (delay r send arrival)
  then show ?case by (simp add: receiver_ok_def compute_oneway_delay_def Let_def)
next
  case (lost lost expected r now)
  then have "lost < 2 ^ 32" "expected < 2 ^ 32" "total_packets_lost r + lost < 2 ^ 32" by (auto simp: receiver_ok_def)
  with lost show ?case by (auto simp: receiver_ok_def record_lost_shards_def Let_def u32_add_small)
next
  case (window r n wall bytes us)
  let ?r = "r\<lparr>total_received_bytes := (total_received_bytes r + frame_bytes bytes) mod 2 ^ 64,
    total_packets_lost := u32_add (total_packets_lost r) 0, total_num_packets := u32_add (total_num_packets r) n\<rparr>"
  have ok: "total_packets_lost ?r \<le> total_num_packets ?r" "total_num_packets ?r < 2 ^ 32" "ratio (p_loss ?r)"
    using window by (auto simp: receiver_ok_def u32_add_def)
  from smooth_loss_ratio [OF this] have "ratio (smooth_loss (?r\<lparr>rcv_r_recv := x\<rparr>))" for x
    using smooth_loss_cong [of "?r\<lparr>rcv_r_recv := x\<rparr>" ?r] by simp
  with ok window(1) show ?case
    by (simp add: update_receive_def Let_def receiver_ok_def split: option.split)
next
  case (report r now)
  then show ?case
    by (simp add: receiver_ok_def update_t_last_def time_to_report_feedback_def Let_def determine_mode_keeps compute_d_tilde_def)
next
  case (frame r shards bytes)
  then show ?case by (auto simp: receiver_ok_def accumulate_frame_def u32_add_small)
next
  case (timer r now_us fps)
  show ?case
  proof (cases "i64_sub now_us (rcv_t_last r) sdiv 1000 \<le> NADA_PARAM_DELTA")
    case True
    with timer show ?thesis by (simp add: timer_report_def)
  next
    case False
    let ?c = "charge_silence now_us fps r"
    have "total_packets_lost ?c \<le> total_num_packets ?c \<and> total_num_packets ?c < 2 ^ 32 \<and> p_loss ?c = p_loss r"
      using timer by (auto simp: charge_silence_def receiver_ok_def Let_def u32_add_def)
    then have "ratio (smooth_loss ?c)" using timer by (intro smooth_loss_ratio) (simp_all add: receiver_ok_def)
    then show ?thesis using timer_report_effect [OF False, of fps] by (simp add: receiver_ok_def)
  qed
qed

lemma receiver_reachable_ok: "(receiver_step level)\<^sup>*\<^sup>* r r' \<Longrightarrow> receiver_ok level r \<Longrightarrow> receiver_ok level r'"
  by (induction rule: rtranclp_induct) (auto intro: receiver_step_ok)

lemma receiver_ok_new: "receiver_ok level (NadaReceiver_new wall)"
  by (simp add: receiver_ok_def NadaReceiver_new_def ratio_def f64_rat_numeral)

text \<open>C16. The loss ratio the NADA receiver reports is always a number between zero and one, whatever delays, losses, frames
  and reports it has gone through at any level of the fix, as long as its 32-bit counters do not overflow and
  no more shards are recorded lost than were expected, although it is smoothed in floating point with
  coefficients whose exact sum is above one.\<close>

theorem nada_loss_is_ratio:
  assumes "(receiver_step level)\<^sup>*\<^sup>* (NadaReceiver_new wall) r"
  shows "f64_le (f64_lit 0) (p_loss r) \<and> f64_le (p_loss r) (f64_lit 1)"
proof -
  have "ratio (p_loss r)" using receiver_reachable_ok [OF assms receiver_ok_new] by (simp add: receiver_ok_def)
  then show ?thesis using f64_le_rat [OF f64_rat_numeral(1)] f64_le_rat [OF _ f64_rat_numeral(2)] by (auto simp: ratio_def)
qed

theorem nada_loss_is_ratio_witness:
  "let r = snd (timer_report 200000 (f64_lit 90) (record_lost_shards 3 4 100000 (NadaReceiver_new 0)))
   in f64_le (f64_lit 0) (p_loss r) \<and> f64_le (p_loss r) (f64_lit 1)"
proof -
  let ?r0 = "NadaReceiver_new 0" and ?r1 = "record_lost_shards 3 4 100000 (NadaReceiver_new 0)"
  have "receiver_step 2 ?r0 ?r1" by (rule receiver_step.lost) (simp_all add: NadaReceiver_new_def)
  moreover have "receiver_step 2 ?r1 (snd (timer_report 200000 (f64_lit 90) ?r1))" by (rule receiver_step.timer) simp
  ultimately have "(receiver_step 2)\<^sup>*\<^sup>* ?r0 (snd (timer_report 200000 (f64_lit 90) ?r1))" by (simp add: rtranclp.rtrancl_into_rtrancl)
  from nada_loss_is_ratio [OF this] show ?thesis by (simp add: Let_def)
qed

section \<open>Two defects of the receiver\<close>

text \<open>C22. The client polls the deadline's losses in every video receive and at every vertical sync, and every poll counts
  as a loss record, also one that found no loss. An interval in which nothing arrived, which the report timer charges with the frames due in it, is
  therefore not charged: after a poll without a loss the report leaves the time of the last loss alone and lets
  the loss ratio decay.\<close>

theorem nada_poll_masks_silence:
  assumes "NADA_PARAM_DELTA < i64_sub now_us (rcv_t_last r) sdiv 1000" "seen_frame r" "iv_frames r = 0" "iv_losses r = 0"
    "total_num_packets r = 0" "total_packets_lost r = 0" "0 < frames_due (i64_sub now_us (rcv_t_last r)) fps"
  shows "last_loss_us (snd (timer_report now_us fps r)) = Some now_us \<and>
    (let r' = snd (timer_report now_us fps (record_lost_shards 0 0 t r))
     in last_loss_us r' = last_loss_us r \<and>
        p_loss r' = f64_add (f64_mul NADA_PARAM_ALPHA (f64_lit 0))
          (f64_mul (f64_sub (f64_lit 1) NADA_PARAM_ALPHA) (p_loss r)))"
proof -
  let ?r1 = "record_lost_shards 0 0 t r"
  have r1: "rcv_t_last ?r1 = rcv_t_last r" "iv_losses ?r1 = 1" "total_num_packets ?r1 = 0" "last_loss_us ?r1 = last_loss_us r"
    "p_loss ?r1 = p_loss r"
    using assms(4-6) by (simp_all add: record_lost_shards_def Let_def u32_add_def)
  then have c: "charge_silence now_us fps ?r1 = ?r1" by (simp add: charge_silence_def)
  have n: "\<not> i64_sub now_us (rcv_t_last r) sdiv 1000 \<le> NADA_PARAM_DELTA"
    "\<not> i64_sub now_us (rcv_t_last ?r1) sdiv 1000 \<le> NADA_PARAM_DELTA" using assms(1) r1(1) by simp_all
  have "last_loss_us (snd (timer_report now_us fps r)) = Some now_us"
    using timer_report_effect(6) [OF n(1), of fps] assms(2-4,7) by (simp add: charge_silence_def Let_def)
  then show ?thesis
    using timer_report_effect(1,6) [OF n(2), of fps] r1 by (simp add: c smooth_loss_def Let_def)
qed

theorem nada_poll_masks_silence_witness:
  "let r = (NadaReceiver_new 0)\<lparr>seen_frame := True, last_shards := 10\<rparr>;
       r' = snd (timer_report 200000 (f64_lit 90) (record_lost_shards 0 0 150000 r))
   in last_loss_us (snd (timer_report 200000 (f64_lit 90) r)) = Some 200000 \<and> last_loss_us r' = None"
proof -
  let ?r = "(NadaReceiver_new 0)\<lparr>seen_frame := True, last_shards := 10\<rparr>"
  have "0 < frames_due 200000 (f64_lit 90)" by code_simp
  moreover have "i64_sub 200000 0 = 200000" by (simp add: i64_sub_def i64_wrap_def)
  ultimately show ?thesis
    using nada_poll_masks_silence [of 200000 ?r "f64_lit 90" 150000]
    by (simp add: NadaReceiver_new_def NADA_PARAM_DELTA_def Let_def signed_divide_int_def)
qed

text \<open>C23. The warping of the delay under loss, as published, always vanishes: its quotient of fourth powers is an
  integer division whose result is zero below the upper threshold, so under loss every queuing delay of at
  least the lower threshold counts as no delay at all.\<close>

theorem nada_warp_vanishes:
  assumes "NADA_PARAM_QTH \<le> rcv_d_queue r"
  shows "f64_rat (rcv_d_tilde (compute_d_tilde True r)) = Some 0"
proof (cases "NADA_PARAM_QTH < rcv_d_queue r \<and> rcv_d_queue r < NADA_PARAM_QMAX")
  case True
  define d where "d = rcv_d_queue r - 50"
  have d: "0 < d" "d < 350" using True by (simp_all add: d_def NADA_PARAM_QTH_def NADA_PARAM_QMAX_def)
  define e where "e = d ^ 4"
  have e: "0 \<le> e" "e < 15006250000" using d power_strict_mono [of d 350 4] by (simp_all add: e_def)
  have "(NADA_PARAM_QTH - rcv_d_queue r) ^ 4 = e" by (simp add: e_def d_def NADA_PARAM_QTH_def power4_eq_xxxx algebra_simps)
  moreover have "i64_wrap e = e" by (rule i64_wrap_small) (use e in \<open>simp_all add: I64_MIN_def I64_MAX_def\<close>)
  moreover have "i64_wrap ((NADA_PARAM_QMAX - NADA_PARAM_QTH) ^ 4) = 15006250000"
    by (simp add: NADA_PARAM_QTH_def NADA_PARAM_QMAX_def i64_wrap_def)
  moreover have "e sdiv 15006250000 = 0" using e by (simp add: signed_divide_int_def sgn_if)
  ultimately have "rcv_d_tilde (compute_d_tilde True r) = f64_mul (f64_of_i64 NADA_PARAM_QTH) (f64_of_i64 0)"
    using True by (simp add: compute_d_tilde_def Let_def)
  moreover have "f64_rat (f64_of_i64 50) = Some (of_int 50)" "f64_rat (f64_of_i64 0) = Some (of_int 0)"
    by (rule f64_rat_int(2), simp)+
  ultimately show ?thesis
    using f64_exact(3) [of "f64_of_i64 50" "of_int 50" "f64_of_i64 0" "of_int 0"] rep64_numeral(1)
    by (simp add: NADA_PARAM_QTH_def)
next
  case False
  with assms show ?thesis by (auto simp: compute_d_tilde_def f64_rat_numeral)
qed

theorem nada_warp_vanishes_witness:
  "f64_rat (rcv_d_tilde (compute_d_tilde True ((NadaReceiver_new 0)\<lparr>rcv_d_queue := 399\<rparr>))) = Some 0"
  by (rule nada_warp_vanishes) (simp add: NADA_PARAM_QTH_def)

end
