(* ===== verification/Spec2Isabelle.thy ===== *)
theory Spec2Isabelle
  imports Indexed_Queue_Correct Sim_Properties Sim_Rng Nada_Report Hevc_Parser Av1_Parser Stream_Reassembly Mpsc_Queue Task_State
    Gcc_Bounds Nada_Properties
begin

text \<open>
  A verification library for SiEStA-VR: the \<^verbatim>\<open>asynchronix\<close> discrete-event engine and the Wi-Fi / XR-streaming
  simulator built on it. Paths below are relative to \<^verbatim>\<open>src/asynchronix\<close>.

  \<^bold>\<open>The program.\<close> The engine (\<^verbatim>\<open>src\<close>) keeps future actions in a priority queue ordered by time and channel,
  takes all actions of the next time, and hands them as tasks to an executor; models receive their
  events through mailboxes, which are bounded queues. The simulator (\<^verbatim>\<open>examples/lib\<close>) runs models of a
  streaming server, a Wi-Fi network and a headset client on the engine. The server cuts encoded video
  frames, split off by bitstream parsers, into shards; the client reassembles them, detects losses and deadlines,
  and sends reports back, from which congestion control sets the encoder's rate. All randomness of a run
  comes from tagged streams of one seed.

  \<^bold>\<open>Foundations.\<close>
  \<^item> \<^verbatim>\<open>Prelude\<close>: machine integers, panics as \<open>None\<close>, byte encodings, shared facts.
  \<^item> \<^verbatim>\<open>Floats\<close>: \<^verbatim>\<open>f32\<close> and \<^verbatim>\<open>f64\<close> as executable IEEE 754 bit patterns, rounded to nearest even.
  \<^item> \<^verbatim>\<open>Double_Order\<close>: \<^verbatim>\<open>i64\<close> with the wrap-around of the release build, further \<^verbatim>\<open>f64\<close> operations, and that rounding is
    monotone and exact on representable values, from which the bounds of the rate controllers follow.

  \<^bold>\<open>The engine.\<close>
  \<^item> \<^verbatim>\<open>Fifo_Queue\<close>: the contract (a locale) of a first-in first-out priority queue. \<^verbatim>\<open>Priority_Queue\<close>
    (\<^verbatim>\<open>src/util/priority_queue.rs\<close>) and \<^verbatim>\<open>Indexed_Priority_Queue\<close> (\<^verbatim>\<open>src/util/indexed_priority_queue.rs\<close>), with its
    correctness in \<^verbatim>\<open>Indexed_Queue_Correct\<close>, interpret it: both refine the contract, and extraction by key
    removes exactly the element inserted under it.
  \<^item> \<^verbatim>\<open>Scheduler\<close> (\<^verbatim>\<open>src/simulation/scheduler.rs\<close>) and \<^verbatim>\<open>Simulation\<close> (\<^verbatim>\<open>src/simulation.rs\<close>,
    \<^verbatim>\<open>src/util/seq_futures.rs\<close>): actions, keys, scheduling and stepping. \<^verbatim>\<open>Sim_Properties\<close>: a step executes exactly the
    due actions, in scheduling order per mailbox; cancelled events are not delivered; stepping,
    when it returns, has reached its target. The calls of models on the scheduler are unrestricted; that recurring
    actions have positive periods is a hypothesis only where a step is shown to return.
  \<^item> \<^verbatim>\<open>Mpsc_Queue\<close> (\<^verbatim>\<open>src/channel/queue.rs\<close>): the mailbox queue as interleaved accesses to shared memory; it is
    first-in first-out, a push without interference returns, and a refusal is right when it is decided.
  \<^item> \<^verbatim>\<open>Task_State\<close> (\<^verbatim>\<open>src/executor/task.rs\<close> and its modules): the life of a task under concurrent
    wakers, runnable, promise and cancellation; no access after deallocation, no lost wake, and the promise
    gives the stage of the task and the output of its future.

  \<^bold>\<open>The simulator.\<close>
  \<^item> \<^verbatim>\<open>Sim_Rng\<close> (\<^verbatim>\<open>examples/lib/sim_rng.rs\<close>, \<^verbatim>\<open>src/util/rng.rs\<close>): the streams of a run; a stream is determined by its
    tag, and the mixing is a bijection.
  \<^item> \<^verbatim>\<open>Chunked_Parser\<close>: the contract (a locale) of an incremental parser, interpreted by \<^verbatim>\<open>Av1_Parser\<close> and
    \<^verbatim>\<open>Hevc_Parser\<close> (\<^verbatim>\<open>examples/lib/mod.rs\<close>): how a stream is cut into chunks does not matter, and what was
    written as units is read back.
  \<^item> \<^verbatim>\<open>Socket_Channel\<close>, \<^verbatim>\<open>Stream_Socket\<close> (\<^verbatim>\<open>examples/lib/alvr_stream_socket.rs\<close>, \<^verbatim>\<open>client_deadline.rs\<close>): in-process
    sockets behind the locale of a reader, sharding, reception and deadlines. \<^verbatim>\<open>Stream_Reassembly\<close>: the shards of a packet,
    delivered in any order before its deadline, give the packet back.
  \<^item> \<^verbatim>\<open>Nada_Report\<close> (\<^verbatim>\<open>examples/lib/nada_report.rs\<close>): the encoding of a receiver's report.
  \<^item> \<^verbatim>\<open>Gcc_Estimator\<close> and \<^verbatim>\<open>Nada_Control\<close> (\<^verbatim>\<open>examples/lib/gcc_nada_estimator.rs\<close>): the two congestion controllers.
    \<^verbatim>\<open>Gcc_Bounds\<close>: the target rate is never below the minimum, nor above the maximum while the measured throughput is
    not; an over-use is confirmed by two samples; the maximum is exceeded by an over-use that ends the initialisation. \<^verbatim>\<open>Nada_Properties\<close>: the direction of the gradual update, the
    bounds of the ramp-up, and that the loss ratio is a ratio.

  Some theorems state what the code does where this is not what it means to do: repeated actions with a null period,
  the first channel's key, short HEVC buffers, large packets, fresh messages dropped on reception, the increase that
  ignores time, the exceeded maximum rate, the masked silence and the vanishing warp of NADA.

  \<^bold>\<open>Loops and bounds.\<close> Loops that may not return are \<open>partial_function (option)\<close> (gathering and stepping in
  \<^verbatim>\<open>Simulation\<close>, the read loop in \<^verbatim>\<open>Stream_Socket\<close>); the theorems that use them prove that they return in the
  situation at hand, or, for a null period, that the loop completes any number of rounds for which insertion epochs are
  left and never returns. Steps are counted there and for a push without interference in \<^verbatim>\<open>Mpsc_Queue\<close>, where
  five accesses to shared memory are proved to be enough. The theorems on that queue hold for capacities of at most
  \<open>2 ^ 59\<close> and for runs that reserve fewer than \<open>2 ^ 59\<close> messages, so that positions do not wrap. The theorems on the NADA
  sender are proved for receive rates up to 10 Gbit/s, signals up to 999000 ms and report intervals up to 1000 s,
  which keeps every intermediate value within the exact integers of the format; that a run stays within these
  ranges is a hypothesis. The loss ratio of the receiver is bounded as long as its 32-bit counters do not overflow.
  Concurrent parts assume that accesses to shared
  memory take effect in one order for all threads.

  \<^bold>\<open>Parameters.\<close> The timestamps of the crate \<^verbatim>\<open>tai_time\<close>, the power function of the mathematical library, the
  iteration order of hash maps, and what user futures and models do.

  \<^bold>\<open>Not modelled.\<close>
  \<^item> Graphics, plots and files: \<^verbatim>\<open>examples/lib/postsim_visualizers\<close>, CSV writers, statistics printing, the
    example programs and encoder test beds, which mostly call external processes and libraries.
  \<^item> The remote interface (\<^verbatim>\<open>src/grpc\<close>, partly generated) and the registries in front of it.
  \<^item> The thread pools of the executor (\<^verbatim>\<open>src/executor/mt_executor.rs\<close>, \<^verbatim>\<open>st_executor.rs\<close>): in \<^verbatim>\<open>Simulation\<close> the
    executor is an arbitrary interleaving of the tasks, a superset of what a pool can do.
  \<^item> Ports, broadcasters and the helpers of \<^verbatim>\<open>src/util\<close> on raw memory, whose content is the ownership discipline of
    futures and pointers.
  \<^item> The models of server and client (\<^verbatim>\<open>examples/lib/models_XR.rs\<close>) and of the Wi-Fi medium access
    (\<^verbatim>\<open>models_mm1k.rs\<close>): large asynchronous handlers over settings, logs and random draws. \<^verbatim>\<open>fovoptix.rs\<close> and
    \<^verbatim>\<open>alvr_statistics.rs\<close>, which feed them. They are deterministic code that could be modelled on the same
    foundations, and are left for further work.
\<close>

end
